(* ===== verification/Prelude.thy ===== *)
theory Prelude
  imports Main "HOL-Library.Word" "HOL-Library.Char_ord"
begin

text \<open>
  The vocabulary every component shares: the machine integers and byte strings of the
  program, \<open>Result\<close> as a sum, checked slice access, Rust's saturating arithmetic, and the
  generic facts on lists and words the component proofs rest on.

  Conventions. \<open>u8\<close> \<dots> \<open>u64\<close> are words of that width; \<open>usize\<close> is 64 bits wide
  (the deployment target) and a length is a \<open>nat\<close>. A Rust \<open>String\<close> is a
  \<^typ>\<open>string\<close> of its UTF-8 bytes (a \<^typ>\<open>char\<close> is one byte), a binary buffer is a
  list of \<open>u8\<close>. A \<open>Result<T, E>\<close> is a value of \<open>E + T\<close>: \<open>Err\<close> is \<open>Inl\<close>,
  \<open>Ok\<close> is \<open>Inr\<close>.
\<close>

unbundle bit_operations_syntax

section \<open>Types\<close>

type_synonym u8 = "8 word"
type_synonym u16 = "16 word"
type_synonym u32 = "32 word"
type_synonym u64 = "64 word"
type_synonym bytes = "u8 list"
type_synonym header = "string \<times> string"
type_synonym ('a, 'e) result = "'e + 'a"

abbreviation Ok :: "'a \<Rightarrow> ('a, 'e) result" where "Ok \<equiv> Inr"
abbreviation Err :: "'e \<Rightarrow> ('a, 'e) result" where "Err \<equiv> Inl"

named_theorems slice_simps \<open>checked reads of slices\<close>
named_theorems word_norm \<open>reading words back as naturals\<close>

section \<open>Checked slice access\<close>

text \<open>\<open>Duration::as_millis\<close> of a duration in nanoseconds.\<close>

definition as_millis :: "nat \<Rightarrow> nat" where
  "as_millis d = d div 1000000"

text \<open>\<open>get\<close> is \<open>slice::get(i)\<close>, \<open>get_range\<close> is \<open>slice::get(a..b)\<close>: both answer
  \<^const>\<open>None\<close> out of range.\<close>

definition get :: "'a list \<Rightarrow> nat \<Rightarrow> 'a option" where
  "get xs i = (if i < length xs then Some (xs ! i) else None)"

definition get_range :: "'a list \<Rightarrow> nat \<Rightarrow> nat \<Rightarrow> 'a list option" where
  "get_range xs a b = (if a \<le> b \<and> b \<le> length xs then Some (take (b - a) (drop a xs)) else None)"

lemma get_in [slice_simps]: "i < length xs \<Longrightarrow> get xs i = Some (xs ! i)"
  by (simp add: get_def)

lemma get_out [slice_simps]: "length xs \<le> i \<Longrightarrow> get xs i = None"
  by (simp add: get_def)

lemma get_Nil [simp]: "get [] i = None"
  by (simp add: get_def)

lemma get_0 [simp]: "get (x # xs) 0 = Some x"
  by (simp add: get_def)

lemma get_Suc [simp]: "get (x # xs) (Suc i) = get xs i"
  by (simp add: get_def)

lemma get_numeral [simp]: "get (x # xs) (numeral k) = get xs (pred_numeral k)"
  by (simp add: numeral_eq_Suc)

lemma get_one [simp]: "get (x # xs) 1 = get xs 0"
  by (simp add: get_def)

lemma get_eq_Some: "get xs i = Some x \<longleftrightarrow> i < length xs \<and> xs ! i = x"
  by (auto simp: get_def)

lemma get_eq_None: "get xs i = None \<longleftrightarrow> length xs \<le> i"
  by (auto simp: get_def)

lemma get_range_eq_Some:
  "get_range xs a b = Some ys \<longleftrightarrow> a \<le> b \<and> b \<le> length xs \<and> ys = take (b - a) (drop a xs)"
  by (auto simp: get_range_def)

lemma range_append [slice_simps]:
  "get_range (xs @ ys @ zs) (length xs) (length xs + length ys) = Some ys"
  by (simp add: get_range_def)

lemma get_range_length: "get_range xs a b = Some ys \<Longrightarrow> length ys = b - a"
  by (auto simp: get_range_eq_Some)

lemma get_prefix: "i < n \<Longrightarrow> n \<le> length xs \<Longrightarrow> get (take n xs @ ys) i = get xs i"
  by (simp add: get_def nth_append)

lemma get_range_prefix:
  "b \<le> n \<Longrightarrow> n \<le> length xs \<Longrightarrow> get_range (take n xs @ ys) a b = get_range xs a b"
  by (auto simp: get_range_def drop_take min_def)

text \<open>\<open>get_from\<close> is \<open>slice::get(a..)\<close>.\<close>

definition get_from :: "'a list \<Rightarrow> nat \<Rightarrow> 'a list option" where
  "get_from xs a = (if a \<le> length xs then Some (drop a xs) else None)"

lemma get_from_Some: "get_from xs a = Some ys \<longleftrightarrow> a \<le> length xs \<and> ys = drop a xs"
  by (auto simp: get_from_def)

lemma get_from_append: "get_from (xs @ ys) (length xs) = Some ys"
  by (simp add: get_from_def)

section \<open>Saturating arithmetic\<close>

text \<open>\<open>saturating_add\<close> and \<open>saturating_mul\<close> at width \<open>w\<close>, on naturals below \<open>2 ^ w\<close>;
  \<open>saturating_sub\<close> is the subtraction of \<^typ>\<open>nat\<close>.\<close>

definition max_of :: "nat \<Rightarrow> nat" where
  "max_of w = 2 ^ w - 1"

definition saturating_add :: "nat \<Rightarrow> nat \<Rightarrow> nat \<Rightarrow> nat" where
  "saturating_add w a b = min (a + b) (max_of w)"

definition saturating_mul :: "nat \<Rightarrow> nat \<Rightarrow> nat \<Rightarrow> nat" where
  "saturating_mul w a b = min (a * b) (max_of w)"

text \<open>Plain \<open>+\<close> wraps in a release build; \<open>checked_add\<close> is \<^const>\<open>None\<close> on overflow, \<open>checked_div\<close> is \<^const>\<open>None\<close> on a zero divisor.\<close>

definition wrapping_add :: "nat \<Rightarrow> nat \<Rightarrow> nat \<Rightarrow> nat" where
  "wrapping_add w a b = (a + b) mod 2 ^ w"

definition wrapping_sub :: "nat \<Rightarrow> nat \<Rightarrow> nat \<Rightarrow> nat" where
  "wrapping_sub w a b = (a + 2 ^ w - b) mod 2 ^ w"

definition checked_add :: "nat \<Rightarrow> nat \<Rightarrow> nat \<Rightarrow> nat option" where
  "checked_add w a b = (if a + b \<le> max_of w then Some (a + b) else None)"

definition checked_div :: "nat \<Rightarrow> nat \<Rightarrow> nat option" where
  "checked_div a b = (if b = 0 then None else Some (a div b))"

lemma wrapping_add_exact: "a + b \<le> max_of w \<Longrightarrow> wrapping_add w a b = a + b"
  by (auto simp: wrapping_add_def max_of_def intro!: mod_less le_less_trans [of "a + b" "2 ^ w - 1"])

lemma wrapping_sub_exact: "b \<le> a \<Longrightarrow> a < 2 ^ w \<Longrightarrow> wrapping_sub w a b = a - b"
  by (simp add: wrapping_sub_def mod_if)

lemma saturating_add_le [simp]: "saturating_add w a b \<le> max_of w"
  by (simp add: saturating_add_def)

lemma saturating_mul_le [simp]: "saturating_mul w a b \<le> max_of w"
  by (simp add: saturating_mul_def)

lemma saturating_add_bound: "saturating_add w a b \<le> c \<Longrightarrow> c < max_of w \<Longrightarrow> a + b \<le> c"
  by (auto simp: saturating_add_def min_def split: if_splits)

lemma saturating_mul_bound: "saturating_mul w a b \<le> c \<Longrightarrow> c < max_of w \<Longrightarrow> a * b \<le> c"
  by (auto simp: saturating_mul_def min_def split: if_splits)

lemma saturating_add_exact: "a + b \<le> max_of w \<Longrightarrow> saturating_add w a b = a + b"
  by (simp add: saturating_add_def)

lemma saturating_mul_exact: "a * b \<le> max_of w \<Longrightarrow> saturating_mul w a b = a * b"
  by (simp add: saturating_mul_def)

section \<open>Words\<close>

lemma unat_u8 [simp]: "unat (w :: u8) < 256"
  using unsigned_less [of w] by simp

lemma unat_u16: "unat (w :: u16) < 2 ^ 16"
  using unsigned_less [of w] by simp

lemma unat_u32: "unat (w :: u32) < 2 ^ 32"
  using unsigned_less [of w] by simp

lemma unat_u64: "unat (w :: u64) < 2 ^ 64"
  using unsigned_less [of w] by simp

lemma unat_u64_max: "unat (w :: u64) \<le> max_of 64"
  using unat_u64 [of w] by (simp add: max_of_def)

section \<open>Counting in lists\<close>

lemma count_list_distinct: "distinct xs \<Longrightarrow> count_list xs x = (if x \<in> set xs then 1 else 0)"
  by (induction xs) auto

lemma count_list_map_inj: "inj f \<Longrightarrow> count_list (map f xs) (f x) = count_list xs x"
  by (induction xs) (auto dest: injD)

end
