(* ===== verification/Backend.thy ===== *)
theory Backend
  imports Prelude
begin

text \<open>
  Backends. \<open>backend_state\<close> is the atomic counter block of \<open>lb-core/src/backend.rs\<close>;
  \<open>backend\<close> is the balancer's own view of \<open>lb-balancer/src/lib.rs\<close>, which caches a snapshot
  of the counters and may share the counter block through an \<open>Arc\<close>: the address of the block
  in an explicit store. The \<open>compare_exchange_weak\<close> loops are modelled with their
  interference: each attempt meets the value the other threads left in the cell and may fail
  spuriously.
\<close>

section \<open>Atomic counters\<close>

record backend_state =
  st_active_connections :: u64
  st_active_requests :: u64
  st_latency_ns :: u64

definition backend_state_new :: backend_state where
  "backend_state_new = \<lparr>st_active_connections = 0, st_active_requests = 0, st_latency_ns = 0\<rparr>"

definition inc_connections :: "backend_state \<Rightarrow> backend_state" where
  "inc_connections s = s\<lparr>st_active_connections := st_active_connections s + 1\<rparr>"

definition inc_requests :: "backend_state \<Rightarrow> backend_state" where
  "inc_requests s = s\<lparr>st_active_requests := st_active_requests s + 1\<rparr>"

definition set_latency_ns :: "u64 \<Rightarrow> backend_state \<Rightarrow> backend_state" where
  "set_latency_ns ns s = s\<lparr>st_latency_ns := ns\<rparr>"

text \<open>
  A \<open>compare_exchange_weak\<close> loop. \<open>step cur\<close> is the value to store when the cell still
  holds \<open>cur\<close>, or \<^const>\<open>None\<close> when the loop returns early. The schedule lists, per
  attempt, the value found in the cell and whether the weak exchange fails spuriously.
\<close>

datatype 'v cas_outcome = Stored 'v 'v | Returned 'v | Running 'v

fun cas_loop :: "('v \<Rightarrow> 'v option) \<Rightarrow> 'v \<Rightarrow> ('v \<times> bool) list \<Rightarrow> 'v cas_outcome" where
  "cas_loop step cur [] =
     (case step cur of None \<Rightarrow> Returned cur | Some new \<Rightarrow> Running cur)"
| "cas_loop step cur ((v, spurious) # sched) =
     (case step cur of
        None \<Rightarrow> Returned cur
      | Some new \<Rightarrow>
          if v = cur \<and> \<not> spurious then Stored cur new else cas_loop step v sched)"

definition saturating_dec :: "u64 \<Rightarrow> u64" where
  "saturating_dec v = (if v = 0 then 0 else v - 1)"

text \<open>\<open>dec_connections\<close> and \<open>dec_requests\<close>: the loaded value, then the exchange loop.\<close>

definition dec_connections :: "u64 \<Rightarrow> (u64 \<times> bool) list \<Rightarrow> u64 cas_outcome" where
  "dec_connections loaded sched = cas_loop (\<lambda>cur. Some (saturating_dec cur)) loaded sched"

definition dec_requests :: "u64 \<Rightarrow> (u64 \<times> bool) list \<Rightarrow> u64 cas_outcome" where
  "dec_requests loaded sched = cas_loop (\<lambda>cur. Some (saturating_dec cur)) loaded sched"

lemma cas_loop_stored:
  "cas_loop step cur sched = Stored v new \<Longrightarrow> step v = Some new \<and> (v, False) \<in> set sched"
  by (induction step cur sched rule: cas_loop.induct) (auto split: option.splits if_splits)

lemma cas_loop_returned:
  "cas_loop step cur sched = Returned v \<Longrightarrow> step v = None \<and> (v = cur \<or> v \<in> fst ` set sched)"
  by (induction step cur sched rule: cas_loop.induct) (force split: option.splits if_splits)+

text \<open>An attempt that meets the value its predecessor met, and does not fail spuriously, ends
  the loop.\<close>

lemma cas_loop_done:
  assumes "(v, sp) # (v, False) # rest = drop k sched"
  shows "\<not> (\<exists>w. cas_loop step cur sched = Running w)"
  using assms
proof (induction k arbitrary: cur sched)
  case 0
  then show ?case by (auto simp flip: "0.prems" split: option.splits if_splits)
next
  case (Suc k)
  then obtain w sp' sched' where s: "sched = (w, sp') # sched'"
    by (cases sched) auto
  with Suc.prems have "(v, sp) # (v, False) # rest = drop k sched'" by simp
  from Suc.IH [OF this] show ?case by (auto simp: s split: option.splits if_splits)
qed

section \<open>The balancer's view of a backend\<close>

record backend =
  backend_id :: string
  weight :: u32
  active_connections :: u64
  active_requests :: u64
  latency_ewma_ns :: u64
  state :: "nat option"

definition backend_new :: "string \<Rightarrow> u32 \<Rightarrow> backend" where
  "backend_new i w = \<lparr>backend_id = i, weight = w, active_connections = 0, active_requests = 0,
     latency_ewma_ns = 0, state = None\<rparr>"

definition with_state :: "(nat \<Rightarrow> backend_state) \<Rightarrow> string \<Rightarrow> u32 \<Rightarrow> nat \<Rightarrow> backend" where
  "with_state store i w a = \<lparr>backend_id = i, weight = w,
     active_connections = st_active_connections (store a),
     active_requests = st_active_requests (store a),
     latency_ewma_ns = st_latency_ns (store a), state = Some a\<rparr>"

definition sync_from_state :: "(nat \<Rightarrow> backend_state) \<Rightarrow> backend \<Rightarrow> bool \<times> backend" where
  "sync_from_state store b =
     (case state b of
        None \<Rightarrow> (False, b)
      | Some a \<Rightarrow>
          let new_conn = st_active_connections (store a);
              new_req = st_active_requests (store a);
              new_lat = st_latency_ns (store a);
              changed = (active_connections b \<noteq> new_conn \<or> active_requests b \<noteq> new_req
                         \<or> latency_ewma_ns b \<noteq> new_lat)
          in (changed, b\<lparr>active_connections := new_conn, active_requests := new_req,
                         latency_ewma_ns := new_lat\<rparr>))"

text \<open>The snapshot fields of a backend agree with the counter block it is bound to.\<close>

definition in_sync :: "(nat \<Rightarrow> backend_state) \<Rightarrow> backend \<Rightarrow> bool" where
  "in_sync store b = (case state b of None \<Rightarrow> True | Some a \<Rightarrow>
     active_connections b = st_active_connections (store a)
     \<and> active_requests b = st_active_requests (store a)
     \<and> latency_ewma_ns b = st_latency_ns (store a))"

lemma with_state_in_sync: "in_sync store (with_state store i w a)"
  by (simp add: in_sync_def with_state_def)

lemma sync_from_state_spec:
  "in_sync store (snd (sync_from_state store b))
   \<and> backend_id (snd (sync_from_state store b)) = backend_id b
   \<and> weight (snd (sync_from_state store b)) = weight b
   \<and> state (snd (sync_from_state store b)) = state b
   \<and> (fst (sync_from_state store b) \<longleftrightarrow> snd (sync_from_state store b) \<noteq> b)
   \<and> (fst (sync_from_state store b) \<longleftrightarrow> \<not> in_sync store b)"
  by (cases b) (auto simp: in_sync_def sync_from_state_def Let_def split: option.splits)

section \<open>Counting over an interleaving\<close>

text \<open>The connection counter under an arbitrary interleaving of atomic increments and
  (linearised) decrements.\<close>

datatype counter_op = Inc | Dec

primrec counter_step :: "u64 \<Rightarrow> counter_op \<Rightarrow> u64" where
  "counter_step v Inc = v + 1"
| "counter_step v Dec = saturating_dec v"

definition counter_run :: "u64 \<Rightarrow> counter_op list \<Rightarrow> u64" where
  "counter_run v ops = foldl counter_step v ops"

definition balanced :: "counter_op list \<Rightarrow> bool" where
  "balanced ops = (\<forall>k \<le> length ops. count_list (take k ops) Dec \<le> count_list (take k ops) Inc)"

lemma balanced_snocD: "balanced (ops @ [op]) \<Longrightarrow> balanced ops"
  unfolding balanced_def by (metis le_SucI length_append_singleton
      take_append diff_is_0_eq' take0 append_Nil2)

lemma balanced_le: "balanced ops \<Longrightarrow> count_list ops Dec \<le> count_list ops Inc"
  unfolding balanced_def by (metis order_refl take_all)

lemma counter_run_balanced:
  "balanced ops \<Longrightarrow> count_list ops Inc < 2 ^ 64
   \<Longrightarrow> unat (counter_run 0 ops) = count_list ops Inc - count_list ops Dec"
proof (induction ops rule: rev_induct)
  case Nil
  then show ?case by (simp add: counter_run_def)
next
  case (snoc op ops)
  from snoc.prems(2) have lt: "count_list ops Inc < 2 ^ 64"
    by (auto split: if_splits)
  have IH: "unat (counter_run 0 ops) = count_list ops Inc - count_list ops Dec"
    using snoc.IH [OF balanced_snocD [OF snoc.prems(1)] lt] .
  have run: "counter_run 0 (ops @ [op]) = counter_step (counter_run 0 ops) op"
    by (simp add: counter_run_def)
  have le: "count_list ops Dec \<le> count_list ops Inc"
    using balanced_le [OF balanced_snocD [OF snoc.prems(1)]] .
  show ?case
  proof (cases op)
    case Inc
    then have "unat (counter_run 0 ops) + 1 < 2 ^ 64"
      using snoc.prems(2) IH by simp
    then have "unat (counter_run 0 ops + 1) = unat (counter_run 0 ops) + 1"
      by (simp add: unat_word_ariths)
    with Inc IH le run show ?thesis by simp
  next
    case Dec
    then have pos: "count_list ops Dec < count_list ops Inc"
      using balanced_le [OF snoc.prems(1)] by simp
    then have nz: "counter_run 0 ops \<noteq> 0" using IH by auto
    then have "unat (counter_run 0 ops - 1) = unat (counter_run 0 ops) - 1"
      by (simp add: unat_minus_one)
    with Dec IH pos nz run show ?thesis by (simp add: saturating_dec_def)
  qed
qed

end
