(* ===== verification/Balancer.thy ===== *)
theory Balancer
  imports Backend
begin

text \<open>
  The stateless and counter-based balancers of \<open>lb-balancer\<close>: round robin, the scans for the
  least loaded backend (least connections, least request, EWMA), the random family (uniform,
  weighted, power of two choices) over a random source that is a parameter, and session
  affinity; the trait \<open>LoadBalancer\<close> as a locale, with every balancer an interpretation.
\<close>

datatype balancer_error = NoBackends | AllZeroWeight | TableStale | Internal string

type_synonym 's picker = "'s \<Rightarrow> backend list \<Rightarrow> (nat, balancer_error) result \<times> 's"

section \<open>Round robin\<close>

record round_robin =
  counter :: u64

definition round_robin_new :: round_robin where
  "round_robin_new = \<lparr>counter = 0\<rparr>"

definition round_robin_pick :: "round_robin picker" where
  "round_robin_pick s bs =
     (if bs = [] then (Err NoBackends, s)
      else (Ok (unat (counter s) mod length bs), s\<lparr>counter := counter s + 1\<rparr>))"

section \<open>Scans for the least score\<close>

text \<open>The loop the three scanning balancers share: keep the index of the first backend whose
  score is strictly below the best one so far.\<close>

fun scan_min :: "(backend \<Rightarrow> nat) \<Rightarrow> backend list \<Rightarrow> nat \<Rightarrow> nat \<Rightarrow> nat \<Rightarrow> nat" where
  "scan_min score [] i best_idx best = best_idx"
| "scan_min score (b # bs) i best_idx best =
     (if score b < best then scan_min score bs (i + 1) i (score b)
      else scan_min score bs (i + 1) best_idx best)"

definition least_connections_pick :: "unit picker" where
  "least_connections_pick s bs =
     (if bs = [] then (Err NoBackends, s)
      else (Ok (scan_min (\<lambda>b. unat (active_connections b)) bs 0 0 (max_of 64)), s))"

definition least_request_pick :: "unit picker" where
  "least_request_pick s bs =
     (if bs = [] then (Err NoBackends, s)
      else (Ok (scan_min (\<lambda>b. unat (active_requests b)) bs 0 0 (max_of 64)), s))"

text \<open>EWMA: the score of a backend with no measurement uses the largest measured latency.\<close>

definition max_observed_latency :: "backend list \<Rightarrow> nat" where
  "max_observed_latency bs = fold max (map (\<lambda>b. unat (latency_ewma_ns b)) bs) 0"

definition cold_start_latency :: "backend list \<Rightarrow> nat" where
  "cold_start_latency bs =
     (if max_observed_latency bs > 0 then max_observed_latency bs else 1)"

definition ewma_score :: "backend list \<Rightarrow> backend \<Rightarrow> nat" where
  "ewma_score bs b =
     (let latency = (if latency_ewma_ns b = 0 then cold_start_latency bs
                     else unat (latency_ewma_ns b));
          load = unat (active_connections b) + 1
      in saturating_mul 128 latency load)"

definition ewma_pick :: "unit picker" where
  "ewma_pick s bs =
     (if bs = [] then (Err NoBackends, s)
      else (Ok (scan_min (ewma_score bs) bs 0 0 (max_of 128)), s))"

section \<open>Random balancers\<close>

text \<open>\<open>random_range r n\<close> is the \<open>rand\<close> crate's draw from \<open>0..n\<close>: the value drawn and the
  next generator state.\<close>

type_synonym 'r random_source = "'r \<Rightarrow> nat \<Rightarrow> nat \<times> 'r"

definition random_pick :: "'r random_source \<Rightarrow> 'r picker" where
  "random_pick random_range r bs =
     (if bs = [] then (Err NoBackends, r)
      else let (idx, r') = random_range r (length bs) in (Ok idx, r'))"

definition weight_of :: "backend \<Rightarrow> nat" where
  "weight_of b = unat (weight b)"

definition total_weight :: "backend list \<Rightarrow> nat" where
  "total_weight bs = sum_list (map weight_of bs)"

text \<open>The dart walks along the weights; \<^const>\<open>None\<close> is the fall-through after the loop.\<close>

fun throw_dart :: "backend list \<Rightarrow> nat \<Rightarrow> nat \<Rightarrow> nat option" where
  "throw_dart [] i dart = None"
| "throw_dart (b # bs) i dart =
     (if dart < weight_of b then Some i else throw_dart bs (i + 1) (dart - weight_of b))"

definition weighted_random_index :: "backend list \<Rightarrow> nat \<Rightarrow> nat" where
  "weighted_random_index bs dart =
     (case throw_dart bs 0 dart of Some i \<Rightarrow> i | None \<Rightarrow> length bs - 1)"

definition weighted_random_pick :: "'r random_source \<Rightarrow> 'r picker" where
  "weighted_random_pick random_range r bs =
     (if bs = [] then (Err NoBackends, r)
      else if total_weight bs = 0 then (Err AllZeroWeight, r)
      else let (dart, r') = random_range r (total_weight bs)
           in (Ok (weighted_random_index bs dart), r'))"

definition p2c_pick :: "'r random_source \<Rightarrow> 'r picker" where
  "p2c_pick random_range r bs =
     (let len = length bs in
      if len = 0 then (Err NoBackends, r)
      else if len = 1 then (Ok 0, r)
      else
        let (a, r1) = random_range r len;
            (b0, r2) = random_range r1 (len - 1);
            b = (if b0 \<ge> a then b0 + 1 else b0)
        in case (get bs a, get bs b) of
             (Some backend_a, Some backend_b) \<Rightarrow>
               (if active_connections backend_a \<le> active_connections backend_b
                then (Ok a, r2) else (Ok b, r2))
           | (Some _, None) \<Rightarrow> (Ok a, r2)
           | (None, Some _) \<Rightarrow> (Ok b, r2)
           | (None, None) \<Rightarrow> (Err (Internal ''index out of range''), r2))"

section \<open>Session affinity\<close>

definition affinity_mix :: "u64 \<Rightarrow> u64" where
  "affinity_mix key =
     (let h1 = key XOR drop_bit 33 key;
          h2 = h1 * 0xff51afd7ed558ccd;
          h3 = h2 XOR drop_bit 33 h2;
          h4 = h3 * 0xc4ceb9fe1a85ec53
      in h4 XOR drop_bit 33 h4)"

definition session_affinity_pick :: "backend list \<Rightarrow> u64 \<Rightarrow> (nat, balancer_error) result" where
  "session_affinity_pick bs key =
     (if bs = [] then Err NoBackends else Ok (unat (affinity_mix key) mod length bs))"

section \<open>The identity of a backend list\<close>

fun id_hash :: "u64 \<Rightarrow> string \<Rightarrow> u64" where
  "id_hash h [] = h"
| "id_hash h (c # cs) = id_hash (h * 0x100000001b3 + of_char c) cs"

definition position_hash :: "nat \<Rightarrow> string \<Rightarrow> u64" where
  "position_hash i name =
     (let h0 = id_hash 0 name + of_nat i;
          h1 = h0 XOR drop_bit 33 h0;
          h2 = h1 * 0xff51afd7ed558ccd
      in h2 XOR drop_bit 33 h2)"

fun identity_loop :: "u64 \<Rightarrow> nat \<Rightarrow> backend list \<Rightarrow> u64" where
  "identity_loop combined i [] = combined"
| "identity_loop combined i (b # bs) =
     identity_loop (combined XOR word_rotl (i mod 64) (position_hash i (backend_id b)))
       (i + 1) bs"

definition backend_identity_hash :: "backend list \<Rightarrow> u64" where
  "backend_identity_hash bs = identity_loop 0xcbf29ce484222325 0 bs"

section \<open>The trait as a contract\<close>

text \<open>A run of picks over a backend list, and over lists that change between the picks.\<close>

primrec run_picks :: "'s picker \<Rightarrow> 's \<Rightarrow> backend list \<Rightarrow> nat
    \<Rightarrow> (nat, balancer_error) result list \<times> 's" where
  "run_picks pick s bs 0 = ([], s)"
| "run_picks pick s bs (Suc k) =
     (let (rs, s') = run_picks pick s bs k; (r, s'') = pick s' bs in (rs @ [r], s''))"

fun run_changing :: "'s picker \<Rightarrow> 's \<Rightarrow> backend list list \<Rightarrow> (nat, balancer_error) result list" where
  "run_changing pick s [] = []"
| "run_changing pick s (bs # bss) = (let (r, s') = pick s bs in r # run_changing pick s' bss)"

lemma length_run_picks [simp]: "length (fst (run_picks pick s bs k)) = k"
  by (induction k) (auto simp: split_beta Let_def)

locale load_balancer =
  fixes pick :: "'s picker"
  assumes pick_empty: "fst (pick s []) = Err NoBackends"
    and pick_in_range: "fst (pick s bs) = Ok i \<Longrightarrow> i < length bs"
begin

lemma pick_ok_nonempty: "fst (pick s bs) = Ok i \<Longrightarrow> bs \<noteq> []"
  using pick_in_range by fastforce

lemma run_changing_valid:
  "list_all2 (\<lambda>r bs. \<forall>i. r = Ok i \<longrightarrow> i < length bs) (run_changing pick s bss) bss"
  by (induction bss arbitrary: s) (auto simp: split_beta Let_def intro: pick_in_range)

lemma run_picks_valid:
  "Ok i \<in> set (fst (run_picks pick s bs k)) \<Longrightarrow> i < length bs"
  by (induction k) (auto simp: split_beta Let_def intro: pick_in_range dest: sym)

end

text \<open>The trait \<open>KeyedLoadBalancer\<close>: a pick is a function of the built state, the list and the key.\<close>

locale keyed_load_balancer =
  fixes pick_with_key :: "'s \<Rightarrow> backend list \<Rightarrow> u64 \<Rightarrow> (nat, balancer_error) result"
  assumes key_empty: "pick_with_key s [] key = Err NoBackends"
    and key_in_range: "pick_with_key s bs key = Ok i \<Longrightarrow> i < length bs"
begin

lemma keyed_ok_nonempty: "pick_with_key s bs key = Ok i \<Longrightarrow> bs \<noteq> []"
  using key_in_range by fastforce

lemma keyed_run_valid:
  "list_all (\<lambda>r. \<forall>i. r = Ok i \<longrightarrow> i < length bs) (map (pick_with_key s bs) keys)"
  by (auto simp: list_all_iff intro: key_in_range)

end

interpretation affinity: keyed_load_balancer "\<lambda>(_ :: unit). session_affinity_pick"
  by unfold_locales (auto simp: session_affinity_pick_def split: if_splits)

interpretation rr: load_balancer round_robin_pick
  by unfold_locales (auto simp: round_robin_pick_def split: if_splits)


section \<open>Round robin is fair\<close>

lemma round_robin_run:
  assumes "bs \<noteq> []" and "unat (counter s) + k < 2 ^ 64"
  shows "run_picks round_robin_pick s bs k =
    (map (\<lambda>i. Ok ((unat (counter s) + i) mod length bs)) [0..<k], s\<lparr>counter := counter s + of_nat k\<rparr>)"
  using assms(2)
proof (induction k)
  case 0
  then show ?case by simp
next
  case (Suc k)
  then have "unat (counter s + of_nat k) = unat (counter s) + k"
    by (simp add: unat_word_ariths unat_of_nat)
  with Suc assms(1) show ?case
    by (simp add: round_robin_pick_def add.assoc add.commute)
qed

text \<open>Any window of \<open>length bs\<close> consecutive residues meets every index once.\<close>

lemma mod_window_le:
  "(c + i) mod n = (c + j) mod n \<Longrightarrow> i \<le> j \<Longrightarrow> j < n \<Longrightarrow> i = j" for c n :: nat
  using mod_eq_dvd_iff_nat [of "c + i" "c + j" n] nat_dvd_not_less [of "j - i" n]
  by (cases "i = j") (auto simp: less_imp_diff_less)

lemma mod_window_inj: "inj_on (\<lambda>i. (c + i) mod n) {0..<n}" for c n :: nat
  by (rule inj_onI) (metis atLeastLessThan_iff mod_window_le nle_le)

lemma mod_window_image: "0 < n \<Longrightarrow> (\<lambda>i. (c + i) mod n) ` {0..<n} = {0..<n}" for c n :: nat
proof (rule card_subset_eq)
  assume n: "0 < n"
  show "(\<lambda>i. (c + i) mod n) ` {0..<n} \<subseteq> {0..<n}" using n by auto
  show "card ((\<lambda>i. (c + i) mod n) ` {0..<n}) = card {0..<n}"
    by (rule card_image [OF mod_window_inj])
qed simp


lemma count_window:
  fixes c n :: nat
  assumes "j < n"
  shows "count_list (map (\<lambda>i. (c + i) mod n) [0..<n]) j = 1"
proof -
  have "distinct (map (\<lambda>i. (c + i) mod n) [0..<n])"
    by (simp add: distinct_map mod_window_inj)
  moreover have "j \<in> set (map (\<lambda>i. (c + i) mod n) [0..<n])"
    using assms mod_window_image [of n c] by auto
  ultimately show ?thesis by (simp only: count_list_distinct if_True)
qed

lemma count_windows:
  fixes c n :: nat
  assumes "j < n"
  shows "count_list (map (\<lambda>i. (c + i) mod n) [0..<m * n]) j = m"
proof (induction m arbitrary: c)
  case 0
  then show ?case by simp
next
  case (Suc m)
  have split: "[0..<Suc m * n] = [0..<m * n] @ map (\<lambda>i. i + m * n) [0..<n]"
    using upt_add_eq_append [of 0 "m * n" n] by (simp only: map_add_upt mult_Suc add.commute le0)
  have "map (\<lambda>i. (c + i) mod n) (map (\<lambda>i. i + m * n) [0..<n]) = map (\<lambda>i. (c + i) mod n) [0..<n]"
    by (simp only: map_map o_def add.assoc [symmetric] mod_mult_self1)
  with split Suc.IH count_window [OF assms, of c] show ?case
    by (simp only: map_append count_list_append)
qed

section \<open>The scanning balancers pick the first minimum\<close>

definition first_min :: "(backend \<Rightarrow> nat) \<Rightarrow> backend list \<Rightarrow> nat \<Rightarrow> bool" where
  "first_min score bs i \<longleftrightarrow> i < length bs
     \<and> (\<forall>j < length bs. score (bs ! i) \<le> score (bs ! j))
     \<and> (\<forall>j < i. score (bs ! i) < score (bs ! j))"

lemma scan_min_split:
  assumes "first_min score pre bi" and "best = score (pre ! bi)"
  shows "first_min score (pre @ bs) (scan_min score bs (length pre) bi best)"
  using assms
proof (induction bs arbitrary: pre bi best)
  case Nil
  then show ?case by simp
next
  case (Cons b bs)
  show ?case
  proof (cases "score b < best")
    case True
    with Cons.prems have "first_min score (pre @ [b]) (length pre)"
      by (fastforce simp: first_min_def nth_append less_Suc_eq)
    from Cons.IH [OF this, of "score b"] True show ?thesis by simp
  next
    case False
    with Cons.prems have "first_min score (pre @ [b]) bi" and "best = score ((pre @ [b]) ! bi)"
      by (auto simp: first_min_def nth_append less_Suc_eq)
    from Cons.IH [OF this] False show ?thesis by simp
  qed
qed

text \<open>A balancer that scans with a score bounded by the initial best.\<close>

locale min_scan =
  fixes score :: "backend list \<Rightarrow> backend \<Rightarrow> nat" and limit :: nat
  assumes score_le: "score bs b \<le> limit"
begin

lemma scan_first_min:
  assumes "bs \<noteq> []"
  shows "first_min (score bs) bs (scan_min (score bs) bs 0 0 limit)"
proof -
  from assms obtain b bs' where bs: "bs = b # bs'" by (cases bs) auto
  have f: "first_min (score bs) [b] 0" by (simp add: first_min_def)
  have "scan_min (score bs) bs 0 0 limit = scan_min (score bs) bs' (length [b]) 0 (score bs b)"
    using score_le [of bs b] by (auto simp: bs)
  then show ?thesis
    using scan_min_split [OF f, of "score bs b" bs'] by (simp add: bs)
qed

lemma scan_in_range: "bs \<noteq> [] \<Longrightarrow> scan_min (score bs) bs 0 0 limit < length bs"
  using scan_first_min by (simp add: first_min_def)

end

interpretation lc: min_scan "\<lambda>bs b. unat (active_connections b)" "max_of 64"
  by unfold_locales (rule unat_u64_max)

interpretation lreq: min_scan "\<lambda>bs b. unat (active_requests b)" "max_of 64"
  by unfold_locales (rule unat_u64_max)

interpretation ew: min_scan ewma_score "max_of 128"
  by unfold_locales (simp add: ewma_score_def Let_def)

interpretation least_connections: load_balancer least_connections_pick
  by unfold_locales (auto simp: least_connections_pick_def intro: lc.scan_in_range split: if_splits)

interpretation least_request: load_balancer least_request_pick
  by unfold_locales (auto simp: least_request_pick_def intro: lreq.scan_in_range split: if_splits)

interpretation ewma: load_balancer ewma_pick
  by unfold_locales (auto simp: ewma_pick_def intro: ew.scan_in_range split: if_splits)

text \<open>The product of a 64-bit latency and a 64-bit load fits 128 bits: the score never saturates.\<close>

lemma max_observed_latency_le: "max_observed_latency bs < 2 ^ 64"
proof -
  have "fold max xs m < 2 ^ 64" if "\<forall>x \<in> set xs. x < 2 ^ 64" "m < (2::nat) ^ 64" for xs m
    using that by (induction xs arbitrary: m) auto
  then show ?thesis
    unfolding max_observed_latency_def using unat_u64 by (auto simp del: fold_map)
qed

lemma ewma_score_exact:
  "ewma_score bs b = (if latency_ewma_ns b = 0 then cold_start_latency bs
                      else unat (latency_ewma_ns b)) * (unat (active_connections b) + 1)"
proof -
  let ?lat = "if latency_ewma_ns b = 0 then cold_start_latency bs else unat (latency_ewma_ns b)"
  have "?lat \<le> 2 ^ 64 - 1"
    using max_observed_latency_le [of bs] unat_u64 [of "latency_ewma_ns b"]
    by (auto simp: cold_start_latency_def)
  moreover have "unat (active_connections b) + 1 \<le> 2 ^ 64"
    using unat_u64 [of "active_connections b"] by simp
  ultimately have "?lat * (unat (active_connections b) + 1) \<le> (2 ^ 64 - 1) * 2 ^ 64"
    by (rule mult_le_mono)
  also have "\<dots> \<le> max_of 128" by (simp add: max_of_def)
  finally show ?thesis by (simp add: ewma_score_def saturating_mul_exact)
qed

section \<open>The random balancers over a fair source\<close>

lemma throw_dart_range: "throw_dart bs i d = Some j \<Longrightarrow> i \<le> j \<and> j < i + length bs"
  by (induction bs i d rule: throw_dart.induct) (force split: if_splits)+

lemma throw_dart_hit: "d < total_weight bs \<Longrightarrow> \<exists>j. throw_dart bs i d = Some j"
  by (induction bs i d rule: throw_dart.induct) (auto simp: total_weight_def)

lemma throw_dart_shift: "throw_dart bs (Suc i) d = map_option Suc (throw_dart bs i d)"
  by (induction bs i d rule: throw_dart.induct) auto

lemma weighted_random_index_range: "bs \<noteq> [] \<Longrightarrow> weighted_random_index bs d < length bs"
  using throw_dart_range [of bs 0 d] by (auto simp: weighted_random_index_def split: option.split)

lemma darts_interval:
  assumes "j < length bs"
  shows "throw_dart bs 0 d = Some j \<longleftrightarrow>
    total_weight (take j bs) \<le> d \<and> d < total_weight (take j bs) + weight_of (bs ! j)"
  using assms
proof (induction bs arbitrary: j d)
  case Nil
  then show ?case by simp
next
  case (Cons b bs)
  show ?case
  proof (cases j)
    case 0
    then show ?thesis by (auto simp: total_weight_def throw_dart_shift)
  next
    case (Suc k)
    then show ?thesis
      using Cons.IH [of k "d - weight_of b"] Cons.prems
      by (auto simp: total_weight_def throw_dart_shift)
  qed
qed

lemma total_weight_take:
  assumes "j < length bs"
  shows "total_weight (take j bs) + weight_of (bs ! j) \<le> total_weight bs"
proof -
  have "total_weight bs = total_weight (take j bs) + weight_of (bs ! j) + total_weight (drop (Suc j) bs)"
    by (subst id_take_nth_drop [OF assms], simp only: total_weight_def map_append sum_list_append) simp
  then show ?thesis by simp
qed

lemma weighted_random_darts:
  assumes "j < length bs"
  shows "{d. d < total_weight bs \<and> weighted_random_index bs d = j}
    = {total_weight (take j bs) ..< total_weight (take j bs) + weight_of (bs ! j)}"
proof -
  have "weighted_random_index bs d = j \<longleftrightarrow> throw_dart bs 0 d = Some j" if "d < total_weight bs" for d
    using throw_dart_hit [OF that, of 0] by (auto simp: weighted_random_index_def)
  then have "d < total_weight bs \<and> weighted_random_index bs d = j \<longleftrightarrow>
      total_weight (take j bs) \<le> d \<and> d < total_weight (take j bs) + weight_of (bs ! j)" for d
    using darts_interval [OF assms, of d] total_weight_take [OF assms]
    by (cases "d < total_weight bs") auto
  then show ?thesis by (simp add: set_eq_iff)
qed

text \<open>The documented law of \<open>rand\<close>'s range draw, and what the balancers do under it.\<close>

locale rng =
  fixes random_range :: "'r random_source"
  assumes in_range: "0 < n \<Longrightarrow> fst (random_range r n) < n"
begin

lemma random_in_range: "fst (random_pick random_range r bs) = Ok i \<Longrightarrow> i < length bs"
  using in_range [of "length bs" r] by (auto simp: random_pick_def split_beta Let_def split: if_splits)

lemma weighted_in_range: "fst (weighted_random_pick random_range r bs) = Ok i \<Longrightarrow> i < length bs"
  by (auto simp: weighted_random_pick_def split_beta Let_def weighted_random_index_range
      split: if_splits)

lemma p2c_sample:
  assumes "2 \<le> length bs"
  obtains a b r' where "a < length bs" "b < length bs" "a \<noteq> b"
    "p2c_pick random_range r bs =
       (Ok (if active_connections (bs ! a) \<le> active_connections (bs ! b) then a else b), r')"
proof -
  obtain a r1 where 1: "random_range r (length bs) = (a, r1)" by fastforce
  obtain d r2 where 2: "random_range r1 (length bs - 1) = (d, r2)" by fastforce
  define b where "b = (if d \<ge> a then d + 1 else d)"
  have "0 < length bs" "0 < length bs - 1" using assms by linarith+
  from this [THEN in_range] have "a < length bs" "d < length bs - 1"
    by (metis 1 fst_conv, metis 2 fst_conv)
  then have "a < length bs" "b < length bs" "a \<noteq> b" by (auto simp: b_def)
  moreover have "bs \<noteq> []" "length bs \<noteq> 1" using assms by auto
  ultimately have "p2c_pick random_range r bs =
      (Ok (if active_connections (bs ! a) \<le> active_connections (bs ! b) then a else b), r2)"
    by (simp add: p2c_pick_def Let_def 1 2 get_in del: One_nat_def flip: b_def)
  with \<open>a < length bs\<close> \<open>b < length bs\<close> \<open>a \<noteq> b\<close> show thesis by (rule that)
qed

lemma p2c_in_range: "fst (p2c_pick random_range r bs) = Ok i \<Longrightarrow> i < length bs"
proof (cases "2 \<le> length bs")
  case True
  then show "fst (p2c_pick random_range r bs) = Ok i \<Longrightarrow> i < length bs"
    by (rule p2c_sample [of bs r]) (auto split: if_splits)
next
  case False
  then have "length bs = 0 \<or> length bs = 1" by linarith
  then show "fst (p2c_pick random_range r bs) = Ok i \<Longrightarrow> i < length bs"
    by (auto simp: p2c_pick_def split: if_splits)
qed

end

sublocale rng \<subseteq> uniform: load_balancer "random_pick random_range"
  by unfold_locales (simp add: random_pick_def, erule random_in_range)

sublocale rng \<subseteq> weighted: load_balancer "weighted_random_pick random_range"
  by unfold_locales (simp add: weighted_random_pick_def, erule weighted_in_range)

sublocale rng \<subseteq> p2c: load_balancer "p2c_pick random_range"
  by unfold_locales (simp add: p2c_pick_def, erule p2c_in_range)

text \<open>A concrete source: a counter reduced to the range asked for.\<close>

definition counter_source :: "nat random_source" where
  "counter_source r n = (r mod n, r + 1)"

interpretation crng: rng counter_source
  by unfold_locales (simp add: counter_source_def)

section \<open>Properties\<close>

text \<open>C6. Round robin is exactly fair: over any \<open>m\<close> rounds of \<open>length bs\<close> picks on an unchanged,
  non-empty list, every backend is picked exactly \<open>m\<close> times, wherever the shared counter starts, as
  long as the 64-bit counter does not wrap within the rounds.\<close>

theorem round_robin_fair:
  assumes "j < length bs" and "unat (counter s) + m * length bs < 2 ^ 64"
  shows "count_list (fst (run_picks round_robin_pick s bs (m * length bs))) (Ok j) = m"
proof -
  have "bs \<noteq> []" using assms(1) by auto
  then have "fst (run_picks round_robin_pick s bs (m * length bs))
      = map Ok (map (\<lambda>i. (unat (counter s) + i) mod length bs) [0..<m * length bs])"
    using round_robin_run [of bs s "m * length bs"] assms(2) by (simp add: o_def)
  then show ?thesis
    using count_windows [OF assms(1)] by (simp only: count_list_map_inj inj_Inr)
qed

theorem round_robin_fair_witness:
  "count_list (fst (run_picks round_robin_pick round_robin_new
     [backend_new ''a'' 1, backend_new ''b'' 1, backend_new ''c'' 1] (4 * 3))) (Ok 2) = 4"
  using round_robin_fair [of 2 "[backend_new ''a'' 1, backend_new ''b'' 1, backend_new ''c'' 1]"
      round_robin_new 4] by (simp add: round_robin_new_def)

text \<open>Least connections, least request and EWMA each return, on every non-empty list, the first
  backend that minimises their score: the open connections, the open requests, and the exact product
  of latency (the largest one observed for a backend without measurement) and connections plus one.
  The 128-bit product never saturates, so the EWMA order is the order of the exact products.\<close>

lemma scans_pick_first_minimum:
  assumes "bs \<noteq> []"
  shows "(\<exists>i. least_connections_pick () bs = (Ok i, ()) \<and>
      first_min (\<lambda>b. unat (active_connections b)) bs i)
    \<and> (\<exists>i. least_request_pick () bs = (Ok i, ()) \<and>
      first_min (\<lambda>b. unat (active_requests b)) bs i)
    \<and> (\<exists>i. ewma_pick () bs = (Ok i, ()) \<and>
      first_min (\<lambda>b. (if latency_ewma_ns b = 0 then cold_start_latency bs
                        else unat (latency_ewma_ns b)) * (unat (active_connections b) + 1)) bs i)"
  using assms lc.scan_first_min [OF assms] lreq.scan_first_min [OF assms] ew.scan_first_min [OF assms]
  by (simp add: least_connections_pick_def least_request_pick_def ewma_pick_def
      ewma_score_exact [abs_def])

lemma scans_pick_first_minimum_witness:
  "\<exists>i. least_connections_pick () [backend_new ''a'' 1, backend_new ''b'' 1] = (Ok i, ()) \<and>
     first_min (\<lambda>b. unat (active_connections b)) [backend_new ''a'' 1, backend_new ''b'' 1] i"
  using scans_pick_first_minimum [of "[backend_new ''a'' 1, backend_new ''b'' 1]"] by blast

text \<open>Weighted random selection is exactly proportional: among the \<open>total_weight bs\<close> equally likely
  darts, the number that make it return backend \<open>j\<close> is the weight of \<open>j\<close>; in particular a backend of
  weight 0 is never picked.\<close>

lemma weighted_random_proportional:
  assumes "j < length bs" and "0 < total_weight bs"
  shows "card {d. d < total_weight bs \<and>
      fst (weighted_random_pick (\<lambda>r n. (d, r)) () bs) = Ok j} = weight_of (bs ! j)"
proof -
  have "bs \<noteq> []" using assms(1) by auto
  then have "fst (weighted_random_pick (\<lambda>r n. (d, r)) () bs) = Ok (weighted_random_index bs d)" for d
    using assms(2) by (simp add: weighted_random_pick_def)
  then show ?thesis
    using weighted_random_darts [OF assms(1)] by simp
qed

lemma weighted_random_proportional_witness:
  "card {d. d < total_weight [backend_new ''a'' 3, backend_new ''b'' 2] \<and>
     fst (weighted_random_pick (\<lambda>r n. (d, r)) () [backend_new ''a'' 3, backend_new ''b'' 2]) = Ok 1} = 2"
  using weighted_random_proportional [of 1 "[backend_new ''a'' 3, backend_new ''b'' 2]"]
  by (simp add: total_weight_def weight_of_def backend_new_def)

text \<open>Power of two choices: with two or more backends and a source that draws below its bound,
  the picked backend is no more loaded than some other backend it was compared with; so a backend
  that is strictly the most loaded one is never picked.\<close>

lemma p2c_avoids_most_loaded:
  assumes "\<And>r n. 0 < n \<Longrightarrow> fst (random_range r n) < n" and "2 \<le> length bs"
  shows "\<exists>i j. fst (p2c_pick random_range r bs) = Ok i \<and> i < length bs \<and> j < length bs \<and> j \<noteq> i \<and>
    active_connections (bs ! i) \<le> active_connections (bs ! j)"
proof -
  have "rng random_range" by unfold_locales (rule assms(1))
  then obtain a b r' where ab: "a < length bs" "b < length bs" "a \<noteq> b"
    "p2c_pick random_range r bs =
       (Ok (if active_connections (bs ! a) \<le> active_connections (bs ! b) then a else b), r')"
    using assms(2) by (rule rng.p2c_sample)
  show ?thesis
  proof (cases "active_connections (bs ! a) \<le> active_connections (bs ! b)")
    case True
    with ab show ?thesis by (intro exI [of _ a] exI [of _ b]) simp
  next
    case False
    with ab show ?thesis by (intro exI [of _ b] exI [of _ a]) simp
  qed
qed

lemma p2c_avoids_most_loaded_witness:
  "\<exists>i j. fst (p2c_pick counter_source 5 [backend_new ''a'' 1, backend_new ''b'' 1]) = Ok i \<and>
     i < 2 \<and> j < 2 \<and> j \<noteq> i \<and>
     active_connections ([backend_new ''a'' 1, backend_new ''b'' 1] ! i)
       \<le> active_connections ([backend_new ''a'' 1, backend_new ''b'' 1] ! j)"
  using p2c_avoids_most_loaded [of counter_source "[backend_new ''a'' 1, backend_new ''b'' 1]" 5,
      OF crng.in_range] by (simp add: numeral_2_eq_2)

text \<open>The fingerprint that decides whether a Maglev table or hash ring is rebuilt is not injective
  on lists of identifiers: two different identifiers collide.\<close>

lemma identity_hash_collision:
  "backend_identity_hash [backend_new [] 1] = backend_identity_hash [backend_new [CHR 0x00] 1]"
  by (simp add: backend_identity_hash_def position_hash_def backend_new_def)

end
