(* ===== verification/Weighted_RR.thy ===== *)
theory Weighted_RR
  imports Balancer
begin

text \<open>
  Smooth weighted round robin (\<open>lb-balancer/src/weighted_round_robin.rs\<close>). The current weights
  are \<open>i64\<close>: every addition wraps at 64 bits in the model, and the invariant of a run shows that
  it never does for fewer than \<open>2 ^ 15\<close> backends. The invariant also gives the exact share of each
  backend after every full cycle of picks, and the bound on its lead between cycles.
\<close>

section \<open>The model\<close>

definition wrap_i64 :: "int \<Rightarrow> int" where
  "wrap_i64 x = (x + 2 ^ 63) mod 2 ^ 64 - 2 ^ 63"

record weighted_round_robin =
  current_weights :: "int list"
  backend_ids :: "string list"

definition weighted_round_robin_new :: weighted_round_robin where
  "weighted_round_robin_new = \<lparr>current_weights = [], backend_ids = []\<rparr>"

definition sync_weights :: "weighted_round_robin \<Rightarrow> backend list \<Rightarrow> weighted_round_robin" where
  "sync_weights s bs =
     (let ids_match = (length (backend_ids s) = length bs \<and>
                       list_all (\<lambda>(stored, b). stored = backend_id b) (zip (backend_ids s) bs))
      in if \<not> ids_match
         then \<lparr>current_weights = replicate (length bs) 0, backend_ids = map backend_id bs\<rparr>
         else s)"

definition wrr_total_weight :: "backend list \<Rightarrow> int" where
  "wrr_total_weight bs = fold (\<lambda>b acc. wrap_i64 (acc + int (weight_of b))) bs 0"

fun wrr_loop :: "backend list \<Rightarrow> nat \<Rightarrow> int list \<Rightarrow> nat \<Rightarrow> int \<Rightarrow> int list \<times> nat" where
  "wrr_loop [] i cws best_idx best_weight = (cws, best_idx)"
| "wrr_loop (b # bs) i cws best_idx best_weight =
     (case get cws i of
        None \<Rightarrow> wrr_loop bs (i + 1) cws best_idx best_weight
      | Some cw \<Rightarrow>
          let cw' = wrap_i64 (cw + int (weight_of b));
              cws' = cws[i := cw']
          in if cw' > best_weight then wrr_loop bs (i + 1) cws' i cw'
             else wrr_loop bs (i + 1) cws' best_idx best_weight)"

definition weighted_round_robin_pick :: "weighted_round_robin picker" where
  "weighted_round_robin_pick s bs =
     (if bs = [] then (Err NoBackends, s)
      else
        let s = sync_weights s bs;
            total = wrr_total_weight bs
        in if total = 0 then (Err AllZeroWeight, s)
           else
             let (cws, best_idx) = wrr_loop bs 0 (current_weights s) 0 (- (2 ^ 63));
                 cws' = (case get cws best_idx of
                           None \<Rightarrow> cws
                         | Some cw \<Rightarrow> cws[best_idx := wrap_i64 (cw - total)])
             in (Ok best_idx, s\<lparr>current_weights := cws'\<rparr>))"

section \<open>One pick without wrap-around\<close>

definition in_i64 :: "int \<Rightarrow> bool" where
  "in_i64 x \<longleftrightarrow> - (2 ^ 63) \<le> x \<and> x < 2 ^ 63"

lemma wrap_i64_id [simp]: "in_i64 x \<Longrightarrow> wrap_i64 x = x"
  by (simp add: in_i64_def wrap_i64_def)

definition raised :: "int list \<Rightarrow> backend list \<Rightarrow> int list" where
  "raised cws bs = map2 (\<lambda>cw b. cw + int (weight_of b)) cws bs"

lemma length_raised [simp]: "length (raised cws bs) = min (length cws) (length bs)"
  by (simp add: raised_def)

lemma raised_Cons [simp]: "raised (c # cs) (b # bs) = (c + int (weight_of b)) # raised cs bs"
  by (simp add: raised_def)

lemma nth_raised [simp]:
  "i < length cws \<Longrightarrow> i < length bs \<Longrightarrow> raised cws bs ! i = cws ! i + int (weight_of (bs ! i))"
  by (simp add: raised_def)

lemma sum_raised:
  "length cws = length bs \<Longrightarrow> sum_list (raised cws bs) = sum_list cws + int (total_weight bs)"
  by (induction cws bs rule: list_induct2) (auto simp: total_weight_def raised_def)

definition best_after :: "int list \<Rightarrow> nat \<Rightarrow> nat \<Rightarrow> int \<Rightarrow> nat \<Rightarrow> bool" where
  "best_after news off bi bw r \<longleftrightarrow>
     r = bi \<and> (\<forall>x \<in> set news. x \<le> bw)
     \<or> (\<exists>k < length news. r = off + k \<and> bw < news ! k \<and> (\<forall>x \<in> set news. x \<le> news ! k))"

lemma best_after_take: "best_after news (Suc off) off n r \<Longrightarrow> bw < n \<Longrightarrow> best_after (n # news) off bi bw r"
  unfolding best_after_def by (elim disjE exE conjE) (fastforce intro: exI [of _ 0] exI [of _ "Suc _"])+

lemma best_after_keep: "best_after news (Suc off) bi bw r \<Longrightarrow> n \<le> bw \<Longrightarrow> best_after (n # news) off bi bw r"
  unfolding best_after_def by (elim disjE exE conjE) (fastforce intro: exI [of _ "Suc _"])+

lemma wrr_loop_spec:
  assumes "length cws = length bs" and "\<forall>x \<in> set (raised cws bs). in_i64 x"
  shows "\<exists>r. wrr_loop bs (length pre) (pre @ cws) bi bw = (pre @ raised cws bs, r)
    \<and> best_after (raised cws bs) (length pre) bi bw r"
  using assms
proof (induction cws bs arbitrary: pre bi bw rule: list_induct2)
  case Nil
  then show ?case by (simp add: raised_def best_after_def)
next
  case (Cons c cs b bs)
  let ?n = "c + int (weight_of b)"
  have n: "wrap_i64 (c + int (weight_of b)) = ?n" and rest: "\<forall>x \<in> set (raised cs bs). in_i64 x"
    using Cons.prems by simp_all
  have g: "get (pre @ c # cs) (length pre) = Some c" by (simp add: get_def)
  have len: "length (pre @ [?n]) = Suc (length pre)" by simp
  show ?case
  proof (cases "bw < ?n")
    case True
    then show ?thesis
      using Cons.IH [OF rest, of "pre @ [?n]" "length pre" ?n]
      by (auto simp: n g Let_def intro: best_after_take)
  next
    case False
    then show ?thesis
      using Cons.IH [OF rest, of "pre @ [?n]" bi bw]
      by (auto simp: n g Let_def not_less intro: best_after_keep)
  qed
qed

lemma best_after_start:
  assumes "best_after news 0 0 (- (2 ^ 63)) r" and "\<exists>x \<in> set news. 0 < x"
  shows "r < length news \<and> (\<forall>x \<in> set news. x \<le> news ! r)"
  using assms by (fastforce simp: best_after_def)

lemma total_weight_bound: "total_weight bs \<le> length bs * 2 ^ 32"
proof -
  have "weight_of b \<le> 2 ^ 32" for b
    using unat_u32 [of "weight b"] by (simp add: weight_of_def)
  then show ?thesis by (induction bs) (auto simp: total_weight_def add_mono)
qed

lemma wrr_total_weight_exact:
  assumes "length bs < 2 ^ 15"
  shows "wrr_total_weight bs = int (total_weight bs)"
proof -
  have "fold (\<lambda>b acc. wrap_i64 (acc + int (weight_of b))) xs acc = acc + int (total_weight xs)"
    if "0 \<le> acc" "acc + int (total_weight xs) < 2 ^ 63" for xs acc
    using that
  proof (induction xs arbitrary: acc)
    case (Cons x xs)
    then have "wrap_i64 (acc + int (weight_of x)) = acc + int (weight_of x)"
      by (simp add: in_i64_def total_weight_def)
    with Cons show ?case by (simp add: total_weight_def)
  qed (simp add: total_weight_def)
  moreover have "total_weight bs < 2 ^ 63"
    using total_weight_bound [of bs] assms by (simp add: less_le_trans)
  ultimately show ?thesis by (simp add: wrr_total_weight_def)
qed

text \<open>Entries above \<open>- M\<close> that sum to zero are below the number of entries times \<open>M\<close>.\<close>

lemma sum_list_upper:
  fixes M :: int
  assumes "\<forall>y \<in> set xs. - M \<le> y" and "x \<in> set xs" and "0 \<le> M"
  shows "x \<le> sum_list xs + int (length xs) * M"
proof -
  have low: "- (int (length ys) * M) \<le> sum_list ys" if "\<forall>y \<in> set ys. - M \<le> y" for ys
    using that by (induction ys) (auto simp: algebra_simps)
  obtain as bs where "xs = as @ x # bs" using assms(2) by (meson split_list)
  then show ?thesis
    using low [of as] low [of bs] assms(1,3) by (simp add: algebra_simps)
qed

text \<open>The weights of a synchronised state between two picks.\<close>

definition wrr_ok :: "backend list \<Rightarrow> int list \<Rightarrow> bool" where
  "wrr_ok bs cws \<longleftrightarrow> length cws = length bs \<and> sum_list cws = 0
     \<and> (\<forall>x \<in> set cws. - int (total_weight bs) < x)"

lemma wrr_ok_raised_i64:
  assumes "wrr_ok bs cws" and "length bs < 2 ^ 15" and "x \<in> set (raised cws bs)"
  shows "in_i64 x"
proof -
  let ?W = "int (total_weight bs)"
  obtain i where i: "i < length bs" "x = cws ! i + int (weight_of (bs ! i))"
    using assms(1,3) by (auto simp: in_set_conv_nth wrr_ok_def)
  have mem: "cws ! i \<in> set cws" using i assms(1) by (simp add: wrr_ok_def)
  have "cws ! i \<le> sum_list cws + int (length cws) * ?W"
    using assms(1) by (intro sum_list_upper [OF _ mem]) (auto simp: wrr_ok_def)
  moreover have "int (weight_of (bs ! i)) \<le> ?W"
    using total_weight_take [OF i(1)] by simp
  moreover have W: "?W \<le> 2 ^ 15 * 2 ^ 32"
    using total_weight_bound [of bs] assms(2) by simp
  moreover have "int (length bs) * ?W \<le> 2 ^ 15 * (2 ^ 15 * 2 ^ 32)"
    using assms(2) by (intro mult_mono W) auto
  ultimately show ?thesis
    using assms(1) mem i(2) by (auto simp: in_i64_def wrr_ok_def dest!: bspec [OF _ mem])
qed

lemma sum_list_update_int:
  "i < length xs \<Longrightarrow> sum_list (xs[i := v]) = sum_list xs + v - (xs ! i :: int)"
  by (induction xs arbitrary: i) (auto split: nat.split)

lemma wrr_pick_step:
  assumes ok: "wrr_ok bs (current_weights (sync_weights s bs))"
    and "length bs < 2 ^ 15" and pos: "0 < total_weight bs"
  shows "\<exists>r. r < length bs \<and> weighted_round_robin_pick s bs =
      (Ok r, (sync_weights s bs)\<lparr>current_weights :=
         (raised (current_weights (sync_weights s bs)) bs)
           [r := raised (current_weights (sync_weights s bs)) bs ! r - int (total_weight bs)]\<rparr>)
    \<and> wrr_ok bs ((raised (current_weights (sync_weights s bs)) bs)
           [r := raised (current_weights (sync_weights s bs)) bs ! r - int (total_weight bs)])"
proof -
  let ?s = "sync_weights s bs" and ?W = "int (total_weight bs)"
  define news where "news = raised (current_weights ?s) bs"
  have len: "length (current_weights ?s) = length bs" "length news = length bs"
    using ok by (auto simp: wrr_ok_def news_def)
  have i64: "\<forall>x \<in> set news. in_i64 x"
    using wrr_ok_raised_i64 [OF ok assms(2)] by (simp add: news_def)
  have sum: "sum_list news = ?W"
    using ok len by (simp add: news_def sum_raised wrr_ok_def)
  then have ex: "\<exists>x \<in> set news. 0 < x"
    using pos sum_list_nonpos [of news] by force
  obtain r where loop: "wrr_loop bs 0 (current_weights ?s) 0 (- (2 ^ 63)) = (news, r)"
    and best: "best_after news 0 0 (- (2 ^ 63)) r"
    using wrr_loop_spec [of "current_weights ?s" bs "[]" 0 "- (2 ^ 63)"] len i64
    by (auto simp: news_def)
  from best_after_start [OF best ex] have r: "r < length bs" "\<forall>x \<in> set news. x \<le> news ! r"
    by (auto simp: len)
  then have top: "0 < news ! r" "in_i64 (news ! r)" using ex i64 len by fastforce+
  have low: "- ?W < news ! i" if "i < length bs" for i
  proof -
    have "- ?W < current_weights ?s ! i" using ok that len by (simp add: wrr_ok_def)
    then show ?thesis using that len by (simp add: news_def)
  qed
  have "?W < 2 ^ 62" using total_weight_bound [of bs] assms(2) by simp
  then have "wrap_i64 (news ! r - ?W) = news ! r - ?W"
    using top by (intro wrap_i64_id) (auto simp: in_i64_def)
  moreover have "wrr_ok bs (news[r := news ! r - ?W])"
    using r(1) top(1) sum low
    by (auto simp: wrr_ok_def len sum_list_update_int in_set_conv_nth nth_list_update)
  ultimately show ?thesis
    using r(1) pos assms(2) len
    by (intro exI [of _ r]) (auto simp: weighted_round_robin_pick_def wrr_total_weight_exact loop [simplified]
        get_def Let_def news_def [symmetric])
qed

section \<open>Runs of picks\<close>

lemma ids_match_iff:
  "length ids = length bs \<Longrightarrow>
     list_all (\<lambda>(stored, b). stored = backend_id b) (zip ids bs) \<longleftrightarrow> ids = map backend_id bs"
  by (induction ids bs rule: list_induct2) auto

lemma sync_weights_iff:
  "sync_weights s bs = (if backend_ids s = map backend_id bs then s else
     \<lparr>current_weights = replicate (length bs) 0, backend_ids = map backend_id bs\<rparr>)"
  using ids_match_iff [of "backend_ids s" bs] by (auto simp: sync_weights_def)

lemma sync_synced: "backend_ids s = map backend_id bs \<Longrightarrow> sync_weights s bs = s"
  by (simp add: sync_weights_iff)

lemma sync_ids: "backend_ids (sync_weights s bs) = map backend_id bs"
  by (simp add: sync_weights_iff)

text \<open>A balancer whose weights are all zero once synchronised: a new one, or one that served other
  backends before.\<close>

definition wrr_fresh :: "weighted_round_robin \<Rightarrow> backend list \<Rightarrow> bool" where
  "wrr_fresh s bs \<longleftrightarrow> current_weights (sync_weights s bs) = replicate (length bs) 0"

lemma wrr_run:
  assumes fresh: "wrr_fresh s bs" and "length bs < 2 ^ 15" and pos: "0 < total_weight bs"
  shows "let (rs, s') = run_picks weighted_round_robin_pick s bs k;
             cws = current_weights (sync_weights s' bs)
         in wrr_ok bs cws \<and> set rs \<subseteq> Ok ` {..<length bs}
            \<and> (\<forall>i < length bs. cws ! i = int k * int (weight_of (bs ! i))
                 - int (total_weight bs) * int (count_list rs (Ok i)))"
proof (induction k)
  case 0
  then show ?case using fresh pos by (simp add: wrr_fresh_def wrr_ok_def sum_list_replicate)
next
  case (Suc k)
  obtain rs s' where run: "run_picks weighted_round_robin_pick s bs k = (rs, s')" by fastforce
  define cws where "cws = current_weights (sync_weights s' bs)"
  from Suc run have ok: "wrr_ok bs cws" and rs: "set rs \<subseteq> Ok ` {..<length bs}"
    and cnt: "\<And>i. i < length bs \<Longrightarrow> cws ! i = int k * int (weight_of (bs ! i))
                 - int (total_weight bs) * int (count_list rs (Ok i))"
    by (auto simp: cws_def Let_def)
  have len: "length cws = length bs" using ok by (simp add: wrr_ok_def)
  let ?cws = "\<lambda>r. (raised cws bs)[r := raised cws bs ! r - int (total_weight bs)]"
  obtain r where r: "r < length bs" and ok': "wrr_ok bs (?cws r)"
    and pick: "weighted_round_robin_pick s' bs = (Ok r, (sync_weights s' bs)\<lparr>current_weights := ?cws r\<rparr>)"
    using wrr_pick_step [OF _ assms(2,3)] ok unfolding cws_def by metis
  have sync: "sync_weights ((sync_weights s' bs)\<lparr>current_weights := ?cws r\<rparr>) bs
      = (sync_weights s' bs)\<lparr>current_weights := ?cws r\<rparr>"
    by (rule sync_synced) (simp add: sync_ids)
  have "?cws r ! i = int (Suc k) * int (weight_of (bs ! i))
      - int (total_weight bs) * int (count_list (rs @ [Ok r]) (Ok i))" if "i < length bs" for i
    using that r len cnt [OF that] by (simp add: nth_list_update count_list_append algebra_simps)
  then show ?case
    using rs r ok' by (simp add: run pick sync Let_def)
qed

lemma wrr_loop_range: "snd (wrr_loop xs j cws bi bw) \<in> insert bi {j..<j + length xs}"
proof (induction xs arbitrary: j cws bi bw)
  case (Cons b xs)
  show ?case
  proof (cases "get cws j")
    case None
    then show ?thesis using Cons.IH [of "j + 1" cws bi bw] by auto
  next
    case (Some cw)
    let ?cw = "wrap_i64 (cw + int (weight_of b))"
    show ?thesis
      using Some Cons.IH [of "j + 1" "cws[j := ?cw]" j ?cw] Cons.IH [of "j + 1" "cws[j := ?cw]" bi bw]
      by (auto simp: Let_def)
  qed
qed simp

interpretation wrr: load_balancer weighted_round_robin_pick
proof
  fix s :: weighted_round_robin and bs i
  show "fst (weighted_round_robin_pick s []) = Err NoBackends"
    by (simp add: weighted_round_robin_pick_def)
  show "i < length bs" if "fst (weighted_round_robin_pick s bs) = Ok i"
    using that wrr_loop_range [of bs 0 "current_weights (sync_weights s bs)" 0 "- (2 ^ 63)"]
    by (auto simp: weighted_round_robin_pick_def Let_def split_beta split: if_splits)
qed

section \<open>Properties\<close>

text \<open>C1. Smooth weighted round robin is exactly weighted: from a fresh state, for fewer than
  \<open>2 ^ 15\<close> backends not all of weight zero, after any number \<open>m\<close> of full cycles (a cycle is as many
  picks as the weights sum to) backend \<open>i\<close> has been picked exactly \<open>m\<close> times its weight and all
  current weights are back to zero.\<close>

theorem wrr_exact_shares:
  assumes "wrr_fresh s bs" and "length bs < 2 ^ 15" and "0 < total_weight bs" and "i < length bs"
  shows "count_list (fst (run_picks weighted_round_robin_pick s bs (m * total_weight bs))) (Ok i)
      = m * weight_of (bs ! i)
    \<and> wrr_fresh (snd (run_picks weighted_round_robin_pick s bs (m * total_weight bs))) bs"
proof -
  let ?W = "total_weight bs"
  obtain rs s' where run: "run_picks weighted_round_robin_pick s bs (m * ?W) = (rs, s')" by fastforce
  define cws where "cws = current_weights (sync_weights s' bs)"
  have ok: "wrr_ok bs cws" and cw: "\<And>i. i < length bs \<Longrightarrow> cws ! i = int ?W *
      (int m * int (weight_of (bs ! i)) - int (count_list rs (Ok i)))"
    using wrr_run [OF assms(1-3), of "m * ?W"] by (auto simp: run cws_def Let_def algebra_simps)
  have "0 \<le> x" if x: "x \<in> set cws" for x
  proof -
    obtain j where j: "j < length bs" "x = cws ! j"
      using x ok unfolding in_set_conv_nth wrr_ok_def by metis
    have "- int ?W < x" using ok x by (simp add: wrr_ok_def)
    then have "int ?W * - 1 < int ?W * (int m * int (weight_of (bs ! j)) - int (count_list rs (Ok j)))"
      using cw [OF j(1)] j(2) by simp
    then have "- 1 < int m * int (weight_of (bs ! j)) - int (count_list rs (Ok j))"
      using mult_less_cancel_left_pos [of "int ?W"] assms(3) by (metis of_nat_0_less_iff)
    then show ?thesis using cw [OF j(1)] j(2) by simp
  qed
  then have zero: "\<forall>x \<in> set cws. x = 0"
    using ok sum_list_nonneg_eq_0_iff [of cws] by (simp add: wrr_ok_def)
  then have "int ?W * (int m * int (weight_of (bs ! i)) - int (count_list rs (Ok i))) = 0"
    using cw [OF assms(4)] ok assms(4) unfolding wrr_ok_def by (metis nth_mem)
  then have "int (count_list rs (Ok i)) = int (m * weight_of (bs ! i))"
    using assms(3) by simp
  then have "count_list rs (Ok i) = m * weight_of (bs ! i)" by (simp only: of_nat_eq_iff)
  moreover have "cws = replicate (length bs) 0"
    using zero ok by (intro replicate_eqI) (auto simp: wrr_ok_def)
  ultimately show ?thesis by (simp add: run wrr_fresh_def cws_def)
qed

theorem wrr_exact_shares_witness:
  "count_list (fst (run_picks weighted_round_robin_pick weighted_round_robin_new
     [backend_new ''a'' 5, backend_new ''b'' 3, backend_new ''c'' 2] (10 * 10))) (Ok 0) = 50"
  using wrr_exact_shares [of weighted_round_robin_new
      "[backend_new ''a'' 5, backend_new ''b'' 3, backend_new ''c'' 2]" 0 10]
  by (simp add: wrr_fresh_def sync_weights_def weighted_round_robin_new_def total_weight_def
      weight_of_def backend_new_def)

text \<open>C2. Between cycles no backend is ahead of its share by a full pick: for fewer than \<open>2 ^ 15\<close> backends not
  all of weight zero, after any \<open>k\<close> picks from a fresh state the picks of backend \<open>i\<close> are below
  \<open>k * weight / total + 1\<close>, and each of the \<open>k\<close> picks returned a backend.\<close>

theorem wrr_smooth:
  assumes "wrr_fresh s bs" and "length bs < 2 ^ 15" and "0 < total_weight bs" and "i < length bs"
  shows "total_weight bs * count_list (fst (run_picks weighted_round_robin_pick s bs k)) (Ok i)
      < k * weight_of (bs ! i) + total_weight bs
    \<and> set (fst (run_picks weighted_round_robin_pick s bs k)) \<subseteq> Ok ` {..<length bs}"
proof -
  obtain rs s' where run: "run_picks weighted_round_robin_pick s bs k = (rs, s')" by fastforce
  define cws where "cws = current_weights (sync_weights s' bs)"
  have ok: "wrr_ok bs cws" and rs: "set rs \<subseteq> Ok ` {..<length bs}"
    and cw: "cws ! i = int (k * weight_of (bs ! i)) - int (total_weight bs * count_list rs (Ok i))"
    using wrr_run [OF assms(1-3), of k] assms(4) by (auto simp: run cws_def Let_def)
  have "- int (total_weight bs) < cws ! i" using ok assms(4) by (simp add: wrr_ok_def)
  then have "int (total_weight bs * count_list rs (Ok i)) < int (k * weight_of (bs ! i) + total_weight bs)"
    unfolding cw by simp
  then show ?thesis using rs by (simp only: run fst_conv of_nat_less_iff simp_thms)
qed

theorem wrr_smooth_witness:
  "2 * count_list (fst (run_picks weighted_round_robin_pick weighted_round_robin_new
     [backend_new ''a'' 1, backend_new ''b'' 1] 3)) (Ok 1) < 3 * 1 + 2"
  using wrr_smooth [of weighted_round_robin_new "[backend_new ''a'' 1, backend_new ''b'' 1]" 1 3]
  by (simp add: wrr_fresh_def sync_weights_def weighted_round_robin_new_def total_weight_def
      weight_of_def backend_new_def)

end
