(* ===== verification/Maglev.thy ===== *)
theory Maglev
  imports Balancer
begin

text \<open>
  Maglev consistent hashing (\<open>lb-balancer/src/maglev.rs\<close>) and the trial-division primality test
  that guards the table of the L4 data plane (\<open>lb-l4-xdp/src/lib.rs\<close>). The two loops of
  \<open>populate\<close> have no syntactic bound, so they are partial functions: not returning is
  \<^const>\<open>None\<close>. The locale \<open>maglev_perms\<close> is the contract of the permutations; in it, the
  loops return and the table is full and balanced to within one slot.
\<close>

section \<open>Primality by trial division\<close>

definition wrap_usize :: "nat \<Rightarrow> nat" where
  "wrap_usize x = x mod 2 ^ 64"

partial_function (option) is_prime_loop :: "nat \<Rightarrow> nat \<Rightarrow> bool option" where
  "is_prime_loop n i =
     (if wrap_usize (i * i) \<le> n then
        if n mod i = 0 \<or> n mod wrap_usize (i + 2) = 0 then Some False
        else is_prime_loop n (wrap_usize (i + 6))
      else Some True)"

definition is_prime :: "nat \<Rightarrow> bool option" where
  "is_prime n =
     (if n < 2 then Some False
      else if n < 4 then Some True
      else if n mod 2 = 0 \<or> n mod 3 = 0 then Some False
      else is_prime_loop n 5)"

definition prime_number :: "nat \<Rightarrow> bool" where
  "prime_number n \<longleftrightarrow> 1 < n \<and> (\<forall>d. d dvd n \<longrightarrow> d = 1 \<or> d = n)"

lemma not_prime_divisor: "d dvd n \<Longrightarrow> 1 < d \<Longrightarrow> d < n \<Longrightarrow> \<not> prime_number n"
  by (auto simp: prime_number_def)

lemma prime_if_no_small_divisor:
  assumes "1 < n" and "n < i * i" and "\<And>d. 2 \<le> d \<Longrightarrow> d < i \<Longrightarrow> \<not> d dvd n"
  shows "prime_number n"
  unfolding prime_number_def
proof (intro conjI allI impI assms(1), rule ccontr)
  fix d assume d: "d dvd n" "\<not> (d = 1 \<or> d = n)"
  then obtain e where e: "n = d * e" by (auto elim: dvdE)
  have "d \<noteq> 0" "d \<noteq> 1" "e \<noteq> 1" using assms(1) d(2) e by auto
  moreover have "e \<noteq> 0" using assms(1) e by (intro notI) simp
  ultimately have "2 \<le> d" "2 \<le> e" by linarith+
  moreover have "d < i \<or> e < i"
    using assms(2) e by (metis leI mult_le_mono not_less)
  ultimately show False using assms(3) [of d] assms(3) [of e] e by auto
qed

lemma wheel_step:
  fixes n i d :: nat
  assumes "i mod 6 = 5" "n mod 2 \<noteq> 0" "n mod 3 \<noteq> 0" "n mod i \<noteq> 0" "n mod (i + 2) \<noteq> 0"
    and "i \<le> d" "d < i + 6"
  shows "\<not> d dvd n"
proof
  assume dvd: "d dvd n"
  consider "d = i" | "d = i + 2" | "2 dvd d" | "3 dvd d"
  proof -
    have "d = i \<or> d = i + 1 \<or> d = i + 2 \<or> d = i + 3 \<or> d = i + 4 \<or> d = i + 5"
      using assms(6,7) by linarith
    moreover have "2 dvd i + 1" "2 dvd i + 3" "3 dvd i + 4" "2 dvd i + 5"
      using assms(1) by presburger+
    ultimately show thesis using that by blast
  qed
  then show False
    using dvd assms(2-5) by cases (auto simp: mod_eq_0_iff_dvd dest: dvd_trans)
qed

lemma is_prime_loop_correct:
  assumes "i mod 6 = 5" "5 \<le> i" "n mod 2 \<noteq> 0" "n mod 3 \<noteq> 0" "n < 2 ^ 62" "i < 2 ^ 32 - 6"
    and n1: "1 < n" and "\<And>d. 2 \<le> d \<Longrightarrow> d < i \<Longrightarrow> \<not> d dvd n"
  shows "is_prime_loop n i = Some (prime_number n)"
  using assms
proof (induction "n + 6 - i" arbitrary: i rule: less_induct)
  case less
  have sq: "i * i \<le> (2 ^ 32 - 6) * (2 ^ 32 - 6)"
    using less.prems(6) by (intro mult_le_mono) auto
  have w: "wrap_usize (i * i) = i * i" "wrap_usize (i + 2) = i + 2" "wrap_usize (i + 6) = i + 6"
    using sq less.prems(6) by (auto simp: wrap_usize_def)
  have small: "i + 2 < i * i" using mult_le_mono1 [OF less.prems(2), of i] less.prems(2) by linarith
  show ?case
  proof (cases "i * i \<le> n")
    case False
    then show ?thesis
      using prime_if_no_small_divisor [OF n1, of i] less.prems(8)
      by (subst is_prime_loop.simps) (simp add: w)
  next
    case le: True
    show ?thesis
    proof (cases "n mod i = 0 \<or> n mod (i + 2) = 0")
      case True
      then have "\<not> prime_number n"
        using le small less.prems(2) not_prime_divisor [of i n] not_prime_divisor [of "i + 2" n]
        by (auto simp: mod_eq_0_iff_dvd)
      with True le show ?thesis by (subst is_prime_loop.simps) (auto simp only: w if_True)
    next
      case False
      have bound: "i < 2 ^ 31"
      proof (rule ccontr)
        assume "\<not> i < 2 ^ 31"
        then have "2 ^ 31 * 2 ^ 31 \<le> i * i" by (intro mult_le_mono) auto
        with le less.prems(5) show False by simp
      qed
      have "is_prime_loop n (i + 6) = Some (prime_number n)"
      proof (rule less.hyps)
        show "n + 6 - (i + 6) < n + 6 - i" using le small by simp
        show "\<not> d dvd n" if "2 \<le> d" "d < i + 6" for d
          using less.prems(8) [of d] wheel_step [OF less.prems(1,3,4), of d] False that
          by (cases "d < i") auto
        show "(i + 6) mod 6 = 5" using less.prems(1) by simp
      qed (use less.prems bound in auto)
      with False le show ?thesis by (subst is_prime_loop.simps) (auto simp only: w if_False if_True)
    qed
  qed
qed

lemma is_prime_total:
  assumes "n < 2 ^ 62"
  shows "is_prime n = Some (prime_number n)"
proof -
  consider "n < 2" | "n = 2" | "n = 3" | "4 \<le> n" by linarith
  then show ?thesis
  proof cases
    case 4
    show ?thesis
    proof (cases "n mod 2 = 0 \<or> n mod 3 = 0")
      case True
      then have "\<not> prime_number n"
        using 4 not_prime_divisor [of 2 n] not_prime_divisor [of 3 n] by (auto simp: mod_eq_0_iff_dvd)
      with True 4 show ?thesis by (simp add: is_prime_def)
    next
      case False
      have "\<not> d dvd n" if "2 \<le> d" "d < 5" for d
      proof -
        have "d = 2 \<or> d = 3 \<or> d = 4" using that by linarith
        moreover have "4 dvd n \<Longrightarrow> 2 dvd n" by (rule dvd_trans [of 2 4]) simp_all
        ultimately show ?thesis using False by (auto simp: mod_eq_0_iff_dvd)
      qed
      with False 4 assms show ?thesis
        using is_prime_loop_correct [of 5 n] by (simp add: is_prime_def)
    qed
  qed (use prime_if_no_small_divisor [of n 2] in \<open>auto simp: is_prime_def, simp add: prime_number_def\<close>)
qed

section \<open>The lookup table\<close>

definition TABLE_SIZE :: nat where
  "TABLE_SIZE = 65537"

fun hash_bytes :: "u64 \<Rightarrow> string \<Rightarrow> u64" where
  "hash_bytes h [] = h"
| "hash_bytes h (c # cs) = hash_bytes (h * 0x517cc1b727220a95 + of_char c) cs"

definition hash_str :: "string \<Rightarrow> u64 \<Rightarrow> u64" where
  "hash_str s seed =
     (let h = hash_bytes seed s;
          h = h XOR drop_bit 33 h;
          h = h * 0xff51afd7ed558ccd;
          h = h XOR drop_bit 33 h;
          h = h * 0xc4ceb9fe1a85ec53
      in h XOR drop_bit 33 h)"

definition permutation :: "string \<Rightarrow> nat \<times> nat" where
  "permutation name =
     (let h1 = hash_str name 0;
          h2 = hash_str name 0x9e3779b97f4a7c15;
          offset = unat h1 mod TABLE_SIZE;
          skip = unat h2 mod (TABLE_SIZE - 1) + 1
      in (offset, skip))"

text \<open>The locals of \<open>populate\<close>: the table, how far each backend has advanced, the filled slots.\<close>

record fill =
  tbl :: "nat list"
  nxt :: "nat list"
  filled :: nat

definition slot_at :: "nat \<Rightarrow> nat \<Rightarrow> nat \<Rightarrow> nat \<Rightarrow> nat" where
  "slot_at table_size offset skip c = wrap_usize (offset + c * skip) mod table_size"

partial_function (option) find_slot ::
    "nat \<Rightarrow> nat list \<Rightarrow> nat \<Rightarrow> nat \<Rightarrow> nat \<Rightarrow> nat option" where
  "find_slot table_size table offset skip c =
     (if get table (slot_at table_size offset skip c) = Some (max_of 64) then Some c
      else find_slot table_size table offset skip (c + 1))"

fun fill_round :: "nat \<Rightarrow> (nat \<times> nat) list \<Rightarrow> nat list \<Rightarrow> fill \<Rightarrow> fill option" where
  "fill_round table_size perms [] st = Some st"
| "fill_round table_size perms (i # is) st =
     (case get perms i of
        None \<Rightarrow> fill_round table_size perms is st
      | Some (offset, skip) \<Rightarrow>
          (case get (nxt st) i of
             None \<Rightarrow> fill_round table_size perms is st
           | Some c0 \<Rightarrow>
               (case find_slot table_size (tbl st) offset skip c0 of
                  None \<Rightarrow> None
                | Some c \<Rightarrow>
                    let slot = slot_at table_size offset skip c;
                        st' = \<lparr>tbl = (tbl st)[slot := i], nxt = (nxt st)[i := c + 1],
                               filled = filled st + 1\<rparr>
                    in if filled st' \<ge> table_size then Some st'
                       else fill_round table_size perms is st')))"

partial_function (option) fill_loop :: "nat \<Rightarrow> (nat \<times> nat) list \<Rightarrow> fill \<Rightarrow> fill option" where
  "fill_loop table_size perms st =
     (if filled st < table_size then
        Option.bind (fill_round table_size perms [0..<length perms] st)
          (\<lambda>st'. fill_loop table_size perms st')
      else Some st)"

definition populate_table :: "nat \<Rightarrow> (nat \<times> nat) list \<Rightarrow> nat list option" where
  "populate_table table_size perms =
     map_option tbl (fill_loop table_size perms
       \<lparr>tbl = replicate table_size (max_of 64), nxt = replicate (length perms) 0, filled = 0\<rparr>)"

definition populate :: "backend list \<Rightarrow> nat list option" where
  "populate bs = populate_table TABLE_SIZE (map (\<lambda>b. permutation (backend_id b)) bs)"

record maglev =
  m_table :: "nat list"
  num_backends :: nat
  identity_hash :: u64

text \<open>\<^const>\<open>None\<close> is a table construction that does not return.\<close>

definition maglev_new :: "backend list \<Rightarrow> (maglev, balancer_error) result option" where
  "maglev_new bs =
     (if bs = [] then Some (Err NoBackends)
      else map_option (\<lambda>t. Ok \<lparr>m_table = t, num_backends = length bs,
                               identity_hash = backend_identity_hash bs\<rparr>) (populate bs))"

definition maglev_pick_with_key :: "maglev \<Rightarrow> backend list \<Rightarrow> u64 \<Rightarrow> (nat, balancer_error) result" where
  "maglev_pick_with_key s bs key =
     (if bs = [] then Err NoBackends
      else if length bs \<noteq> num_backends s \<or> backend_identity_hash bs \<noteq> identity_hash s
        then Err TableStale
      else case get (m_table s) (unat key mod TABLE_SIZE) of
          None \<Rightarrow> Err (Internal ''table lookup out of range'')
        | Some idx \<Rightarrow>
            (if idx \<ge> length bs then Err (Internal ''table entry exceeds backend count'')
             else Ok idx))"

section \<open>Filling the table\<close>

lemma count_list_update:
  "i < length xs \<Longrightarrow> count_list (xs[i := v]) x + (if xs ! i = x then 1 else 0)
     = count_list xs x + (if v = x then 1 else 0)"
proof -
  assume "i < length xs"
  then obtain as y bs where "xs = as @ y # bs" "i = length as"
    by (metis id_take_nth_drop length_take min.absorb4)
  then show ?thesis by (simp add: count_list_append)
qed

lemma count_list_pos: "0 < count_list xs x \<longleftrightarrow> x \<in> set xs"
  by (induction xs) auto

locale maglev_perms =
  fixes table_size :: nat and perm :: "string \<Rightarrow> nat \<times> nat"
  assumes size: "1 < table_size" "table_size \<le> 2 ^ 31"
    and offset: "fst (perm name) < table_size"
    and skip_pos: "0 < snd (perm name)"
    and skip_less: "snd (perm name) < table_size"
    and skip_coprime: "coprime (snd (perm name)) table_size"
begin

lemma slot_exact:
  assumes "c < table_size"
  shows "slot_at table_size (fst (perm name)) (snd (perm name)) c
    = (fst (perm name) + c * snd (perm name)) mod table_size"
proof -
  have "c * snd (perm name) \<le> 2 ^ 31 * 2 ^ 31"
    using assms size(2) skip_less [of name] by (intro mult_le_mono) auto
  moreover have "fst (perm name) \<le> 2 ^ 31" using offset [of name] size(2) by simp
  ultimately show ?thesis by (simp add: slot_at_def wrap_usize_def)
qed

lemma slots_onto:
  assumes "s < table_size"
  shows "\<exists>c < table_size. slot_at table_size (fst (perm name)) (snd (perm name)) c = s"
proof -
  let ?f = "\<lambda>c. (fst (perm name) + c * snd (perm name)) mod table_size"
  have le: "c' \<le> c" if "?f c = ?f c'" "c < table_size" "c' < table_size" for c c'
  proof (rule ccontr)
    assume "\<not> c' \<le> c"
    then have "table_size dvd (c' - c) * snd (perm name)"
      using that(1) mod_eq_dvd_iff_nat [of "fst (perm name) + c * snd (perm name)"
          "fst (perm name) + c' * snd (perm name)" table_size]
      by (simp add: diff_mult_distrib)
    then have "table_size dvd c' - c"
      using skip_coprime [of name] by (simp add: coprime_commute coprime_dvd_mult_left_iff)
    with \<open>\<not> c' \<le> c\<close> that(3) show False by (auto dest!: dvd_imp_le)
  qed
  then have "inj_on ?f {..<table_size}" by (intro inj_onI) (metis le_antisym lessThan_iff)
  moreover have "?f ` {..<table_size} \<subseteq> {..<table_size}" using size by auto
  ultimately have "?f ` {..<table_size} = {..<table_size}"
    by (simp add: card_image card_subset_eq)
  then obtain c where "c < table_size" "?f c = s" using assms by (metis (no_types, lifting) imageE lessThan_iff)
  then show ?thesis using slot_exact by auto
qed

text \<open>A search that starts at or before a hit ends, at the first hit.\<close>

lemma find_slot_returns:
  assumes "get table (slot_at table_size o' s' d) = Some (max_of 64)" and "c \<le> d"
  shows "\<exists>e. find_slot table_size table o' s' c = Some e \<and> c \<le> e \<and> e \<le> d
    \<and> get table (slot_at table_size o' s' e) = Some (max_of 64)
    \<and> (\<forall>x. c \<le> x \<and> x < e \<longrightarrow> get table (slot_at table_size o' s' x) \<noteq> Some (max_of 64))"
  using assms(2)
proof (induction "d - c" arbitrary: c)
  case 0
  then show ?case using assms(1) by (subst find_slot.simps) (auto intro!: exI [of _ d])
next
  case (Suc m)
  show ?case
  proof (cases "get table (slot_at table_size o' s' c) = Some (max_of 64)")
    case True
    then show ?thesis using Suc.prems by (subst find_slot.simps) (auto intro!: exI [of _ c])
  next
    case False
    then have "m = d - (c + 1)" "c + 1 \<le> d" using Suc.hyps(2) by linarith+
    from Suc.hyps(1) [OF this] obtain e where e: "find_slot table_size table o' s' (c + 1) = Some e"
      "c + 1 \<le> e" "e \<le> d" "get table (slot_at table_size o' s' e) = Some (max_of 64)"
      "\<forall>x. c + 1 \<le> x \<and> x < e \<longrightarrow> get table (slot_at table_size o' s' x) \<noteq> Some (max_of 64)"
      by blast
    moreover have "\<forall>x. c \<le> x \<and> x < e \<longrightarrow> get table (slot_at table_size o' s' x) \<noteq> Some (max_of 64)"
      using e(5) False by (metis Suc_eq_plus1 le_eq_less_or_eq Suc_leI)
    ultimately show ?thesis using False by (subst find_slot.simps) auto
  qed
qed

end

text \<open>The state of the construction in round \<open>r\<close>, before backend \<open>i\<close> takes its slot.\<close>

definition fill_inv :: "nat \<Rightarrow> (nat \<times> nat) list \<Rightarrow> nat \<Rightarrow> nat \<Rightarrow> fill \<Rightarrow> bool" where
  "fill_inv table_size perms r i st \<longleftrightarrow>
     length (tbl st) = table_size \<and> length (nxt st) = length perms \<and> i \<le> length perms
     \<and> filled st = r * length perms + i \<and> filled st \<le> table_size
     \<and> count_list (tbl st) (max_of 64) = table_size - filled st
     \<and> (\<forall>j < length perms. count_list (tbl st) j = (if j < i then r + 1 else r))
     \<and> set (tbl st) \<subseteq> insert (max_of 64) {..<length perms}
     \<and> (\<forall>j < length perms. \<forall>c < nxt st ! j.
          tbl st ! slot_at table_size (fst (perms ! j)) (snd (perms ! j)) c \<noteq> max_of 64)"

context maglev_perms begin

lemma fill_find:
  assumes inv: "fill_inv table_size (map perm names) r i st" and i: "i < length names"
    and room: "filled st < table_size"
  shows "\<exists>c. find_slot table_size (tbl st) (fst (perm (names ! i))) (snd (perm (names ! i))) (nxt st ! i)
      = Some c \<and> nxt st ! i \<le> c \<and> c < table_size
    \<and> tbl st ! slot_at table_size (fst (perm (names ! i))) (snd (perm (names ! i))) c = max_of 64
    \<and> (\<forall>x. nxt st ! i \<le> x \<and> x < c \<longrightarrow>
         tbl st ! slot_at table_size (fst (perm (names ! i))) (snd (perm (names ! i))) x \<noteq> max_of 64)"
proof -
  let ?slot = "slot_at table_size (fst (perm (names ! i))) (snd (perm (names ! i)))"
  have len: "length (tbl st) = table_size" using inv by (simp add: fill_inv_def)
  have slot: "?slot c < table_size" for c using size by (simp add: slot_at_def)
  have "0 < count_list (tbl st) (max_of 64)" using inv room by (simp add: fill_inv_def)
  then obtain s where s: "s < table_size" "tbl st ! s = max_of 64"
    using len by (auto simp: count_list_pos in_set_conv_nth)
  from slots_onto [OF s(1), of "names ! i"] obtain d where d: "d < table_size" "?slot d = s" by blast
  have "nxt st ! i \<le> d"
  proof (rule ccontr)
    assume "\<not> nxt st ! i \<le> d"
    then have "tbl st ! ?slot d \<noteq> max_of 64" using inv i by (simp add: fill_inv_def)
    with d(2) s(2) show False by simp
  qed
  from find_slot_returns [OF _ this, of "tbl st" "fst (perm (names ! i))" "snd (perm (names ! i))"]
  show ?thesis
    using d s len slot by (fastforce simp: get_def)
qed

lemma fill_step:
  assumes inv: "fill_inv table_size (map perm names) r i st" and i: "i < length names"
    and room: "filled st < table_size" and n: "length names < max_of 64"
  obtains c where "find_slot table_size (tbl st) (fst (perm (names ! i))) (snd (perm (names ! i)))
      (nxt st ! i) = Some c"
    "fill_inv table_size (map perm names) r (Suc i)
       \<lparr>tbl = (tbl st)[slot_at table_size (fst (perm (names ! i))) (snd (perm (names ! i))) c := i],
        nxt = (nxt st)[i := c + 1], filled = filled st + 1\<rparr>"
proof -
  let ?slot = "slot_at table_size (fst (perm (names ! i))) (snd (perm (names ! i)))"
  obtain c where c: "find_slot table_size (tbl st) (fst (perm (names ! i))) (snd (perm (names ! i)))
      (nxt st ! i) = Some c" "tbl st ! ?slot c = max_of 64" "nxt st ! i \<le> c"
    "\<And>x. nxt st ! i \<le> x \<Longrightarrow> x < c \<Longrightarrow> tbl st ! ?slot x \<noteq> max_of 64"
    using fill_find [OF inv i room] by blast
  have slot: "slot_at table_size a b d < table_size" for a b d using size by (simp add: slot_at_def)
  let ?t = "(tbl st)[?slot c := i]"
  have t: "length (tbl st) = table_size" using inv by (simp add: fill_inv_def)
  have cnt: "count_list ?t x + (if max_of 64 = x then 1 else 0)
      = count_list (tbl st) x + (if i = x then 1 else 0)" for x
    using count_list_update [of "?slot c" "tbl st" i x] t slot c(2) by simp
  have empty: "count_list ?t (max_of 64) = table_size - (filled st + 1)"
    using cnt [of "max_of 64"] inv i n room by (simp add: fill_inv_def)
  have count: "count_list ?t j = (if j < Suc i then r + 1 else r)" if "j < length names" for j
    using cnt [of j] inv i n that by (auto simp: fill_inv_def)
  have members: "set ?t \<subseteq> insert (max_of 64) {..<length names}"
    using inv i set_update_subset_insert [of "tbl st" "?slot c" i] by (auto simp: fill_inv_def)
  have "?t ! slot_at table_size (fst (perm (names ! j))) (snd (perm (names ! j))) d \<noteq> max_of 64"
    if j: "j < length names" and d: "d < (nxt st)[i := c + 1] ! j" for j d
  proof (cases "d < nxt st ! j")
    case True
    then have "tbl st ! slot_at table_size (fst (perm (names ! j))) (snd (perm (names ! j))) d \<noteq> max_of 64"
      using inv j by (simp add: fill_inv_def)
    then show ?thesis using t slot i n by (simp add: nth_list_update)
  next
    case False
    with d i inv have "j = i" "d \<le> c" "nxt st ! i \<le> d"
      by (auto simp: fill_inv_def nth_list_update split: if_splits)
    then show ?thesis
      using c(4) [of d] t slot i n by (cases "d = c") (auto simp: nth_list_update)
  qed
  then have "fill_inv table_size (map perm names) r (Suc i)
       \<lparr>tbl = ?t, nxt = (nxt st)[i := c + 1], filled = filled st + 1\<rparr>"
    using inv i room count empty members by (simp add: fill_inv_def)
  with c(1) show thesis by (rule that)
qed

lemma fill_round_inv:
  assumes "fill_inv table_size (map perm names) r i st" and "i \<le> length names"
    and "filled st < table_size" and n: "length names < max_of 64"
  shows "\<exists>i' st'. fill_round table_size (map perm names) [i..<length names] st = Some st'
    \<and> fill_inv table_size (map perm names) r i' st'
    \<and> (filled st' = table_size \<or> i' = length names)"
  using assms(1-3)
proof (induction "length names - i" arbitrary: i st)
  case 0
  then show ?case by auto
next
  case (Suc m)
  then have i: "i < length names" by simp
  then have upt: "[i..<length names] = i # [Suc i..<length names]" by (rule upt_conv_Cons)
  from fill_step [OF Suc.prems(1) i Suc.prems(3) n] obtain c where
    c: "find_slot table_size (tbl st) (fst (perm (names ! i))) (snd (perm (names ! i))) (nxt st ! i) = Some c"
    and inv: "fill_inv table_size (map perm names) r (Suc i)
       \<lparr>tbl = (tbl st)[slot_at table_size (fst (perm (names ! i))) (snd (perm (names ! i))) c := i],
        nxt = (nxt st)[i := c + 1], filled = filled st + 1\<rparr>" (is "fill_inv _ _ _ _ ?st") .
  have gets: "get (map perm names) i = Some (perm (names ! i))" "get (nxt st) i = Some (nxt st ! i)"
    using i Suc.prems(1) by (auto simp: get_def fill_inv_def)
  show ?case
  proof (cases "filled ?st < table_size")
    case True
    from Suc.hyps(1) [OF _ inv _ True] Suc.hyps(2) i show ?thesis
      using c True by (simp add: upt gets split_beta Let_def)
  next
    case False
    then have "filled ?st = table_size" using inv by (simp add: fill_inv_def)
    then show ?thesis using inv c by (auto simp: upt gets split_beta Let_def)
  qed
qed

end

lemma fill_loop_done: "table_size \<le> filled st \<Longrightarrow> fill_loop table_size perms st = Some st"
  by (subst fill_loop.simps) simp

lemma fill_loop_round:
  "filled st < table_size \<Longrightarrow> fill_round table_size perms [0..<length perms] st = Some st'
     \<Longrightarrow> fill_loop table_size perms st = fill_loop table_size perms st'"
  by (subst fill_loop.simps) simp

context maglev_perms begin

lemma fill_loop_full:
  assumes "fill_inv table_size (map perm names) r 0 st" and ne: "names \<noteq> []"
    and n: "length names < max_of 64"
  shows "\<exists>r' i' st'. fill_loop table_size (map perm names) st = Some st'
    \<and> fill_inv table_size (map perm names) r' i' st' \<and> filled st' = table_size"
  using assms(1)
proof (induction "table_size - filled st" arbitrary: r st rule: less_induct)
  case less
  show ?case
  proof (cases "filled st < table_size")
    case False
    then have "filled st = table_size" using less.prems by (simp add: fill_inv_def)
    then show ?thesis using less.prems by (auto simp: fill_loop_done)
  next
    case True
    from fill_round_inv [OF less.prems _ True n] obtain i' st' where
      st': "fill_round table_size (map perm names) [0..<length names] st = Some st'"
      "fill_inv table_size (map perm names) r i' st'" "filled st' = table_size \<or> i' = length names"
      by auto
    show ?thesis
    proof (cases "filled st' = table_size")
      case full: True
      then show ?thesis
        using st' by (auto simp: fill_loop_round [OF True, of "map perm names"] fill_loop_done)
    next
      case False
      with st' have i': "i' = length names" by simp
      have next_round: "fill_inv table_size (map perm names) (Suc r) 0 st'"
        using st'(2) by (auto simp: fill_inv_def i')
      have "filled st < filled st'"
        using st'(2) less.prems ne by (simp add: fill_inv_def i')
      then have "table_size - filled st' < table_size - filled st"
        using True by (intro diff_less_mono2)
      from less.hyps [OF this next_round] show ?thesis
        using st'(1) by (auto simp: fill_loop_round [OF True, of "map perm names"])
    qed
  qed
qed

lemma populate_balanced:
  assumes "names \<noteq> []" and "length names < max_of 64"
  shows "\<exists>t. populate_table table_size (map perm names) = Some t \<and> length t = table_size
    \<and> set t \<subseteq> {..<length names}
    \<and> (\<forall>j < length names. count_list t j =
         table_size div length names + (if j < table_size mod length names then 1 else 0))"
proof -
  let ?n = "length names"
  have "fill_inv table_size (map perm names) 0 0
     \<lparr>tbl = replicate table_size (max_of 64), nxt = replicate ?n 0, filled = 0\<rparr>"
    using assms(2) by (auto simp: fill_inv_def count_list_eq_length_filter)
  from fill_loop_full [OF this assms] obtain r i st where
    st: "fill_loop table_size (map perm names)
       \<lparr>tbl = replicate table_size (max_of 64), nxt = replicate ?n 0, filled = 0\<rparr> = Some st"
    and inv: "fill_inv table_size (map perm names) r i st" and full: "filled st = table_size"
    by auto
  have M: "table_size = r * ?n + i" "i \<le> ?n" using inv full by (auto simp: fill_inv_def)
  have dm: "table_size div ?n = (if i = ?n then r + 1 else r)" "table_size mod ?n = (if i = ?n then 0 else i)"
    using assms(1) M(2) unfolding M(1) by (auto simp del: M)
  have "max_of 64 \<notin> set (tbl st)"
    using inv full count_list_pos [of "tbl st" "max_of 64"] by (simp add: fill_inv_def)
  with inv have "set (tbl st) \<subseteq> {..<?n}" by (auto simp: fill_inv_def)
  moreover have "count_list (tbl st) j = table_size div ?n + (if j < table_size mod ?n then 1 else 0)"
    if "j < ?n" for j
    using inv that by (auto simp: fill_inv_def dm)
  ultimately show ?thesis
    using st inv by (auto simp: populate_table_def fill_inv_def)
qed

end

lemma prime_number_coprime:
  assumes "prime_number n" and "0 < k" and "k < n"
  shows "coprime k n"
proof -
  have "gcd k n = 1 \<or> gcd k n = n" using assms(1) by (simp add: prime_number_def)
  moreover have "gcd k n \<noteq> n" using assms(2,3) by (metis gcd_le1_nat leD less_not_refl)
  ultimately show ?thesis by (simp add: coprime_iff_gcd_eq_1)
qed

lemma TABLE_SIZE_prime: "prime_number TABLE_SIZE"
proof -
  have "list_all (\<lambda>d. 65537 mod d \<noteq> 0) [2..<257 :: nat]" by simp
  then have "\<not> d dvd 65537" if "2 \<le> d" "d < 257" for d :: nat
    using that by (auto simp only: list_all_iff set_upt atLeastLessThan_iff mod_eq_0_iff_dvd)
  then show ?thesis
    unfolding TABLE_SIZE_def by (intro prime_if_no_small_divisor [of _ 257]) auto
qed

interpretation mag: maglev_perms TABLE_SIZE permutation
proof
  fix name
  have skip: "0 < snd (permutation name)" "snd (permutation name) < TABLE_SIZE"
    by (simp_all add: permutation_def TABLE_SIZE_def Let_def)
  then show "0 < snd (permutation name)" "snd (permutation name) < TABLE_SIZE" .
  show "coprime (snd (permutation name)) TABLE_SIZE"
    using TABLE_SIZE_prime skip by (rule prime_number_coprime)
qed (simp_all add: TABLE_SIZE_def permutation_def Let_def)

interpretation keyed_maglev: keyed_load_balancer maglev_pick_with_key
  by unfold_locales (auto simp: maglev_pick_with_key_def split: if_splits option.splits)

section \<open>Properties\<close>

text \<open>The trial division over \<open>6k \<plusminus> 1\<close> decides primality: for every number below \<open>2 ^ 62\<close> the
  loop ends and answers true exactly for the primes.\<close>

lemma is_prime_correct:
  assumes "n < 2 ^ 62"
  shows "is_prime n = Some (1 < n \<and> (\<forall>d. d dvd n \<longrightarrow> d = 1 \<or> d = n))"
  using is_prime_total [OF assms] by (simp add: prime_number_def)

lemma is_prime_correct_witness:
  "is_prime 65521 = Some (1 < (65521 :: nat) \<and> (\<forall>d. d dvd (65521 :: nat) \<longrightarrow> d = 1 \<or> d = 65521))"
  by (rule is_prime_correct) simp

text \<open>C3. Building a Maglev table ends for every non-empty list of backends, and the table is balanced
  to within one slot: every slot holds a backend, and backend \<open>j\<close> owns \<open>65537 div n\<close> slots, plus one
  for the first \<open>65537 mod n\<close> backends, whatever the identifiers are.\<close>

theorem maglev_balanced:
  assumes "bs \<noteq> []" and "length bs < 2 ^ 64 - 1"
  shows "\<exists>m. maglev_new bs = Some (Ok m) \<and> length (m_table m) = TABLE_SIZE
    \<and> set (m_table m) \<subseteq> {..<length bs}
    \<and> (\<forall>j < length bs. count_list (m_table m) j =
         TABLE_SIZE div length bs + (if j < TABLE_SIZE mod length bs then 1 else 0))"
  using mag.populate_balanced [of "map backend_id bs"] assms
  by (auto simp: maglev_new_def populate_def max_of_def o_def)

theorem maglev_balanced_witness:
  "\<exists>m. maglev_new [backend_new ''a'' 1, backend_new ''b'' 1] = Some (Ok m) \<and>
     count_list (m_table m) 0 = 32769 \<and> count_list (m_table m) 1 = 32768"
proof -
  let ?bs = "[backend_new ''a'' 1, backend_new ''b'' 1]"
  obtain m where "maglev_new ?bs = Some (Ok m)"
    and "\<forall>j < length ?bs. count_list (m_table m) j =
         TABLE_SIZE div length ?bs + (if j < TABLE_SIZE mod length ?bs then 1 else 0)"
    using maglev_balanced [of ?bs] by auto
  moreover from this(2) [rule_format, of 0] this(2) [rule_format, of 1]
  have "count_list (m_table m) 0 = 32769" "count_list (m_table m) 1 = 32768"
    by (simp_all add: TABLE_SIZE_def flip: numeral_2_eq_2)
  ultimately show ?thesis by blast
qed

text \<open>A Maglev state answers every key for the list it was built from with a valid index, and
  refuses a list of another length with \<open>TableStale\<close>.\<close>

lemma maglev_pick_total:
  assumes "maglev_new bs = Some (Ok m)" and "length bs < 2 ^ 64 - 1"
  shows "(\<exists>i < length bs. maglev_pick_with_key m bs key = Ok i) \<and>
    (\<forall>bs'. bs' \<noteq> [] \<and> length bs' \<noteq> length bs \<longrightarrow> maglev_pick_with_key m bs' key = Err TableStale)"
proof -
  have ne: "bs \<noteq> []" using assms(1) by (auto simp: maglev_new_def)
  obtain t where t: "populate bs = Some t" "length t = TABLE_SIZE" "set t \<subseteq> {..<length bs}"
    using mag.populate_balanced [of "map backend_id bs"] ne assms(2)
    by (auto simp: populate_def max_of_def o_def)
  have m: "m = \<lparr>m_table = t, num_backends = length bs, identity_hash = backend_identity_hash bs\<rparr>"
    using assms(1) ne t(1) by (auto simp: maglev_new_def)
  have "unat key mod TABLE_SIZE < length t" by (simp add: t(2) TABLE_SIZE_def)
  then have "get t (unat key mod TABLE_SIZE) = Some (t ! (unat key mod TABLE_SIZE))"
    "t ! (unat key mod TABLE_SIZE) < length bs"
    using t(3) nth_mem by (auto simp: get_def)
  then show ?thesis using ne by (simp add: m maglev_pick_with_key_def)
qed

lemma maglev_pick_total_witness:
  "\<exists>m. maglev_new [backend_new ''a'' 1] = Some (Ok m) \<and>
     (\<exists>i < 1. maglev_pick_with_key m [backend_new ''a'' 1] 42 = Ok i)"
proof -
  obtain t where "populate [backend_new ''a'' 1] = Some t"
    using mag.populate_balanced [of "[''a'']"] by (auto simp: populate_def backend_new_def max_of_def)
  then show ?thesis
    using maglev_pick_total [of "[backend_new ''a'' 1]" _ 42] by (fastforce simp: maglev_new_def)
qed

end
