(* ===== verification/Ring_Hash.thy ===== *)
theory Ring_Hash
  imports Balancer
begin

text \<open>
  Consistent hashing on a ring of virtual nodes (\<open>lb-balancer/src/ring_hash.rs\<close>), with the
  standard library's \<open>sort_by_key\<close> (stable) and \<open>binary_search_by_key\<close>. The locale
  \<open>ordered_search\<close> is the documented contract of the search. The properties: a key goes to the next
  point clockwise, two points collide only when the hashes of the identifiers agree outside the
  virtual-node bits, and adding a backend moves keys only to the new backend.
\<close>

section \<open>The model\<close>

definition VNODES_PER_BACKEND :: nat where
  "VNODES_PER_BACKEND = 150"

record ring_point =
  hash :: u64
  backend_idx :: nat

fun fnv_bytes :: "u64 \<Rightarrow> string \<Rightarrow> u64" where
  "fnv_bytes h [] = h"
| "fnv_bytes h (c # cs) = fnv_bytes ((h XOR of_char c) * 0x100000001b3) cs"

definition finalize :: "u64 \<Rightarrow> u64" where
  "finalize h =
     (let h = h XOR drop_bit 33 h;
          h = h * 0xff51afd7ed558ccd;
          h = h XOR drop_bit 33 h;
          h = h * 0xc4ceb9fe1a85ec53
      in h XOR drop_bit 33 h)"

definition hash_vnode :: "string \<Rightarrow> nat \<Rightarrow> u64" where
  "hash_vnode name vnode =
     (let h = fnv_bytes 0xcbf29ce484222325 name;
          h = h XOR of_nat vnode;
          h = h * 0x517cc1b727220a95
      in finalize h)"

definition hash_key :: "u64 \<Rightarrow> u64" where
  "hash_key key = finalize key"

fun ring_points :: "nat \<Rightarrow> backend list \<Rightarrow> ring_point list" where
  "ring_points idx [] = []"
| "ring_points idx (b # bs) =
     map (\<lambda>vnode. \<lparr>hash = hash_vnode (backend_id b) vnode, backend_idx = idx\<rparr>)
       [0..<VNODES_PER_BACKEND] @ ring_points (idx + 1) bs"

record ring_hash =
  ring :: "ring_point list"
  rh_num_backends :: nat
  rh_identity_hash :: u64

definition ring_hash_new :: "backend list \<Rightarrow> (ring_hash, balancer_error) result" where
  "ring_hash_new bs =
     (if bs = [] then Err NoBackends
      else Ok \<lparr>ring = sort_key hash (ring_points 0 bs), rh_num_backends = length bs,
               rh_identity_hash = backend_identity_hash bs\<rparr>)"

text \<open>The search of the standard library: \<open>Inr i\<close> is a hit at \<open>i\<close>, \<open>Inl i\<close> the position where
  the key could be inserted.\<close>

function (sequential) search_loop :: "u64 list \<Rightarrow> u64 \<Rightarrow> nat \<Rightarrow> nat \<Rightarrow> nat" where
  "search_loop ks h base sz =
     (if sz > 1 then
        let half = sz div 2; mid = base + half
        in search_loop ks h (if ks ! mid > h then base else mid) (sz - half)
      else base)"
  by pat_completeness auto
termination
  by (relation "measure (\<lambda>(_, _, _, sz). sz)") auto

declare search_loop.simps [simp del]

definition binary_search_by_key :: "ring_point list \<Rightarrow> u64 \<Rightarrow> nat + nat" where
  "binary_search_by_key ps h =
     (if ps = [] then Inl 0
      else
        let ks = map hash ps; base = search_loop ks h 0 (length ks)
        in if ks ! base = h then Inr base
           else Inl (base + (if ks ! base < h then 1 else 0)))"

definition ring_hash_pick_with_key :: "ring_hash \<Rightarrow> backend list \<Rightarrow> u64 \<Rightarrow> (nat, balancer_error) result" where
  "ring_hash_pick_with_key s bs key =
     (if bs = [] then Err NoBackends
      else if length bs \<noteq> rh_num_backends s \<or> backend_identity_hash bs \<noteq> rh_identity_hash s
        then Err TableStale
      else if ring s = [] then Err (Internal ''ring is empty'')
      else
        let h = hash_key key;
            pos = (case binary_search_by_key (ring s) h of
                     Inr i \<Rightarrow> i
                   | Inl i \<Rightarrow> if i \<ge> length (ring s) then 0 else i)
        in case get (ring s) pos of
             None \<Rightarrow> Err (Internal ''ring position out of range'')
           | Some point \<Rightarrow>
               (if backend_idx point \<ge> length bs
                then Err (Internal ''ring entry exceeds backend count'')
                else Ok (backend_idx point)))"

interpretation keyed_ring: keyed_load_balancer ring_hash_pick_with_key
  by unfold_locales (auto simp: ring_hash_pick_with_key_def Let_def split: if_splits option.splits)

section \<open>The search finds the clockwise successor\<close>

definition clockwise :: "ring_point list \<Rightarrow> u64 \<Rightarrow> ring_point \<Rightarrow> bool" where
  "clockwise ps h p \<longleftrightarrow> p \<in> set ps \<and>
     (if \<exists>q \<in> set ps. h \<le> hash q
      then h \<le> hash p \<and> (\<forall>q \<in> set ps. h \<le> hash q \<longrightarrow> hash p \<le> hash q)
      else \<forall>q \<in> set ps. hash p \<le> hash q)"

locale ordered_search =
  fixes search :: "ring_point list \<Rightarrow> u64 \<Rightarrow> nat + nat"
  assumes hit: "sorted (map hash ps) \<Longrightarrow> search ps h = Inr i \<Longrightarrow> i < length ps \<and> hash (ps ! i) = h"
    and miss: "sorted (map hash ps) \<Longrightarrow> search ps h = Inl i \<Longrightarrow>
      i \<le> length ps \<and> (\<forall>j < i. hash (ps ! j) < h) \<and> (\<forall>j. i \<le> j \<and> j < length ps \<longrightarrow> h < hash (ps ! j))"
begin

definition position :: "ring_point list \<Rightarrow> u64 \<Rightarrow> nat" where
  "position ps h = (case search ps h of Inr i \<Rightarrow> i | Inl i \<Rightarrow> if i \<ge> length ps then 0 else i)"

lemma position_clockwise:
  assumes sorted: "sorted (map hash ps)" and "ps \<noteq> []"
  shows "position ps h < length ps \<and> clockwise ps h (ps ! position ps h)"
proof (cases "search ps h")
  case (Inr i)
  from hit [OF sorted Inr] show ?thesis
    by (auto simp: position_def Inr clockwise_def)
next
  case (Inl i)
  note m = miss [OF sorted Inl]
  have mono: "hash (ps ! j) \<le> hash (ps ! k)" if "j \<le> k" "k < length ps" for j k
    using sorted_nth_mono [OF sorted that(1)] that by simp
  show ?thesis
  proof (cases "i \<ge> length ps")
    case True
    then have "\<forall>q \<in> set ps. hash q < h" using m by (auto simp: in_set_conv_nth)
    moreover have "\<forall>q \<in> set ps. hash (ps ! 0) \<le> hash q" using mono [of 0] by (auto simp: in_set_conv_nth)
    ultimately show ?thesis
      using True assms(2) by (auto simp: position_def Inl clockwise_def not_le [symmetric])
  next
    case False
    have "hash (ps ! i) \<le> hash q" if q: "q \<in> set ps" "h \<le> hash q" for q
    proof -
      obtain j where j: "j < length ps" "q = ps ! j" using q(1) by (auto simp: in_set_conv_nth)
      have "\<not> j < i" using m q(2) j(2) by auto
      then show ?thesis using mono [of i j] j by simp
    qed
    moreover have "h \<le> hash (ps ! i)" using m False by (simp add: less_imp_le)
    ultimately show ?thesis using False by (auto simp: position_def Inl clockwise_def)
  qed
qed

end

lemma search_loop_spec:
  assumes "sorted ks" "0 < sz" "base + sz \<le> length ks" "base = 0 \<or> ks ! base \<le> h"
    "base + sz = length ks \<or> h < ks ! (base + sz)"
  shows "let r = search_loop ks h base sz in
    r < length ks \<and> (r = 0 \<or> ks ! r \<le> h) \<and> (Suc r = length ks \<or> h < ks ! Suc r)"
  using assms
proof (induction ks h base sz rule: search_loop.induct)
  case (1 ks h base sz)
  show ?case
  proof (cases "sz > 1")
    case False
    then have "sz = 1" using "1.prems"(2) by linarith
    moreover have "search_loop ks h base 1 = base" by (subst search_loop.simps) simp
    ultimately show ?thesis using "1.prems"(3-5) by (simp add: Let_def Suc_le_eq)
  next
    case True
    let ?mid = "base + sz div 2"
    have half: "0 < sz div 2" "sz div 2 \<le> sz - sz div 2" using True by auto
    have up: "base + (sz - sz div 2) = length ks \<or> h < ks ! (base + (sz - sz div 2))"
      if "h < ks ! ?mid"
    proof (cases "base + (sz - sz div 2) = length ks")
      case False
      then have "ks ! ?mid \<le> ks ! (base + (sz - sz div 2))"
        using "1.prems"(1,3) half by (intro sorted_nth_mono) auto
      with that show ?thesis by auto
    qed simp
    have step: "search_loop ks h base sz =
        search_loop ks h (if ks ! ?mid > h then base else ?mid) (sz - sz div 2)"
      using True by (subst search_loop.simps) (simp only: Let_def if_True)
    have low: "(if ks ! ?mid > h then base else ?mid) = 0 \<or> ks ! (if ks ! ?mid > h then base else ?mid) \<le> h"
      using "1.prems"(4) by (simp add: not_less)
    have len: "(if ks ! ?mid > h then base else ?mid) + (sz - sz div 2) \<le> length ks"
      using "1.prems"(3) by (cases "h < ks ! ?mid") auto
    have high: "(if ks ! ?mid > h then base else ?mid) + (sz - sz div 2) = length ks
        \<or> h < ks ! ((if ks ! ?mid > h then base else ?mid) + (sz - sz div 2))"
      using "1.prems"(5) up by simp
    show ?thesis
      unfolding step using "1.IH" [OF True refl refl "1.prems"(1) _ len low high] half by simp
  qed
qed

lemma binary_search_cases:
  assumes "sorted (map hash ps)" and ne: "ps \<noteq> []"
  obtains r where "r < length ps" "r = 0 \<or> hash (ps ! r) \<le> h"
    "Suc r = length ps \<or> h < hash (ps ! Suc r)"
    "binary_search_by_key ps h =
       (if hash (ps ! r) = h then Inr r else Inl (r + (if hash (ps ! r) < h then 1 else 0)))"
proof -
  let ?r = "search_loop (map hash ps) h 0 (length ps)"
  have "0 < length ps" using ne by simp
  from search_loop_spec [OF assms(1) this, of 0 h]
  have "?r < length (map hash ps) \<and> (?r = 0 \<or> map hash ps ! ?r \<le> h)
      \<and> (Suc ?r = length (map hash ps) \<or> h < map hash ps ! Suc ?r)"
    unfolding Let_def by (simp only: length_map add_0 order.refl simp_thms)
  then have r: "?r < length ps" "?r = 0 \<or> map hash ps ! ?r \<le> h"
    "Suc ?r = length ps \<or> h < map hash ps ! Suc ?r"
    unfolding length_map by blast+
  show thesis
  proof (rule that [of ?r])
    show "Suc ?r = length ps \<or> h < hash (ps ! Suc ?r)"
      using r(1,3) by (cases "Suc ?r = length ps") (simp_all add: Suc_lessI)
    show "binary_search_by_key ps h =
       (if hash (ps ! ?r) = h then Inr ?r else Inl (?r + (if hash (ps ! ?r) < h then 1 else 0)))"
      using ne r(1) by (simp add: binary_search_by_key_def Let_def)
  qed (use r in simp_all)
qed

lemma binary_search_hit:
  assumes "sorted (map hash ps)" and "binary_search_by_key ps h = Inr i"
  shows "i < length ps \<and> hash (ps ! i) = h"
proof -
  have ne: "ps \<noteq> []" using assms(2) by (auto simp: binary_search_by_key_def)
  from assms(1) ne show ?thesis
    by (rule binary_search_cases [of ps h]) (use assms(2) in \<open>auto split: if_splits\<close>)
qed

lemma binary_search_miss:
  assumes sorted: "sorted (map hash ps)" and miss: "binary_search_by_key ps h = Inl i"
  shows "i \<le> length ps \<and> (\<forall>j < i. hash (ps ! j) < h)
    \<and> (\<forall>j. i \<le> j \<and> j < length ps \<longrightarrow> h < hash (ps ! j))"
proof (cases "ps = []")
  case True
  then show ?thesis using miss by (simp add: binary_search_by_key_def)
next
  case False
  from sorted False obtain r where r: "r < length ps" "r = 0 \<or> hash (ps ! r) \<le> h"
    "Suc r = length ps \<or> h < hash (ps ! Suc r)"
    "binary_search_by_key ps h =
       (if hash (ps ! r) = h then Inr r else Inl (r + (if hash (ps ! r) < h then 1 else 0)))"
    by (rule binary_search_cases)
  have mono: "hash (ps ! j) \<le> hash (ps ! k)" if "j \<le> k" "k < length ps" for j k
    using sorted_nth_mono [OF sorted that(1)] that by simp
  show ?thesis
  proof (cases "hash (ps ! r) < h")
    case True
    then have "hash (ps ! r) \<noteq> h" by simp
    with True have i: "i = Suc r" using r(4) miss by simp
    have "hash (ps ! j) < h" if "j < i" for j
      using mono [of j r] r(1) that True i by (meson le_less_trans less_Suc_eq_le)
    moreover have "h < hash (ps ! j)" if "i \<le> j" "j < length ps" for j
      using mono [of "Suc r" j] r(1,3) that i by (auto intro: less_le_trans)
    ultimately show ?thesis using i r(1) by auto
  next
    case False
    then have i: "i = r" "h < hash (ps ! r)" using r(4) miss by (auto split: if_splits)
    then have "r = 0" using r(2) by auto
    moreover have "h < hash (ps ! j)" if "j < length ps" for j
      using mono [of 0 j] that i \<open>r = 0\<close> by (auto intro: less_le_trans)
    ultimately show ?thesis using i by simp
  qed
qed

interpretation bsearch: ordered_search binary_search_by_key
  by unfold_locales (rule binary_search_hit binary_search_miss; assumption)+

section \<open>The finalizer is a bijection\<close>

lemma xorshift_involution: "(h XOR drop_bit 33 h) XOR drop_bit 33 (h XOR drop_bit 33 h) = h" for h :: u64
proof -
  have "drop_bit 33 (drop_bit 33 h) = (0 :: u64)"
  proof (rule bit_eqI)
    fix n
    show "bit (drop_bit 33 (drop_bit 33 h)) n = bit 0 n"
      using bit_imp_le_length [of h "33 + (33 + n)"] by (auto simp: bit_drop_bit_eq)
  qed
  then show ?thesis by (simp only: drop_bit_xor xor.right_neutral xor.assoc xor_self_eq)
qed

lemma xorshift_inj: "inj (\<lambda>h :: u64. h XOR drop_bit 33 h)"
  by (rule inj_on_inverseI [where g = "\<lambda>y. y XOR drop_bit 33 y"]) (rule xorshift_involution)

lemma mult_inj: "c * d = (1 :: u64) \<Longrightarrow> inj (\<lambda>h. h * c)"
  by (rule inj_on_inverseI [where g = "\<lambda>y. y * d"]) (simp add: mult.assoc)

lemma finalize_inj: "inj finalize"
proof -
  have 1: "inj (\<lambda>h :: u64. h * 0xff51afd7ed558ccd)"
    by (rule mult_inj [of _ "0x4f74430c22a54005"]) simp
  have 2: "inj (\<lambda>h :: u64. h * 0xc4ceb9fe1a85ec53)"
    by (rule mult_inj [of _ "0x9cb4b2f8129337db"]) simp
  have eq: "finalize = (\<lambda>h. h XOR drop_bit 33 h) \<circ> (\<lambda>h. h * 0xc4ceb9fe1a85ec53)
      \<circ> (\<lambda>h. h XOR drop_bit 33 h) \<circ> (\<lambda>h. h * 0xff51afd7ed558ccd) \<circ> (\<lambda>h. h XOR drop_bit 33 h)"
    by (simp add: finalize_def Let_def fun_eq_iff)
  show ?thesis unfolding eq by (intro inj_compose 1 2 xorshift_inj)
qed

lemma xor_cancel: "a XOR x = a XOR y \<longleftrightarrow> x = y" for a x y :: u64
proof
  assume "a XOR x = a XOR y"
  then have "a XOR (a XOR x) = a XOR (a XOR y)" by (simp only:)
  then show "x = y" by (simp only: xor.assoc [symmetric] xor_self_eq xor.left_neutral)
qed simp

lemma hash_vnode_eq:
  "hash_vnode a v = hash_vnode b w \<longleftrightarrow>
     fnv_bytes 0xcbf29ce484222325 a XOR of_nat v = fnv_bytes 0xcbf29ce484222325 b XOR of_nat w"
proof -
  have 1: "inj (\<lambda>h :: u64. h * 0x517cc1b727220a95)"
    by (rule mult_inj [of _ "0x2040003d780970bd"]) simp
  show ?thesis
    by (simp only: hash_vnode_def Let_def inj_eq [OF finalize_inj] inj_eq [OF 1])
qed

section \<open>Keys and points\<close>

lemma ring_points_mem:
  "p \<in> set (ring_points idx bs) \<longleftrightarrow> (\<exists>i < length bs. \<exists>v < VNODES_PER_BACKEND.
     p = \<lparr>hash = hash_vnode (backend_id (bs ! i)) v, backend_idx = idx + i\<rparr>)"
proof (induction bs arbitrary: idx)
  case (Cons b bs)
  show ?case by (simp add: Cons.IH Ex_less_Suc2 image_iff) (simp add: Bex_def atLeast0LessThan)
qed simp

lemma ring_points_append:
  "ring_points idx (as @ bs) = ring_points idx as @ ring_points (idx + length as) bs"
  by (induction as arbitrary: idx) simp_all

lemma ring_points_idx: "p \<in> set (ring_points 0 bs) \<Longrightarrow> backend_idx p < length bs"
  by (auto simp: ring_points_mem)

lemma ring_points_ne: "bs \<noteq> [] \<Longrightarrow> ring_points idx bs \<noteq> []"
  by (cases bs) (auto simp: VNODES_PER_BACKEND_def)

lemma ring_pick_point:
  assumes "ring_hash_new bs = Ok s"
  obtains p where "clockwise (ring_points 0 bs) (hash_key key) p"
    "ring_hash_pick_with_key s bs key = Ok (backend_idx p)"
proof -
  have ne: "bs \<noteq> []" using assms by (auto simp: ring_hash_new_def)
  define ps where "ps = sort_key hash (ring_points 0 bs)"
  have ps: "sorted (map hash ps)" "set ps = set (ring_points 0 bs)" by (simp_all add: ps_def)
  have s: "s = \<lparr>ring = ps, rh_num_backends = length bs, rh_identity_hash = backend_identity_hash bs\<rparr>"
    using assms ne by (simp add: ring_hash_new_def ps_def)
  have nonempty: "ps \<noteq> []" using ring_points_ne [OF ne, of 0] ps(2) by auto
  let ?pos = "bsearch.position ps (hash_key key)"
  have pos: "?pos < length ps" "clockwise ps (hash_key key) (ps ! ?pos)"
    using bsearch.position_clockwise [OF ps(1) nonempty] by simp_all
  then have cw: "clockwise (ring_points 0 bs) (hash_key key) (ps ! ?pos)"
    by (simp add: clockwise_def ps(2))
  then have "backend_idx (ps ! ?pos) < length bs"
    using ring_points_idx by (simp add: clockwise_def)
  then have "ring_hash_pick_with_key s bs key = Ok (backend_idx (ps ! ?pos))"
    using ne pos(1) nonempty
    unfolding ring_hash_pick_with_key_def s ring_hash.simps Let_def bsearch.position_def [symmetric]
    by (simp add: get_in)
  with cw show thesis by (rule that)
qed

lemma clockwise_unique:
  "clockwise ps h p \<Longrightarrow> clockwise ps h q \<Longrightarrow> hash p = hash q"
  unfolding clockwise_def by (cases "\<exists>q \<in> set ps. h \<le> hash q") (auto intro: order.antisym)

lemma clockwise_restrict:
  "clockwise ps h p \<Longrightarrow> p \<in> set qs \<Longrightarrow> set qs \<subseteq> set ps \<Longrightarrow> clockwise qs h p"
  unfolding clockwise_def by (cases "\<exists>q \<in> set ps. h \<le> hash q") auto

lemma hash_vnode_apart:
  assumes "drop_bit 8 (fnv_bytes 0xcbf29ce484222325 a) \<noteq> drop_bit 8 (fnv_bytes 0xcbf29ce484222325 b)"
    and "v < VNODES_PER_BACKEND" and "w < VNODES_PER_BACKEND"
  shows "hash_vnode a v \<noteq> hash_vnode b w"
proof
  assume "hash_vnode a v = hash_vnode b w"
  then have "drop_bit 8 (fnv_bytes 0xcbf29ce484222325 a XOR of_nat v)
      = drop_bit 8 (fnv_bytes 0xcbf29ce484222325 b XOR of_nat w)"
    by (simp only: hash_vnode_eq)
  moreover have "drop_bit 8 (of_nat v :: u64) = 0" if "v < VNODES_PER_BACKEND" for v
  proof -
    have "unat (drop_bit 8 (of_nat v :: u64)) = 0"
      using that by (simp add: VNODES_PER_BACKEND_def drop_bit_eq_div unat_div_distrib unat_of_nat)
    then show ?thesis by (simp only: unat_0_iff)
  qed
  ultimately show False using assms by (simp add: drop_bit_xor)
qed

section \<open>Properties\<close>

text \<open>C4. A key is routed to the next virtual node clockwise: for the list the ring was built from, the
  answer is the owner of a ring point with the least hash at or after the hash of the key, or, past
  the last point, of a point with the least hash of all.\<close>

theorem ring_hash_clockwise:
  assumes "ring_hash_new bs = Ok s"
  shows "\<exists>p. clockwise (ring_points 0 bs) (hash_key key) p
    \<and> ring_hash_pick_with_key s bs key = Ok (backend_idx p) \<and> backend_idx p < length bs"
proof -
  from assms obtain p where "clockwise (ring_points 0 bs) (hash_key key) p"
    "ring_hash_pick_with_key s bs key = Ok (backend_idx p)" by (rule ring_pick_point)
  moreover from this(1) have "backend_idx p < length bs"
    unfolding clockwise_def using ring_points_idx by blast
  ultimately show ?thesis by blast
qed

theorem ring_hash_clockwise_witness:
  "\<exists>s. ring_hash_new [backend_new ''a'' 1] = Ok s \<and>
     (\<exists>p. clockwise (ring_points 0 [backend_new ''a'' 1]) (hash_key 7) p)"
proof -
  have "ring_hash_new [backend_new ''a'' 1] =
      Ok (case ring_hash_new [backend_new ''a'' 1] of Inr s \<Rightarrow> s)"
    by (simp add: ring_hash_new_def)
  from ring_hash_clockwise [OF this, of 7] show ?thesis
    by (auto simp: ring_hash_new_def)
qed

text \<open>Two virtual nodes collide on the ring exactly when the FNV hashes of their identifiers,
  each combined with its node number, are equal: the mixing steps are bijections on 64-bit words and
  never merge two inputs. In particular the nodes of one backend are pairwise distinct.\<close>

lemma hash_vnode_collision:
  "(hash_vnode a v = hash_vnode b w \<longleftrightarrow>
     fnv_bytes 0xcbf29ce484222325 a XOR of_nat v = fnv_bytes 0xcbf29ce484222325 b XOR of_nat w)
   \<and> distinct (map (hash_vnode a) [0..<VNODES_PER_BACKEND])"
proof -
  have inj: "v = w" if "of_nat v = (of_nat w :: u64)" "v < VNODES_PER_BACKEND" "w < VNODES_PER_BACKEND" for v w
    using that by (simp add: VNODES_PER_BACKEND_def word_of_nat_eq_iff take_bit_eq_mod)
  have "inj_on (hash_vnode a) {..<VNODES_PER_BACKEND}"
    by (rule inj_onI) (rule inj, simp_all only: hash_vnode_eq xor_cancel lessThan_iff)
  then show ?thesis by (simp add: hash_vnode_eq distinct_map atLeast0LessThan)
qed

text \<open>C5. Minimal disruption: when a backend is appended and, on the new ring, no two virtual nodes of different
  backends have the same hash, every key goes to the new backend or keeps the backend it had.\<close>

theorem ring_hash_minimal_disruption:
  assumes "ring_hash_new bs = Ok s" and "ring_hash_new (bs @ [b]) = Ok s'"
    and owners: "\<And>p q. p \<in> set (ring_points 0 (bs @ [b])) \<Longrightarrow> q \<in> set (ring_points 0 (bs @ [b])) \<Longrightarrow>
      hash p = hash q \<Longrightarrow> backend_idx p = backend_idx q"
  shows "ring_hash_pick_with_key s' (bs @ [b]) key = Ok (length bs)
    \<or> ring_hash_pick_with_key s' (bs @ [b]) key = ring_hash_pick_with_key s bs key"
proof -
  from assms(2) obtain p where p: "clockwise (ring_points 0 (bs @ [b])) (hash_key key) p"
    "ring_hash_pick_with_key s' (bs @ [b]) key = Ok (backend_idx p)" by (rule ring_pick_point)
  from assms(1) obtain q where q: "clockwise (ring_points 0 bs) (hash_key key) q"
    "ring_hash_pick_with_key s bs key = Ok (backend_idx q)" by (rule ring_pick_point)
  have sub: "set (ring_points 0 bs) \<subseteq> set (ring_points 0 (bs @ [b]))"
    by (simp add: ring_points_append)
  show ?thesis
  proof (cases "p \<in> set (ring_points 0 bs)")
    case True
    have "hash p = hash q"
      using clockwise_restrict [OF p(1) True sub] q(1) by (rule clockwise_unique)
    moreover have "p \<in> set (ring_points 0 (bs @ [b]))" "q \<in> set (ring_points 0 (bs @ [b]))"
      using p(1) q(1) sub by (auto simp: clockwise_def)
    ultimately show ?thesis using owners [of p q] p(2) q(2) by simp
  next
    case False
    then have "backend_idx p = length bs"
      using p(1) by (auto simp: clockwise_def ring_points_append)
    then show ?thesis using p(2) by simp
  qed
qed

theorem ring_hash_minimal_disruption_witness:
  "\<exists>s s'. ring_hash_new [backend_new ''a'' 1] = Ok s \<and>
     ring_hash_new [backend_new ''a'' 1, backend_new ''b'' 1] = Ok s' \<and>
     (ring_hash_pick_with_key s' [backend_new ''a'' 1, backend_new ''b'' 1] 9 = Ok 1
      \<or> ring_hash_pick_with_key s' [backend_new ''a'' 1, backend_new ''b'' 1] 9
          = ring_hash_pick_with_key s [backend_new ''a'' 1] 9)"
proof -
  let ?a = "backend_new ''a'' 1" and ?b = "backend_new ''b'' 1"
  obtain s s' where s: "ring_hash_new [?a] = Ok s" "ring_hash_new ([?a] @ [?b]) = Ok s'"
    by (simp add: ring_hash_new_def)
  have ids: "backend_id ?a = ''a''" "backend_id ?b = ''b''" by (simp_all add: backend_new_def)
  have apart: "hash_vnode ''a'' v \<noteq> hash_vnode ''b'' w"
    if "v < VNODES_PER_BACKEND" "w < VNODES_PER_BACKEND" for v w
    by (rule hash_vnode_apart [OF _ that]) simp
  have owners: "backend_idx p = backend_idx q"
    if "p \<in> set (ring_points 0 ([?a] @ [?b]))" "q \<in> set (ring_points 0 ([?a] @ [?b]))" "hash p = hash q"
    for p q
    using that unfolding ring_points_mem
    by (elim exE conjE) (use apart in \<open>force simp: less_Suc_eq ids\<close>)
  have "ring_hash_pick_with_key s' ([?a] @ [?b]) 9 = Ok (length [?a])
      \<or> ring_hash_pick_with_key s' ([?a] @ [?b]) 9 = ring_hash_pick_with_key s [?a] 9"
    by (rule ring_hash_minimal_disruption [OF s]) (rule owners)
  with s show ?thesis by (intro exI [of _ s] exI [of _ s']) simp
qed

end
