(* ===== verification/Byte_Codec.thy ===== *)
theory Byte_Codec
  imports Prelude
begin

text \<open>
  What the binary codecs share: the \<open>?\<close> operator, big-endian integers, the decimal text of
  error messages, and the contract of a frame codec as a locale. A client that decodes a byte stream
  frame by frame is verified once in the locale and instantiated by the HTTP/2, HTTP/3 and gRPC codecs.
\<close>

section \<open>Fallible steps\<close>

text \<open>\<open>and_then r k\<close> is \<open>let x = r?; k(x)\<close>; \<open>ok_or\<close> is \<open>Option::ok_or\<close>.\<close>

definition and_then :: "('a, 'e) result \<Rightarrow> ('a \<Rightarrow> ('b, 'e) result) \<Rightarrow> ('b, 'e) result" where
  "and_then r k = (case r of Inl e \<Rightarrow> Inl e | Inr x \<Rightarrow> k x)"

definition ok_or :: "'a option \<Rightarrow> 'e \<Rightarrow> ('a, 'e) result" where
  "ok_or x e = (case x of None \<Rightarrow> Err e | Some y \<Rightarrow> Ok y)"

lemma and_then_simps [simp]: "and_then (Ok x) k = k x" "and_then (Err e) k = Err e"
  by (simp_all add: and_then_def)

lemma ok_or_simps [simp]: "ok_or (Some y) e = Ok y" "ok_or None e = Err e"
  by (simp_all add: ok_or_def)

lemma and_then_Ok: "and_then r k = Ok y \<longleftrightarrow> (\<exists>x. r = Ok x \<and> k x = Ok y)"
  by (cases r) auto

lemma ok_or_Ok: "ok_or x e = Ok y \<longleftrightarrow> x = Some y"
  by (cases x) auto

text \<open>\<open>Result::map_err\<close>.\<close>

definition map_err :: "('e \<Rightarrow> 'f) \<Rightarrow> ('a, 'e) result \<Rightarrow> ('a, 'f) result" where
  "map_err f r = (case r of Inl e \<Rightarrow> Err (f e) | Inr x \<Rightarrow> Ok x)"

lemma map_err_Ok [simp]: "map_err f r = Ok x \<longleftrightarrow> r = Ok x"
  by (auto simp: map_err_def split: sum.splits)

section \<open>Big-endian integers\<close>

definition put_u16 :: "u16 \<Rightarrow> bytes" where
  "put_u16 v = [ucast (drop_bit 8 v), ucast v]"

definition put_u32 :: "u32 \<Rightarrow> bytes" where
  "put_u32 v = [ucast (drop_bit 24 v), ucast (drop_bit 16 v), ucast (drop_bit 8 v), ucast v]"

definition be_u16 :: "u8 \<Rightarrow> u8 \<Rightarrow> u16" where
  "be_u16 b0 b1 = push_bit 8 (ucast b0) OR ucast b1"

definition be_u32 :: "u8 \<Rightarrow> u8 \<Rightarrow> u8 \<Rightarrow> u8 \<Rightarrow> u32" where
  "be_u32 b0 b1 b2 b3 =
     push_bit 24 (ucast b0) OR push_bit 16 (ucast b1) OR push_bit 8 (ucast b2) OR ucast b3"

lemma length_put [simp]: "length (put_u16 v) = 2" "length (put_u32 w) = 4"
  by (simp_all add: put_u16_def put_u32_def)

lemma be_u16_put: "be_u16 (ucast (drop_bit 8 v)) (ucast v) = v"
  unfolding be_u16_def by (rule bit_word_eqI) (auto simp: bit_simps)

lemma be_u32_put:
  "be_u32 (ucast (drop_bit 24 v)) (ucast (drop_bit 16 v)) (ucast (drop_bit 8 v)) (ucast v) = v"
proof (rule bit_word_eqI)
  fix n assume n: "n < LENGTH(32)"
  then consider "n < 8" | "8 \<le> n \<and> n < 16" | "16 \<le> n \<and> n < 24" | "24 \<le> n \<and> n < 32" by fastforce
  then show "bit (be_u32 (ucast (drop_bit 24 v)) (ucast (drop_bit 16 v)) (ucast (drop_bit 8 v)) (ucast v)) n
      = bit v n"
    by cases (auto simp: be_u32_def bit_simps)
qed

lemma put_be_u16: "put_u16 (be_u16 a b) = [a, b]"
proof -
  have "ucast (drop_bit 8 (be_u16 a b)) = a" "ucast (be_u16 a b) = b"
    by (rule bit_word_eqI; auto simp: be_u16_def bit_simps dest: bit_imp_le_length)+
  then show ?thesis by (simp add: put_u16_def)
qed

lemma put_be_u32: "put_u32 (be_u32 a b c d) = [a, b, c, d]"
proof -
  have "ucast (drop_bit 24 (be_u32 a b c d)) = a" "ucast (drop_bit 16 (be_u32 a b c d)) = b"
    "ucast (drop_bit 8 (be_u32 a b c d)) = c" "ucast (be_u32 a b c d) = d"
    by (rule bit_word_eqI; auto simp: be_u32_def bit_simps dest: bit_imp_le_length)+
  then show ?thesis by (simp add: put_u32_def)
qed

lemma u8_le: "unat (b :: u8) \<le> 255"
proof -
  have "unat b < Suc 255" by (rule order.strict_trans2 [OF unsigned_less]) simp
  then show ?thesis by (simp only: less_Suc_eq_le)
qed

text \<open>\<open>to_be_bytes\<close> and \<open>from_be_bytes\<close> of an unsigned integer of \<open>n\<close> bytes, as a natural.\<close>

fun to_be_bytes :: "nat \<Rightarrow> nat \<Rightarrow> bytes" where
  "to_be_bytes 0 v = []"
| "to_be_bytes (Suc n) v = to_be_bytes n (v div 256) @ [of_nat v]"

definition from_be_bytes :: "bytes \<Rightarrow> nat" where
  "from_be_bytes bs = foldl (\<lambda>v b. 256 * v + unat b) 0 bs"

lemma length_to_be_bytes [simp]: "length (to_be_bytes n v) = n"
  by (induction n v rule: to_be_bytes.induct) simp_all

lemma from_be_bytes_snoc: "from_be_bytes (bs @ [b]) = 256 * from_be_bytes bs + unat b"
  by (simp add: from_be_bytes_def)

lemma from_to_be_bytes: "v < 256 ^ n \<Longrightarrow> from_be_bytes (to_be_bytes n v) = v"
proof (induction n v rule: to_be_bytes.induct)
  case (2 n v)
  then have "v div 256 < 256 ^ n" by (simp add: less_mult_imp_div_less mult.commute)
  with 2 show ?case by (simp add: from_be_bytes_snoc unat_of_nat)
qed (simp add: from_be_bytes_def)

lemma to_from_be_bytes: "to_be_bytes (length bs) (from_be_bytes bs) = bs"
proof (induction bs rule: rev_induct)
  case (snoc b bs)
  have "unat b < 256" using unsigned_less [of b] by simp
  moreover have "256 * x = 0" for x :: u8
  proof -
    have "(256 :: u8) = 0" by code_simp
    then show ?thesis by (metis mult_zero_left)
  qed
  ultimately show ?case using snoc by (simp add: from_be_bytes_snoc)
qed simp

lemma from_be_bytes_bound: "from_be_bytes bs < 256 ^ length bs"
proof (induction bs rule: rev_induct)
  case (snoc b bs)
  have "unat b < 256" using unsigned_less [of b] by simp
  then have "256 * from_be_bytes bs + unat b < 256 * from_be_bytes bs + 256" by (rule add_strict_left_mono)
  also have "\<dots> = 256 * (from_be_bytes bs + 1)" by simp
  also have "\<dots> \<le> 256 * 256 ^ length bs" using snoc by simp
  finally show ?case by (simp add: from_be_bytes_snoc)
qed (simp add: from_be_bytes_def)

section \<open>Decimal text\<close>

function decimal :: "nat \<Rightarrow> string" where
  "decimal n = (if n < 10 then [char_of (n + 48)] else decimal (n div 10) @ [char_of (n mod 10 + 48)])"
  by pat_completeness auto
termination
  by (relation "measure id") auto

declare decimal.simps [simp del]

section \<open>Streams of frames\<close>

text \<open>The loop of a reader: decode frames off the front of a buffer until the decoder refuses. The
  result is the frames, the bytes left and the error that stopped it.\<close>

function decode_all :: "(bytes \<Rightarrow> ('f \<times> nat, 'e) result) \<Rightarrow> bytes \<Rightarrow> 'f list \<times> bytes \<times> 'e option" where
  "decode_all dec buf =
     (case dec buf of
        Inl e \<Rightarrow> ([], buf, Some e)
      | Inr (f, n) \<Rightarrow>
          if n = 0 \<or> buf = [] then ([], buf, None)
          else let (fs, rest, e) = decode_all dec (drop n buf) in (f # fs, rest, e))"
  by pat_completeness auto
termination
  by (relation "measure (\<lambda>(dec, buf). length buf)") auto

declare decode_all.simps [simp del]

locale frame_codec =
  fixes encode :: "'f \<Rightarrow> (bytes, 'e) result" and decode :: "bytes \<Rightarrow> ('f \<times> nat, 'e) result"
    and valid :: "'f \<Rightarrow> bool" and incomplete :: 'e
  assumes encode_ok: "valid f \<Longrightarrow> \<exists>bs. encode f = Ok bs \<and> bs \<noteq> []"
    and decode_encode: "valid f \<Longrightarrow> encode f = Ok bs \<Longrightarrow> decode (bs @ rest) = Ok (f, length bs)"
    and decode_prefix: "valid f \<Longrightarrow> encode f = Ok bs \<Longrightarrow> n < length bs \<Longrightarrow> decode (take n bs) = Err incomplete"
begin

definition wire :: "'f list \<Rightarrow> bytes" where
  "wire fs = concat (map (\<lambda>f. case encode f of Inr bs \<Rightarrow> bs | Inl _ \<Rightarrow> []) fs)"

lemma wire_simps [simp]: "wire [] = []" "valid f \<Longrightarrow> encode f = Ok bs \<Longrightarrow> wire (f # fs) = bs @ wire fs"
  by (simp_all add: wire_def)

lemma decode_wire:
  "\<forall>f \<in> set fs. valid f \<Longrightarrow>
     decode_all decode (wire fs @ rest) = (let (gs, r, e) = decode_all decode rest in (fs @ gs, r, e))"
proof (induction fs)
  case Nil
  then show ?case by (simp add: split_beta Let_def)
next
  case (Cons f fs)
  then have valid: "valid f" by simp
  then obtain bs where bs: "encode f = Ok bs" "bs \<noteq> []" using encode_ok by blast
  have "decode_all decode (bs @ wire fs @ rest) =
      (let (gs, r, e) = decode_all decode (wire fs @ rest) in (f # gs, r, e))"
    using bs by (subst decode_all.simps) (simp add: decode_encode [OF valid])
  with Cons show ?case by (simp add: bs valid split_beta Let_def)
qed

text \<open>Frames followed by a proper prefix of another frame: the reader returns the frames, keeps the
  prefix and asks for more input.\<close>

lemma decode_partial:
  assumes "\<forall>f \<in> set fs. valid f" and "valid f" and "encode f = Ok bs" and "n < length bs"
  shows "decode_all decode (wire fs @ take n bs) = (fs, take n bs, Some incomplete)"
  using decode_wire [OF assms(1), of "take n bs"] decode_prefix [OF assms(2-4)]
  by (subst (asm) (2) decode_all.simps) (simp add: Let_def)

text \<open>Hence distinct frame sequences have distinct encodings.\<close>

lemma wire_inj:
  assumes "\<forall>f \<in> set fs. valid f" and "\<forall>f \<in> set gs. valid f" and "wire fs = wire gs"
    and "decode [] = Err incomplete"
  shows "fs = gs"
proof -
  have "decode_all decode [] = ([], [], Some incomplete)"
    by (subst decode_all.simps) (simp add: assms(4))
  then show ?thesis
    using decode_wire [OF assms(1), of "[]"] decode_wire [OF assms(2), of "[]"] assms(3) by simp
qed

end

end
