(* ===== verification/H2_Frame.thy ===== *)
theory H2_Frame
  imports Byte_Codec
begin

text \<open>
  The HTTP/2 frame codec (\<open>lb-h2/src/frame.rs\<close>, \<open>lb-h2/src/error.rs\<close>): the ten frame types and
  the unknown ones, the 9-byte header, padding and priority stripping, SETTINGS parameters. Shown: a
  frame that respects the field widths round-trips for every buffer that follows it, a truncated frame
  is reported as incomplete, the decoder never consumes more than the announced frame, and padding
  does not change what is decoded.
\<close>

section \<open>Errors and frames\<close>

datatype h2_error =
    Incomplete
  | InvalidFrame string
  | UnknownFrameType u8
  | HpackError string
  | RapidReset nat
  | ContinuationFlood nat
  | HpackBomb nat nat nat
  | FrameTooLarge nat nat
  | SettingsFlood nat
  | PingFlood nat
  | ZeroWindowStall u32

abbreviation (input) FRAME_DATA :: u8 where "FRAME_DATA \<equiv> 0x0"
abbreviation (input) FRAME_HEADERS :: u8 where "FRAME_HEADERS \<equiv> 0x1"
abbreviation (input) FRAME_PRIORITY :: u8 where "FRAME_PRIORITY \<equiv> 0x2"
abbreviation (input) FRAME_RST_STREAM :: u8 where "FRAME_RST_STREAM \<equiv> 0x3"
abbreviation (input) FRAME_SETTINGS :: u8 where "FRAME_SETTINGS \<equiv> 0x4"
abbreviation (input) FRAME_PUSH_PROMISE :: u8 where "FRAME_PUSH_PROMISE \<equiv> 0x5"
abbreviation (input) FRAME_PING :: u8 where "FRAME_PING \<equiv> 0x6"
abbreviation (input) FRAME_GOAWAY :: u8 where "FRAME_GOAWAY \<equiv> 0x7"
abbreviation (input) FRAME_WINDOW_UPDATE :: u8 where "FRAME_WINDOW_UPDATE \<equiv> 0x8"
abbreviation (input) FRAME_CONTINUATION :: u8 where "FRAME_CONTINUATION \<equiv> 0x9"

abbreviation (input) FLAG_END_STREAM :: u8 where "FLAG_END_STREAM \<equiv> 0x1"
abbreviation (input) FLAG_ACK :: u8 where "FLAG_ACK \<equiv> 0x1"
abbreviation (input) FLAG_END_HEADERS :: u8 where "FLAG_END_HEADERS \<equiv> 0x4"
abbreviation (input) FLAG_PADDED :: u8 where "FLAG_PADDED \<equiv> 0x8"
abbreviation (input) FLAG_PRIORITY_FLAG :: u8 where "FLAG_PRIORITY_FLAG \<equiv> 0x20"

text \<open>The fields in the order of the source: stream identifier first where there is one.\<close>

datatype h2_frame =
    Data u32 bytes bool
  | Headers u32 bytes bool bool
  | Priority u32 u32 u8 bool
  | RstStream u32 u32
  | Settings bool "(u16 \<times> u32) list"
  | PushPromise u32 u32 bytes
  | Ping bool bytes
  | GoAway u32 u32 bytes
  | WindowUpdate u32 u32
  | Continuation u32 bytes bool
  | Unknown u8 u32 u8 bytes

section \<open>Decoding\<close>

definition strip_padding :: "bytes \<Rightarrow> (bytes, h2_error) result" where
  "strip_padding payload =
     and_then (ok_or (get payload 0) (InvalidFrame ''PADDED frame with empty payload'')) (\<lambda>b.
       let pad_len = unat b in
       if pad_len + 1 > length payload then
         Err (InvalidFrame (''PADDED pad_length '' @ decimal pad_len @ '' exceeds payload size ''
           @ decimal (length payload) @ '' ''))
       else
         ok_or (get_range payload 1 (length payload - pad_len))
           (InvalidFrame ''PADDED inner slice out of range''))"

definition read_u32_be :: "bytes \<Rightarrow> (u32, h2_error) result" where
  "read_u32_be buf =
     and_then (ok_or (get buf 0) Incomplete) (\<lambda>b0.
     and_then (ok_or (get buf 1) Incomplete) (\<lambda>b1.
     and_then (ok_or (get buf 2) Incomplete) (\<lambda>b2.
     and_then (ok_or (get buf 3) Incomplete) (\<lambda>b3. Ok (be_u32 b0 b1 b2 b3)))))"

definition read_u16_be :: "bytes \<Rightarrow> (u16, h2_error) result" where
  "read_u16_be buf =
     and_then (ok_or (get buf 0) Incomplete) (\<lambda>b0.
     and_then (ok_or (get buf 1) Incomplete) (\<lambda>b1. Ok (be_u16 b0 b1)))"

record frame_header =
  hdr_length :: nat
  hdr_type :: u8
  hdr_flags :: u8
  hdr_stream_id :: u32

definition parse_frame_header :: "bytes \<Rightarrow> (frame_header, h2_error) result" where
  "parse_frame_header buf =
     (if length buf < 9 then Err Incomplete
      else
        and_then (ok_or (get buf 0) Incomplete) (\<lambda>b0.
        and_then (ok_or (get buf 1) Incomplete) (\<lambda>b1.
        and_then (ok_or (get buf 2) Incomplete) (\<lambda>b2.
        let len = unat (push_bit 16 (ucast b0) OR push_bit 8 (ucast b1) OR ucast b2 :: u32) in
        and_then (ok_or (get buf 3) Incomplete) (\<lambda>ty.
        and_then (ok_or (get buf 4) Incomplete) (\<lambda>fl.
        and_then (ok_or (get_range buf 5 9) Incomplete) (\<lambda>sid_bytes.
        and_then (read_u32_be sid_bytes) (\<lambda>raw_sid.
        Ok \<lparr>hdr_length = len, hdr_type = ty, hdr_flags = fl,
            hdr_stream_id = raw_sid AND 0x7FFFFFFF\<rparr>))))))))"

definition flag_set :: "u8 \<Rightarrow> u8 \<Rightarrow> bool" where
  "flag_set fl f \<longleftrightarrow> fl AND f \<noteq> 0"

definition decode_frame_low :: "u8 \<Rightarrow> u8 \<Rightarrow> u32 \<Rightarrow> bytes \<Rightarrow> (h2_frame, h2_error) result" where
  "decode_frame_low ty fl sid payload =
     (if ty = FRAME_DATA then
        and_then (if flag_set fl FLAG_PADDED then strip_padding payload else Ok payload) (\<lambda>data_slice.
        Ok (Data sid data_slice (flag_set fl FLAG_END_STREAM)))
      else if ty = FRAME_HEADERS then
        and_then (if flag_set fl FLAG_PADDED then strip_padding payload else Ok payload) (\<lambda>unpadded.
        and_then (if flag_set fl FLAG_PRIORITY_FLAG then
                    if length unpadded < 5 then
                      Err (InvalidFrame ''HEADERS with PRIORITY flag but payload too short'')
                    else ok_or (get_range unpadded 5 (length unpadded))
                           (InvalidFrame ''HEADERS priority slice'')
                  else Ok unpadded) (\<lambda>hdr_payload.
        Ok (Headers sid hdr_payload (flag_set fl FLAG_END_STREAM) (flag_set fl FLAG_END_HEADERS))))
      else if ty = FRAME_PRIORITY then
        if length payload \<noteq> 5 then Err (InvalidFrame ''PRIORITY frame must be 5 bytes'')
        else
          and_then (ok_or (get_range payload 0 4) Incomplete) (\<lambda>dep_bytes.
          and_then (read_u32_be dep_bytes) (\<lambda>dep_raw.
          and_then (ok_or (get payload 4) Incomplete) (\<lambda>w.
          Ok (Priority sid (dep_raw AND 0x7FFFFFFF) w (dep_raw AND 0x80000000 \<noteq> 0)))))
      else if ty = FRAME_RST_STREAM then
        if length payload \<noteq> 4 then Err (InvalidFrame ''RST_STREAM frame must be 4 bytes'')
        else and_then (read_u32_be payload) (\<lambda>code. Ok (RstStream sid code))
      else Err (InvalidFrame (''unexpected frame type in decode_frame_low: '' @ decimal (unat ty))))"

function read_params :: "bytes \<Rightarrow> nat \<Rightarrow> ((u16 \<times> u32) list, h2_error) result" where
  "read_params payload i =
     (if i + 6 \<le> length payload then
        and_then (ok_or (get_range payload i (i + 2)) Incomplete) (\<lambda>id_bytes.
        and_then (read_u16_be id_bytes) (\<lambda>ident.
        and_then (ok_or (get_range payload (i + 2) (i + 6)) Incomplete) (\<lambda>val_bytes.
        and_then (read_u32_be val_bytes) (\<lambda>val.
        and_then (read_params payload (i + 6)) (\<lambda>rest. Ok ((ident, val) # rest))))))
      else Ok [])"
  by pat_completeness auto
termination
  by (relation "measure (\<lambda>(payload, i). length payload - i)") auto

declare read_params.simps [simp del]

definition decode_frame_high :: "u8 \<Rightarrow> u8 \<Rightarrow> u32 \<Rightarrow> bytes \<Rightarrow> (h2_frame, h2_error) result" where
  "decode_frame_high ty fl sid payload =
     (if ty = FRAME_SETTINGS then
        let is_ack = flag_set fl FLAG_ACK in
        if is_ack \<and> payload \<noteq> [] then Err (InvalidFrame ''SETTINGS ACK must have empty payload'')
        else if length payload mod 6 \<noteq> 0 then
          Err (InvalidFrame ''SETTINGS payload must be multiple of 6'')
        else and_then (read_params payload 0) (\<lambda>ps. Ok (Settings is_ack ps))
      else if ty = FRAME_PUSH_PROMISE then
        if length payload < 4 then Err (InvalidFrame ''PUSH_PROMISE too short'')
        else
          and_then (ok_or (get_range payload 0 4) Incomplete) (\<lambda>promised_bytes.
          and_then (read_u32_be promised_bytes) (\<lambda>promised_raw.
          and_then (ok_or (get_range payload 4 (length payload)) Incomplete) (\<lambda>block.
          Ok (PushPromise sid (promised_raw AND 0x7FFFFFFF) block))))
      else if ty = FRAME_PING then
        if length payload \<noteq> 8 then Err (InvalidFrame ''PING frame must be 8 bytes'')
        else and_then (ok_or (get_range payload 0 8) Incomplete) (\<lambda>src.
             Ok (Ping (flag_set fl FLAG_ACK) src))
      else if ty = FRAME_GOAWAY then
        if length payload < 8 then Err (InvalidFrame ''GOAWAY frame must be at least 8 bytes'')
        else
          and_then (ok_or (get_range payload 0 4) Incomplete) (\<lambda>last_bytes.
          and_then (read_u32_be last_bytes) (\<lambda>last_raw.
          and_then (ok_or (get_range payload 4 8) Incomplete) (\<lambda>code_bytes.
          and_then (read_u32_be code_bytes) (\<lambda>code.
          and_then (ok_or (get_range payload 8 (length payload)) Incomplete) (\<lambda>debug.
          Ok (GoAway (last_raw AND 0x7FFFFFFF) code debug))))))
      else if ty = FRAME_WINDOW_UPDATE then
        if length payload \<noteq> 4 then Err (InvalidFrame ''WINDOW_UPDATE must be 4 bytes'')
        else and_then (read_u32_be payload) (\<lambda>raw. Ok (WindowUpdate sid (raw AND 0x7FFFFFFF)))
      else if ty = FRAME_CONTINUATION then
        Ok (Continuation sid payload (flag_set fl FLAG_END_HEADERS))
      else Ok (Unknown ty sid fl payload))"

definition DEFAULT_MAX_FRAME_SIZE :: nat where
  "DEFAULT_MAX_FRAME_SIZE = 16384"

text \<open>The match on the frame type.\<close>

definition decode_payload :: "u8 \<Rightarrow> u8 \<Rightarrow> u32 \<Rightarrow> bytes \<Rightarrow> (h2_frame, h2_error) result" where
  "decode_payload ty fl sid payload =
     (if ty \<in> {FRAME_DATA, FRAME_HEADERS, FRAME_PRIORITY, FRAME_RST_STREAM}
      then decode_frame_low ty fl sid payload else decode_frame_high ty fl sid payload)"

definition decode_frame :: "bytes \<Rightarrow> nat \<Rightarrow> (h2_frame \<times> nat, h2_error) result" where
  "decode_frame buf max_frame_size =
     and_then (parse_frame_header buf) (\<lambda>hdr.
       if hdr_length hdr > max_frame_size then Err (FrameTooLarge (hdr_length hdr) max_frame_size)
       else
         let total = 9 + hdr_length hdr in
         if length buf < total then Err Incomplete
         else
           and_then (ok_or (get_range buf 9 total) Incomplete) (\<lambda>payload.
           and_then (decode_payload (hdr_type hdr) (hdr_flags hdr) (hdr_stream_id hdr) payload)
             (\<lambda>frame. Ok (frame, total))))"

section \<open>Encoding\<close>

text \<open>The bytes a call appends to the buffer.\<close>

definition write_header :: "nat \<Rightarrow> u8 \<Rightarrow> u8 \<Rightarrow> u32 \<Rightarrow> (bytes, h2_error) result" where
  "write_header len ty fl sid =
     (if len > 0x00FFFFFF then
        Err (InvalidFrame (''payload length '' @ decimal len @ '' exceeds 24-bit max''))
      else
        let l = of_nat len :: u32 in
        Ok ([ucast (drop_bit 16 l AND 0xFF), ucast (drop_bit 8 l AND 0xFF), ucast (l AND 0xFF), ty, fl]
            @ put_u32 (sid AND 0x7FFFFFFF)))"

definition with_header :: "nat \<Rightarrow> u8 \<Rightarrow> u8 \<Rightarrow> u32 \<Rightarrow> bytes \<Rightarrow> (bytes, h2_error) result" where
  "with_header len ty fl sid body = and_then (write_header len ty fl sid) (\<lambda>h. Ok (h @ body))"

fun encode_frame_lower :: "h2_frame \<Rightarrow> (bytes, h2_error) result" where
  "encode_frame_lower (Data sid payload es) =
     with_header (length payload) FRAME_DATA (if es then FLAG_END_STREAM else 0) sid payload"
| "encode_frame_lower (Headers sid block es eh) =
     with_header (length block) FRAME_HEADERS
       ((if es then FLAG_END_STREAM else 0) OR (if eh then FLAG_END_HEADERS else 0)) sid block"
| "encode_frame_lower (Priority sid dep w excl) =
     with_header 5 FRAME_PRIORITY 0 sid
       (put_u32 (if excl then dep OR 0x80000000 else dep) @ [w])"
| "encode_frame_lower (RstStream sid code) = with_header 4 FRAME_RST_STREAM 0 sid (put_u32 code)"
| "encode_frame_lower (Settings ac ps) =
     with_header (length ps * 6) FRAME_SETTINGS (if ac then FLAG_ACK else 0) 0
       (concat (map (\<lambda>(ident, val). put_u16 ident @ put_u32 val) ps))"
| "encode_frame_lower _ = Ok []"

fun encode_frame_upper :: "h2_frame \<Rightarrow> (bytes, h2_error) result" where
  "encode_frame_upper (PushPromise sid promised block) =
     with_header (4 + length block) FRAME_PUSH_PROMISE 0 sid
       (put_u32 (promised AND 0x7FFFFFFF) @ block)"
| "encode_frame_upper (Ping ac data) =
     with_header 8 FRAME_PING (if ac then FLAG_ACK else 0) 0 data"
| "encode_frame_upper (GoAway last_id code debug) =
     with_header (8 + length debug) FRAME_GOAWAY 0 0
       (put_u32 (last_id AND 0x7FFFFFFF) @ put_u32 code @ debug)"
| "encode_frame_upper (WindowUpdate sid inc) =
     with_header 4 FRAME_WINDOW_UPDATE 0 sid (put_u32 (inc AND 0x7FFFFFFF))"
| "encode_frame_upper (Continuation sid block eh) =
     with_header (length block) FRAME_CONTINUATION (if eh then FLAG_END_HEADERS else 0) sid block"
| "encode_frame_upper (Unknown ty sid fl payload) = with_header (length payload) ty fl sid payload"
| "encode_frame_upper _ = Ok []"

fun encode_frame :: "h2_frame \<Rightarrow> (bytes, h2_error) result" where
  "encode_frame (Data sid p es) = encode_frame_lower (Data sid p es)"
| "encode_frame (Headers sid b es eh) = encode_frame_lower (Headers sid b es eh)"
| "encode_frame (Priority sid d w e) = encode_frame_lower (Priority sid d w e)"
| "encode_frame (RstStream sid c) = encode_frame_lower (RstStream sid c)"
| "encode_frame (Settings a ps) = encode_frame_lower (Settings a ps)"
| "encode_frame f = encode_frame_upper f"

section \<open>Headers\<close>

lemma mask31: "x < 0x80000000 \<Longrightarrow> x AND 0x7FFFFFFF = x" for x :: u32
proof -
  assume "x < 0x80000000"
  then have "take_bit 31 x = x"
    by (simp add: word_less_nat_alt word_unat_eq_iff unsigned_take_bit_eq take_bit_nat_eq_self)
  then show ?thesis by (simp add: take_bit_eq_mask mask_eq_exp_minus_1)
qed

lemma mask31_less: "x AND 0x7FFFFFFF < (0x80000000 :: u32)"
  by (rule le_less_trans [OF word_and_le1]) simp

lemma len24:
  assumes "n < 2 ^ 24"
  shows "(let l = of_nat n :: u32 in
    push_bit 16 (ucast (ucast (drop_bit 16 l AND 0xFF) :: u8)) OR
    push_bit 8 (ucast (ucast (drop_bit 8 l AND 0xFF) :: u8)) OR ucast (ucast (l AND 0xFF) :: u8)) = (of_nat n :: u32)"
proof -
  have ff: "(0xFF :: u32) = mask 8" by (simp add: mask_eq_exp_minus_1)
  define l where "l = (of_nat n :: u32)"
  have "take_bit 24 l = l"
    using assms by (simp add: l_def take_bit_of_nat take_bit_nat_eq_self flip: of_nat_take_bit)
  then have small: "k < 24" if "bit l k" for k
    using that by (metis bit_take_bit_iff)
  show ?thesis
    unfolding l_def [symmetric] Let_def ff
  proof (rule bit_word_eqI)
    fix k assume "k < LENGTH(32)"
    consider "k < 8" | "8 \<le> k \<and> k < 16" | "16 \<le> k \<and> k < 24" | "24 \<le> k" by fastforce
    then show "bit (push_bit 16 (ucast (ucast (drop_bit 16 l AND mask 8) :: u8)) OR
        push_bit 8 (ucast (ucast (drop_bit 8 l AND mask 8) :: u8)) OR
        ucast (ucast (l AND mask 8) :: u8) :: u32) k = bit l k"
      by cases (use \<open>k < LENGTH(32)\<close> small [of k] in \<open>auto simp: bit_simps\<close>)
  qed
qed

lemma read_u32_put [simp]: "read_u32_be (put_u32 v) = Ok v"
  by (simp add: read_u32_be_def put_u32_def be_u32_put)

lemma read_u16_put [simp]: "read_u16_be (put_u16 v) = Ok v"
  by (simp add: read_u16_be_def put_u16_def be_u16_put)

lemma parse_written:
  assumes "write_header len ty fl sid = Ok h"
  shows "length h = 9"
    and "parse_frame_header (h @ rest) = Ok \<lparr>hdr_length = len, hdr_type = ty, hdr_flags = fl,
           hdr_stream_id = sid AND 0x7FFFFFFF\<rparr>"
proof -
  have len: "len < 2 ^ 24" and h: "h = (let l = of_nat len :: u32 in
      [ucast (drop_bit 16 l AND 0xFF), ucast (drop_bit 8 l AND 0xFF), ucast (l AND 0xFF), ty, fl]
        @ put_u32 (sid AND 0x7FFFFFFF))"
    using assms by (auto simp: write_header_def Let_def split: if_splits)
  show "length h = 9" by (simp add: h Let_def)
  have "get_range (h @ rest) 5 9 = Some (put_u32 (sid AND 0x7FFFFFFF))"
    by (simp add: h Let_def get_range_def)
  moreover have "unat (of_nat len :: u32) = len" using len by (simp add: unat_of_nat)
  ultimately show "parse_frame_header (h @ rest) = Ok \<lparr>hdr_length = len, hdr_type = ty, hdr_flags = fl,
           hdr_stream_id = sid AND 0x7FFFFFFF\<rparr>"
    using len24 [OF len] \<open>length h = 9\<close>
    by (simp add: parse_frame_header_def mask31 mask31_less) (simp add: h Let_def)
qed

lemma parse_short: "length buf < 9 \<Longrightarrow> parse_frame_header buf = Err Incomplete"
  by (simp add: parse_frame_header_def)

text \<open>A frame written with its header is dispatched with exactly its payload, and waits for its
  last byte.\<close>

lemma decode_with_header:
  assumes "with_header (length body) ty fl sid body = Ok bs" and "length body \<le> mx"
  shows "length bs = 9 + length body"
    and "decode_frame (bs @ rest) mx =
      and_then (decode_payload ty fl (sid AND 0x7FFFFFFF) body) (\<lambda>f. Ok (f, length bs))"
    and "n < length bs \<Longrightarrow> decode_frame (take n bs) mx = Err Incomplete"
proof -
  obtain h where h: "write_header (length body) ty fl sid = Ok h" and bs: "bs = h @ body"
    using assms(1) by (auto simp: with_header_def and_then_Ok)
  note parse = parse_written [OF h]
  show len: "length bs = 9 + length body" using parse(1) by (simp add: bs)
  have "get_range (h @ body @ rest) 9 (9 + length body) = Some body"
    using range_append [of h body rest] parse(1) by simp
  then show "decode_frame (bs @ rest) mx =
      and_then (decode_payload ty fl (sid AND 0x7FFFFFFF) body) (\<lambda>f. Ok (f, length bs))"
    using parse assms(2) by (simp add: decode_frame_def bs len)
  show "decode_frame (take n bs) mx = Err Incomplete" if "n < length bs"
  proof (cases "n < 9")
    case True
    then show ?thesis by (simp add: decode_frame_def parse_short)
  next
    case False
    then have "take n bs = h @ take (n - 9) body" using parse(1) by (simp add: bs)
    moreover have "n - 9 < length body" using that len False by simp
    ultimately show ?thesis
      using parse assms(2) by (simp add: decode_frame_def)
  qed
qed

section \<open>Round trip\<close>

text \<open>The frames the wire format can carry: identifiers and increments of 31 bits, a payload within the
  limit, an empty SETTINGS acknowledgement, eight bytes of PING data, an unknown type that is unknown.\<close>

fun wf_frame :: "nat \<Rightarrow> h2_frame \<Rightarrow> bool" where
  "wf_frame mx (Data sid p es) \<longleftrightarrow> sid < 0x80000000 \<and> length p \<le> mx"
| "wf_frame mx (Headers sid b es eh) \<longleftrightarrow> sid < 0x80000000 \<and> length b \<le> mx"
| "wf_frame mx (Priority sid dep w e) \<longleftrightarrow> sid < 0x80000000 \<and> dep < 0x80000000 \<and> 5 \<le> mx"
| "wf_frame mx (RstStream sid c) \<longleftrightarrow> sid < 0x80000000 \<and> 4 \<le> mx"
| "wf_frame mx (Settings a ps) \<longleftrightarrow> (a \<longrightarrow> ps = []) \<and> length ps * 6 \<le> mx"
| "wf_frame mx (PushPromise sid pid b) \<longleftrightarrow> sid < 0x80000000 \<and> pid < 0x80000000 \<and> 4 + length b \<le> mx"
| "wf_frame mx (Ping a d) \<longleftrightarrow> length d = 8 \<and> 8 \<le> mx"
| "wf_frame mx (GoAway l c d) \<longleftrightarrow> l < 0x80000000 \<and> 8 + length d \<le> mx"
| "wf_frame mx (WindowUpdate sid i) \<longleftrightarrow> sid < 0x80000000 \<and> i < 0x80000000 \<and> 4 \<le> mx"
| "wf_frame mx (Continuation sid b eh) \<longleftrightarrow> sid < 0x80000000 \<and> length b \<le> mx"
| "wf_frame mx (Unknown ty sid fl p) \<longleftrightarrow> 9 < ty \<and> sid < 0x80000000 \<and> length p \<le> mx"

text \<open>The four fields of the wire format of a frame.\<close>

fun wire_fields :: "h2_frame \<Rightarrow> u8 \<times> u8 \<times> u32 \<times> bytes" where
  "wire_fields (Data sid p es) = (FRAME_DATA, if es then FLAG_END_STREAM else 0, sid, p)"
| "wire_fields (Headers sid b es eh) = (FRAME_HEADERS,
     (if es then FLAG_END_STREAM else 0) OR (if eh then FLAG_END_HEADERS else 0), sid, b)"
| "wire_fields (Priority sid dep w e) = (FRAME_PRIORITY, 0, sid,
     put_u32 (if e then dep OR 0x80000000 else dep) @ [w])"
| "wire_fields (RstStream sid c) = (FRAME_RST_STREAM, 0, sid, put_u32 c)"
| "wire_fields (Settings a ps) = (FRAME_SETTINGS, if a then FLAG_ACK else 0, 0,
     concat (map (\<lambda>(ident, val). put_u16 ident @ put_u32 val) ps))"
| "wire_fields (PushPromise sid pid b) = (FRAME_PUSH_PROMISE, 0, sid, put_u32 (pid AND 0x7FFFFFFF) @ b)"
| "wire_fields (Ping a d) = (FRAME_PING, if a then FLAG_ACK else 0, 0, d)"
| "wire_fields (GoAway l c d) = (FRAME_GOAWAY, 0, 0, put_u32 (l AND 0x7FFFFFFF) @ put_u32 c @ d)"
| "wire_fields (WindowUpdate sid i) = (FRAME_WINDOW_UPDATE, 0, sid, put_u32 (i AND 0x7FFFFFFF))"
| "wire_fields (Continuation sid b eh) =
     (FRAME_CONTINUATION, if eh then FLAG_END_HEADERS else 0, sid, b)"
| "wire_fields (Unknown ty sid fl p) = (ty, fl, sid, p)"

lemma length_params: "length (concat (map (\<lambda>(ident, val). put_u16 ident @ put_u32 val) ps)) = length ps * 6"
  by (induction ps) auto

lemma encode_wire:
  assumes "wf_frame mx f"
  shows "encode_frame f = (case wire_fields f of (ty, fl, sid, body) \<Rightarrow>
    with_header (length body) ty fl sid body)"
  using assms by (cases f) (simp_all add: length_params)

lemma wire_sid: "wf_frame mx f \<Longrightarrow> wire_fields f = (ty, fl, sid, body) \<Longrightarrow>
    sid AND 0x7FFFFFFF = sid \<and> length body \<le> mx"
  by (cases f) (auto simp: mask31 length_params)

lemma exclusive_bit:
  assumes "dep < 0x80000000"
  shows "(dep OR 0x80000000) AND 0x7FFFFFFF = dep" "(dep OR 0x80000000) AND 0x80000000 = (0x80000000 :: u32)"
    "dep AND 0x80000000 = 0"
proof -
  have top: "(0x80000000 :: u32) AND 0x7FFFFFFF = 0" by simp
  show "(dep OR 0x80000000) AND 0x7FFFFFFF = dep"
    by (simp only: and.commute [of _ "0x7FFFFFFF"] bit.conj_disj_distrib top) (simp add: and.commute mask31 assms)
  show "(dep OR 0x80000000) AND 0x80000000 = (0x80000000 :: u32)"
    by (simp add: bit.conj_disj_distrib2)
  have "dep AND 0x80000000 = (dep AND 0x7FFFFFFF) AND 0x80000000" by (simp add: mask31 assms)
  also have "\<dots> = 0" by (simp add: and.assoc)
  finally show "dep AND 0x80000000 = 0" .
qed

lemma read_params_wire:
  "read_params (pre @ concat (map (\<lambda>(ident, val). put_u16 ident @ put_u32 val) ps)) (length pre) = Ok ps"
proof (induction ps arbitrary: pre)
  case Nil
  then show ?case by (subst read_params.simps) simp
next
  case (Cons p ps)
  obtain i v where p: "p = (i, v)" by fastforce
  let ?tail = "concat (map (\<lambda>(ident, val). put_u16 ident @ put_u32 val) ps)"
  have r1: "get_range (pre @ put_u16 i @ put_u32 v @ ?tail) (length pre) (length pre + 2) = Some (put_u16 i)"
    using range_append [of pre "put_u16 i" "put_u32 v @ ?tail"] by simp
  have r2: "get_range (pre @ put_u16 i @ put_u32 v @ ?tail) (length pre + 2) (length pre + 6) = Some (put_u32 v)"
    using range_append [of "pre @ put_u16 i" "put_u32 v" ?tail]
    by (simp only: append_assoc length_append length_put add.assoc) simp
  show ?case
    using Cons.IH [of "pre @ put_u16 i @ put_u32 v"] r1 r2
    by (subst read_params.simps) (simp add: p)
qed

lemma high_type: "9 < ty \<Longrightarrow> ty \<notin> {0, 1, 2, 3, 4, 5, 6, 7, 8, 9}" for ty :: u8
  by auto

lemma get_range_split:
  "get_range (xs @ ys) 0 (length xs) = Some xs" "get_range (xs @ ys) (length xs) (length xs + length ys) = Some ys"
  by (simp_all add: get_range_def)

lemma decode_wire_fields:
  assumes "wf_frame mx f" and "wire_fields f = (ty, fl, sid, body)"
  shows "decode_payload ty fl sid body = Ok f"
proof (cases f)
  case (Priority s dep w e)
  then show ?thesis using assms get_range_split(1) [of "put_u32 (if e then dep OR 0x80000000 else dep)" "[w]"]
    by (auto simp: decode_payload_def decode_frame_low_def get_def nth_append exclusive_bit mask31)
next
  case (Settings a ps)
  then show ?thesis using assms read_params_wire [of "[]" ps]
    by (auto simp: decode_payload_def decode_frame_high_def length_params flag_set_def Let_def)
next
  case (PushPromise s pid b)
  then show ?thesis using assms get_range_split [of "put_u32 (pid AND 0x7FFFFFFF)" b]
    by (auto simp: decode_payload_def decode_frame_high_def mask31)
next
  case (GoAway l c d)
  then show ?thesis
    using assms get_range_split(1) [of "put_u32 (l AND 0x7FFFFFFF)" "put_u32 c @ d"]
      range_append [of "put_u32 (l AND 0x7FFFFFFF)" "put_u32 c" d]
      get_range_split(2) [of "put_u32 (l AND 0x7FFFFFFF) @ put_u32 c" d]
    by (auto simp: decode_payload_def decode_frame_high_def mask31)
next
  case (Unknown t s fl' p)
  then show ?thesis using assms high_type [of t] by (auto simp: decode_payload_def decode_frame_high_def)
qed (use assms in \<open>auto simp: decode_payload_def decode_frame_low_def decode_frame_high_def flag_set_def
      mask31 get_range_def split: if_splits\<close>)

lemma h2_codec:
  assumes "mx \<le> 0xFFFFFF"
  shows "frame_codec encode_frame (\<lambda>buf. decode_frame buf mx) (wf_frame mx) Incomplete"
proof
  fix f bs assume wf: "wf_frame mx f"
  obtain ty fl sid body where w: "wire_fields f = (ty, fl, sid, body)" by (cases "wire_fields f")
  note sid = wire_sid [OF wf w]
  have enc: "encode_frame f = with_header (length body) ty fl sid body"
    by (simp add: encode_wire [OF wf] w)
  show "\<exists>bs. encode_frame f = Ok bs \<and> bs \<noteq> []"
    using sid assms by (simp add: enc with_header_def write_header_def Let_def)
  assume "encode_frame f = Ok bs"
  then have bs: "with_header (length body) ty fl sid body = Ok bs" by (simp add: enc)
  note dec = decode_with_header [OF bs, of mx]
  show "decode_frame (bs @ rest) mx = Ok (f, length bs)" for rest
    using dec(2) sid decode_wire_fields [OF wf w] by simp
  show "decode_frame (take n bs) mx = Err Incomplete" if "n < length bs" for n
    using dec(3) that sid by simp
qed

interpretation h2: frame_codec encode_frame "\<lambda>buf. decode_frame buf DEFAULT_MAX_FRAME_SIZE"
  "wf_frame DEFAULT_MAX_FRAME_SIZE" Incomplete
  by (rule h2_codec) (simp add: DEFAULT_MAX_FRAME_SIZE_def)

section \<open>What the decoder consumes\<close>

lemma parse_prefix:
  "9 \<le> n \<Longrightarrow> n \<le> length buf \<Longrightarrow> parse_frame_header (take n buf @ rest) = parse_frame_header buf"
  by (simp add: parse_frame_header_def get_prefix get_range_prefix)

lemma flag_set_or: "(fl OR FLAG_PADDED) AND f = fl AND f" if "f \<in> {0x1, 0x4, 0x20}" for fl f :: u8
  using that by (auto simp: bit.conj_disj_distrib2)

lemma strip_padded:
  assumes "length pad < 256"
  shows "strip_padding (of_nat (length pad) # data @ pad) = Ok data"
proof -
  have "unat (of_nat (length pad) :: u8) = length pad" using assms by (simp add: unat_of_nat)
  moreover have "get_range (of_nat (length pad) # data @ pad) 1 (Suc (length data)) = Some data"
    by (simp add: get_range_def)
  ultimately show ?thesis by (simp add: strip_padding_def)
qed

section \<open>Properties\<close>

text \<open>C8. A stream of HTTP/2 frames survives the wire: any frames within the field widths and the size
  limit, encoded one after the other and followed by a truncated further frame, are decoded to exactly
  those frames; the truncated bytes are kept and reported as incomplete.\<close>

theorem h2_stream_roundtrip:
  assumes "mx \<le> 0xFFFFFF" and "\<forall>f \<in> set fs. wf_frame mx f" and "wf_frame mx g"
    and "encode_frame g = Ok bs" and "n < length bs"
  shows "decode_all (\<lambda>buf. decode_frame buf mx)
      (concat (map (\<lambda>f. case encode_frame f of Inr b \<Rightarrow> b | Inl _ \<Rightarrow> []) fs) @ take n bs)
    = (fs, take n bs, Some Incomplete)"
  using frame_codec.decode_partial [OF h2_codec [OF assms(1)] assms(2-5)]
  by (simp add: frame_codec.wire_def [OF h2_codec [OF assms(1)]])

theorem h2_stream_roundtrip_witness:
  "\<exists>bs. encode_frame (Ping True [1, 2, 3, 4, 5, 6, 7, 8]) = Ok bs \<and>
     decode_all (\<lambda>buf. decode_frame buf 16384)
      (concat (map (\<lambda>f. case encode_frame f of Inr b \<Rightarrow> b | Inl _ \<Rightarrow> [])
         [Settings False [(3, 100)], Priority 5 3 16 True, Unknown 0xF0 7 0 [1]]) @ take 16 bs)
     = ([Settings False [(3, 100)], Priority 5 3 16 True, Unknown 0xF0 7 0 [1]], take 16 bs, Some Incomplete)"
proof -
  let ?g = "Ping True [1, 2, 3, 4, 5, 6, 7, 8]"
  obtain bs where bs: "encode_frame ?g = Ok bs" "length bs = 17"
    by (simp add: with_header_def write_header_def Let_def)
  have "decode_all (\<lambda>buf. decode_frame buf 16384)
      (concat (map (\<lambda>f. case encode_frame f of Inr b \<Rightarrow> b | Inl _ \<Rightarrow> [])
         [Settings False [(3, 100)], Priority 5 3 16 True, Unknown 0xF0 7 0 [1]]) @ take 16 bs)
     = ([Settings False [(3, 100)], Priority 5 3 16 True, Unknown 0xF0 7 0 [1]], take 16 bs, Some Incomplete)"
    by (rule h2_stream_roundtrip [where g = ?g]) (use bs in simp_all)
  with bs show ?thesis by blast
qed

text \<open>The decoder stays inside the frame it announces: when it returns a frame it has consumed at
  least the nine header bytes, no more than the buffer holds and no more than the size limit allows,
  and any bytes after the consumed ones leave the result unchanged.\<close>

lemma h2_decode_consumes:
  assumes "decode_frame buf mx = Ok (f, n)"
  shows "9 \<le> n \<and> n \<le> length buf \<and> n \<le> 9 + mx \<and> decode_frame (take n buf @ rest) mx = Ok (f, n)"
proof -
  obtain hdr where hdr: "parse_frame_header buf = Ok hdr" "hdr_length hdr \<le> mx"
    "n = 9 + hdr_length hdr" "n \<le> length buf"
    using assms by (auto simp: decode_frame_def and_then_Ok Let_def split: if_splits)
  then have "decode_frame (take n buf @ rest) mx = decode_frame buf mx"
    by (simp add: decode_frame_def parse_prefix get_range_prefix)
  with hdr assms show ?thesis by simp
qed

lemma h2_decode_consumes_witness:
  "9 \<le> (13 :: nat) \<and> decode_frame (take 13 [0, 0, 4, 3, 0, 0, 0, 0, 1, 0, 0, 0, 8, 99] @ [7]) 16384
     = Ok (RstStream 1 8, 13)"
proof -
  have "decode_frame [0, 0, 4, 3, 0, 0, 0, 0, 1, 0, 0, 0, 8, 99] 16384 = Ok (RstStream 1 8, 13)"
    by (simp add: decode_frame_def parse_frame_header_def decode_payload_def decode_frame_low_def
        read_u32_be_def be_u32_def get_range_def Let_def)
  from h2_decode_consumes [OF this, of "[7]"] show ?thesis by (simp only: simp_thms)
qed

text \<open>C12. Padding does not change what is decoded: a DATA or HEADERS payload with the PADDED flag, its
  length byte and any padding decodes to the same frame, or the same error, as the bare payload without
  the flag; a pad length that does not fit the payload is rejected.\<close>

theorem h2_padding_transparent:
  assumes "ty = FRAME_DATA \<or> ty = FRAME_HEADERS" and "fl AND FLAG_PADDED = 0"
  shows "(length pad < 256 \<longrightarrow>
      decode_payload ty (fl OR FLAG_PADDED) sid (of_nat (length pad) # data @ pad)
        = decode_payload ty fl sid data)
    \<and> (length data < unat p \<longrightarrow>
      (\<exists>msg. decode_payload ty (fl OR FLAG_PADDED) sid (p # data) = Err (InvalidFrame msg)))"
proof -
  have padded: "(fl OR FLAG_PADDED) AND FLAG_PADDED = FLAG_PADDED" using assms(2) by (simp add: bit.conj_disj_distrib2)
  have "decode_payload ty (fl OR FLAG_PADDED) sid (of_nat (length pad) # data @ pad)
        = decode_payload ty fl sid data" if "length pad < 256"
    using assms padded strip_padded [OF that, of data]
    by (auto simp: decode_payload_def decode_frame_low_def flag_set_def flag_set_or)
  moreover have "\<exists>msg. strip_padding (p # data) = Err (InvalidFrame msg)" if "length data < unat p"
    using that by (simp add: strip_padding_def)
  ultimately show ?thesis
    using assms padded by (auto simp: decode_payload_def decode_frame_low_def flag_set_def)
qed

theorem h2_padding_transparent_witness:
  "decode_payload 0 (1 OR 8) 5 (of_nat (length [0, 0 :: u8]) # [65, 66] @ [0, 0]) = decode_payload 0 1 5 [65, 66]"
  using h2_padding_transparent [of 0 1 "[0, 0]" 5 "[65, 66]" 0] by simp

end
