(* ===== verification/Rust_Str.thy ===== *)
theory Rust_Str
  imports Byte_Codec
begin

text \<open>
  What the text protocols use of the standard library: strings as their UTF-8 bytes, the UTF-8
  check of \<open>str::from_utf8\<close>, ASCII case, trimming, splitting, and decimal integers.
\<close>

section \<open>Strings and bytes\<close>

definition bytes_of :: "string \<Rightarrow> bytes" where
  "bytes_of s = map of_char s"

definition string_of :: "bytes \<Rightarrow> string" where
  "string_of bs = map (\<lambda>b. char_of (unat b)) bs"

lemma length_bytes_of [simp]: "length (bytes_of s) = length s"
  by (simp add: bytes_of_def)

lemma of_char_byte: "unat (of_char c :: u8) = of_char c"
proof -
  have "of_char c = (of_nat (of_char c) :: u8)" by (cases c) simp
  moreover have "of_char c < (256 :: nat)" by (cases c) (simp add: of_char_def)
  ultimately show ?thesis by (simp add: unat_of_nat)
qed

lemma string_of_bytes_of [simp]: "string_of (bytes_of s) = s"
  by (induction s) (simp_all add: string_of_def bytes_of_def of_char_byte)

lemma bytes_of_string_of [simp]: "bytes_of (string_of bs) = bs"
proof (induction bs)
  case (Cons b bs)
  have "of_char (char_of (unat b)) = (of_nat (of_char (char_of (unat b))) :: u8)"
    by (cases "char_of (unat b)") simp
  also have "\<dots> = b" by (simp add: of_char_mod_256)
  finally show ?case using Cons by (simp add: string_of_def bytes_of_def)
qed (simp_all add: string_of_def bytes_of_def)

definition continuation :: "u8 \<Rightarrow> bool" where
  "continuation b \<longleftrightarrow> 0x80 \<le> b \<and> b \<le> 0xBF"

definition ascii :: "u8 \<Rightarrow> bool" where
  "ascii b \<longleftrightarrow> b < 0x80"

definition lead2 :: "u8 \<Rightarrow> bool" where
  "lead2 b \<longleftrightarrow> 0xC2 \<le> b \<and> b \<le> 0xDF"

definition pair3 :: "u8 \<Rightarrow> u8 \<Rightarrow> bool" where
  "pair3 b0 b1 \<longleftrightarrow>
     0xE0 \<le> b0 \<and> b0 \<le> 0xEF \<and> continuation b1 \<and> (b0 = 0xE0 \<longrightarrow> 0xA0 \<le> b1) \<and> (b0 = 0xED \<longrightarrow> b1 \<le> 0x9F)"

definition pair4 :: "u8 \<Rightarrow> u8 \<Rightarrow> bool" where
  "pair4 b0 b1 \<longleftrightarrow>
     0xF0 \<le> b0 \<and> b0 \<le> 0xF4 \<and> continuation b1 \<and> (b0 = 0xF0 \<longrightarrow> 0x90 \<le> b1) \<and> (b0 = 0xF4 \<longrightarrow> b1 \<le> 0x8F)"

fun valid_utf8 :: "bytes \<Rightarrow> bool" where
  "valid_utf8 [] \<longleftrightarrow> True"
| "valid_utf8 (b0 # rest) \<longleftrightarrow>
     (if ascii b0 then valid_utf8 rest
      else case rest of
        b1 # r \<Rightarrow>
          if lead2 b0 then continuation b1 \<and> valid_utf8 r
          else (case r of
            b2 # q \<Rightarrow>
              if pair3 b0 b1 then continuation b2 \<and> valid_utf8 q
              else (case q of
                b3 # p \<Rightarrow> pair4 b0 b1 \<and> continuation b2 \<and> continuation b3 \<and> valid_utf8 p
              | _ \<Rightarrow> False)
          | _ \<Rightarrow> False)
      | _ \<Rightarrow> False)"

text \<open>A Rust \<open>String\<close>: its bytes are valid UTF-8.\<close>

definition is_str :: "string \<Rightarrow> bool" where
  "is_str s \<longleftrightarrow> valid_utf8 (bytes_of s)"

lemma is_str_ascii: "\<forall>c \<in> set s. of_char c < (128 :: nat) \<Longrightarrow> is_str s"
proof (induction s)
  case (Cons c s)
  have "(of_char c :: u8) < 0x80" using Cons.prems of_char_byte [of c] by (simp add: word_less_nat_alt)
  with Cons show ?case by (simp add: is_str_def bytes_of_def ascii_def)
qed (simp add: is_str_def bytes_of_def)

definition from_utf8 :: "bytes \<Rightarrow> string option" where
  "from_utf8 bs = (if valid_utf8 bs then Some (string_of bs) else None)"

lemma from_utf8_bytes_of [simp]: "is_str s \<Longrightarrow> from_utf8 (bytes_of s) = Some s"
  by (simp add: from_utf8_def is_str_def)

lemma string_of_simps [simp]:
  "string_of [] = []" "string_of (b # bs) = char_of (unat b) # string_of bs"
  "string_of (bs @ cs) = string_of bs @ string_of cs" "length (string_of bs) = length bs"
  by (simp_all add: string_of_def)

lemma bytes_of_simps [simp]:
  "bytes_of [] = []" "bytes_of (c # s) = of_char c # bytes_of s" "bytes_of (s @ t) = bytes_of s @ bytes_of t"
  by (simp_all add: bytes_of_def)

lemma bytes_of_inj [simp]: "bytes_of s = bytes_of t \<longleftrightarrow> s = t"
  by (metis string_of_bytes_of)

lemma of_char_u8_eq [simp]: "of_char c = (of_char d :: u8) \<longleftrightarrow> c = d"
  by (metis of_char_byte of_char_eq_iff)

lemma set_bytes_of: "of_char c \<in> set (bytes_of s) \<longleftrightarrow> c \<in> set s"
  by (auto simp: bytes_of_def)

lemma valid_utf8_append: "valid_utf8 xs \<Longrightarrow> valid_utf8 (xs @ ys) = valid_utf8 ys"
proof (induction "length xs" arbitrary: xs rule: less_induct)
  case less
  show ?case
  proof (cases xs)
    case (Cons b0 rest)
    show ?thesis
    proof (cases "ascii b0")
      case True
      with less Cons show ?thesis by simp
    next
      case not_ascii: False
      then obtain b1 r where rest: "rest = b1 # r" using less.prems Cons by (cases rest) simp_all
      show ?thesis
      proof (cases "lead2 b0")
        case True
        with not_ascii less Cons rest show ?thesis by simp
      next
        case not_lead2: False
        then obtain b2 q where r: "r = b2 # q" using not_ascii less.prems Cons rest by (cases r) simp_all
        show ?thesis
        proof (cases "pair3 b0 b1")
          case True
          with not_ascii not_lead2 less Cons rest r show ?thesis by simp
        next
          case not_pair3: False
          then obtain b3 p where "q = b3 # p"
            using not_ascii not_lead2 less.prems Cons rest r by (cases q) simp_all
          with not_ascii not_lead2 not_pair3 less Cons rest r show ?thesis by simp
        qed
      qed
    qed
  qed simp
qed

lemma is_str_append: "is_str s \<Longrightarrow> is_str t \<Longrightarrow> is_str (s @ t)"
  by (simp add: is_str_def valid_utf8_append)

section \<open>Searching\<close>

lemma find_upt: "find P [0..<n] = Some i \<longleftrightarrow> i < n \<and> P i \<and> (\<forall>j < i. \<not> P j)"
  by (auto simp: find_Some_iff)

text \<open>\<open>str::find\<close> of a character, and the parts of \<open>str::split_once\<close>.\<close>

fun find_char :: "char \<Rightarrow> string \<Rightarrow> nat option" where
  "find_char c [] = None"
| "find_char c (d # s) = (if c = d then Some 0 else map_option Suc (find_char c s))"

definition split_once :: "char \<Rightarrow> string \<Rightarrow> (string \<times> string) option" where
  "split_once c s = map_option (\<lambda>i. (take i s, drop (i + 1) s)) (find_char c s)"

lemma find_char_append: "c \<notin> set s \<Longrightarrow> find_char c (s @ c # t) = Some (length s)"
  by (induction s) auto

lemma find_char_None: "find_char c s = None \<longleftrightarrow> c \<notin> set s"
  by (induction s) auto

lemma find_char_Some: "find_char c s = Some i \<Longrightarrow> i < length s \<and> s = take i s @ c # drop (i + 1) s \<and> c \<notin> set (take i s)"
  by (induction s arbitrary: i) (auto split: if_splits)

text \<open>\<open>str::split\<close> and \<open>str::splitn\<close> on one character.\<close>

fun splitn :: "nat \<Rightarrow> char \<Rightarrow> string \<Rightarrow> string list" where
  "splitn 0 c s = []"
| "splitn (Suc n) c s =
     (if n = 0 then [s]
      else case find_char c s of None \<Rightarrow> [s] | Some i \<Rightarrow> take i s # splitn n c (drop (i + 1) s))"

fun split_char :: "char \<Rightarrow> string \<Rightarrow> string list" where
  "split_char c [] = [[]]"
| "split_char c (d # s) =
     (if d = c then [] # split_char c s
      else case split_char c s of [] \<Rightarrow> [[d]] | t # ts \<Rightarrow> (d # t) # ts)"

section \<open>Trimming\<close>

text \<open>\<open>str::trim\<close> removes characters with the Unicode property White_Space, listed here by their
  UTF-8 bytes: space, tab to carriage return, U+0085, U+00A0, U+1680, U+2000 to U+200A, U+2028, U+2029,
  U+202F, U+205F and U+3000.\<close>

definition WHITE_SPACE :: "string list" where
  "WHITE_SPACE =
    [[CHR 0x20], [CHR 0x09], [CHR 0x0A], [CHR 0x0B], [CHR 0x0C], [CHR 0x0D],
     [CHR 0xC2, CHR 0x85], [CHR 0xC2, CHR 0xA0], [CHR 0xE1, CHR 0x9A, CHR 0x80],
     [CHR 0xE2, CHR 0x80, CHR 0x80], [CHR 0xE2, CHR 0x80, CHR 0x81],
     [CHR 0xE2, CHR 0x80, CHR 0x82], [CHR 0xE2, CHR 0x80, CHR 0x83],
     [CHR 0xE2, CHR 0x80, CHR 0x84], [CHR 0xE2, CHR 0x80, CHR 0x85],
     [CHR 0xE2, CHR 0x80, CHR 0x86], [CHR 0xE2, CHR 0x80, CHR 0x87],
     [CHR 0xE2, CHR 0x80, CHR 0x88], [CHR 0xE2, CHR 0x80, CHR 0x89],
     [CHR 0xE2, CHR 0x80, CHR 0x8A], [CHR 0xE2, CHR 0x80, CHR 0xA8],
     [CHR 0xE2, CHR 0x80, CHR 0xA9], [CHR 0xE2, CHR 0x80, CHR 0xAF],
     [CHR 0xE2, CHR 0x81, CHR 0x9F], [CHR 0xE3, CHR 0x80, CHR 0x80]]"

lemma white_space_nonempty: "w \<in> set WHITE_SPACE \<Longrightarrow> w \<noteq> []"
  by (auto simp: WHITE_SPACE_def)

function trim_start :: "string \<Rightarrow> string" where
  "trim_start s =
     (case find (\<lambda>w. take (length w) s = w) WHITE_SPACE of
        None \<Rightarrow> s
      | Some w \<Rightarrow> trim_start (drop (length w) s))"
  by pat_completeness auto
termination
proof (relation "measure length")
  fix s w assume "find (\<lambda>w. take (length w) s = w) WHITE_SPACE = Some w"
  then have "w \<in> set WHITE_SPACE" "take (length w) s = w" by (auto simp: find_Some_iff)
  with white_space_nonempty [of w] show "(drop (length w) s, s) \<in> measure length"
    by (cases s) auto
qed simp

function trim_end :: "string \<Rightarrow> string" where
  "trim_end s =
     (case find (\<lambda>w. length w \<le> length s \<and> drop (length s - length w) s = w) WHITE_SPACE of
        None \<Rightarrow> s
      | Some w \<Rightarrow> trim_end (take (length s - length w) s))"
  by pat_completeness auto
termination
proof (relation "measure length")
  fix s w assume "find (\<lambda>w. length w \<le> length s \<and> drop (length s - length w) s = w) WHITE_SPACE = Some w"
  then have "w \<in> set WHITE_SPACE" "length w \<le> length s" by (auto simp: find_Some_iff)
  with white_space_nonempty [of w] show "(take (length s - length w) s, s) \<in> measure length"
    by (cases w) auto
qed simp

declare trim_start.simps [simp del] trim_end.simps [simp del]

definition trim :: "string \<Rightarrow> string" where
  "trim s = trim_end (trim_start s)"

lemma trim_start_space: "trim_start (CHR '' '' # s) = trim_start s"
  by (subst trim_start.simps) (simp add: WHITE_SPACE_def)

lemma trim_space: "trim (CHR '' '' # s) = trim s"
  by (simp add: trim_def trim_start_space)

text \<open>Trimming removes characters at the two ends only.\<close>

lemma trim_start_suffix: "\<exists>p. s = p @ trim_start s"
proof (induction s rule: trim_start.induct)
  case (1 s)
  show ?case
  proof (cases "find (\<lambda>w. take (length w) s = w) WHITE_SPACE")
    case (Some w)
    with 1 obtain p where "drop (length w) s = p @ trim_start (drop (length w) s)" by blast
    then have "s = (take (length w) s @ p) @ trim_start (drop (length w) s)" by (metis append_assoc append_take_drop_id)
    moreover have "trim_start s = trim_start (drop (length w) s)" by (subst trim_start.simps) (simp add: Some)
    ultimately show ?thesis by metis
  qed (simp add: trim_start.simps [of s])
qed

lemma trim_end_prefix: "\<exists>q. s = trim_end s @ q"
proof (induction s rule: trim_end.induct)
  case (1 s)
  show ?case
  proof (cases "find (\<lambda>w. length w \<le> length s \<and> drop (length s - length w) s = w) WHITE_SPACE")
    case (Some w)
    let ?t = "take (length s - length w) s"
    from 1 Some obtain q where "?t = trim_end ?t @ q" by blast
    then have "s = trim_end ?t @ (q @ drop (length s - length w) s)" by (metis append_assoc append_take_drop_id)
    moreover have "trim_end s = trim_end ?t" by (subst trim_end.simps) (simp add: Some)
    ultimately show ?thesis by metis
  qed (simp add: trim_end.simps [of s])
qed

lemma trim_infix: "\<exists>p q. s = p @ trim s @ q"
  by (metis trim_def trim_start_suffix trim_end_prefix append_assoc)

lemma set_trim: "set (trim s) \<subseteq> set s"
  using trim_infix [of s] by (metis Un_iff set_append subsetI)

section \<open>Unsigned decimal integers\<close>

text \<open>\<open>str::parse\<close> at an unsigned type: an optional plus sign, then at least one digit, every
  intermediate value within the type.\<close>

definition digit_of :: "char \<Rightarrow> nat option" where
  "digit_of c = (if 48 \<le> (of_char c :: nat) \<and> (of_char c :: nat) \<le> 57 then Some (of_char c - 48) else None)"

fun parse_digits :: "nat \<Rightarrow> nat \<Rightarrow> string \<Rightarrow> nat option" where
  "parse_digits limit acc [] = Some acc"
| "parse_digits limit acc (c # s) =
     (case digit_of c of
        None \<Rightarrow> None
      | Some d \<Rightarrow> if 10 * acc + d \<le> limit then parse_digits limit (10 * acc + d) s else None)"

definition parse_uint :: "nat \<Rightarrow> string \<Rightarrow> nat option" where
  "parse_uint limit s =
     (if s = [] \<or> s = ''+'' then None
      else parse_digits limit 0 (if hd s = CHR ''+'' then tl s else s))"

lemma parse_digits_bound: "parse_digits limit acc s = Some n \<Longrightarrow> acc \<le> limit \<Longrightarrow> n \<le> limit"
  by (induction limit acc s rule: parse_digits.induct) (auto split: option.splits if_splits)

lemma parse_uint_bound: "parse_uint limit s = Some n \<Longrightarrow> n \<le> limit"
  by (auto simp: parse_uint_def dest: parse_digits_bound split: if_splits)

lemma parse_digits_append:
  "parse_digits limit acc (s @ t) =
     (case parse_digits limit acc s of None \<Rightarrow> None | Some n \<Rightarrow> parse_digits limit n t)"
  by (induction limit acc s rule: parse_digits.induct) (auto split: option.splits)

lemma digit_of_char [simp]: "d < 10 \<Longrightarrow> digit_of (char_of (d + 48)) = Some d"
  by (simp add: digit_of_def)

lemma parse_digits_decimal: "n \<le> limit \<Longrightarrow> parse_digits limit 0 (decimal n) = Some n"
proof (induction n rule: decimal.induct)
  case (1 n)
  show ?case
  proof (cases "n < 10")
    case False
    with 1 show ?thesis by (subst decimal.simps) (simp add: parse_digits_append)
  qed (use 1 in \<open>subst decimal.simps, simp\<close>)
qed

lemma decimal_hd: "decimal n \<noteq> [] \<and> digit_of (hd (decimal n)) \<noteq> None"
proof (induction n rule: decimal.induct)
  case (1 n)
  then show ?case by (subst (1 2) decimal.simps) (auto simp: hd_append)
qed

lemma parse_uint_decimal: "n \<le> limit \<Longrightarrow> parse_uint limit (decimal n) = Some n"
proof -
  assume le: "n \<le> limit"
  have "decimal n \<noteq> [] \<and> hd (decimal n) \<noteq> CHR ''+''" using decimal_hd [of n] by (auto simp: digit_of_def)
  then show ?thesis using parse_digits_decimal [OF le] by (auto simp: parse_uint_def)
qed

section \<open>Lower-case hexadecimal\<close>

definition hex_digit :: "nat \<Rightarrow> char" where
  "hex_digit d = char_of (if d < 10 then d + 48 else d + 87)"

function lower_hex :: "nat \<Rightarrow> string" where
  "lower_hex n = (if n < 16 then [hex_digit n] else lower_hex (n div 16) @ [hex_digit (n mod 16)])"
  by pat_completeness auto
termination
  by (relation "measure id") auto

declare lower_hex.simps [simp del]

lemma lower_hex_length: "n < 16 ^ k \<Longrightarrow> 0 < k \<Longrightarrow> length (lower_hex n) \<le> k"
proof (induction n arbitrary: k rule: lower_hex.induct)
  case (1 n)
  show ?case
  proof (cases "n < 16")
    case True
    with 1 show ?thesis by (subst lower_hex.simps) simp
  next
    case False
    obtain j where k: "k = Suc j" using "1.prems"(2) by (cases k) auto
    have "0 < j" using False "1.prems"(1) k by (cases j) simp_all
    moreover have "n div 16 < 16 ^ j" using "1.prems"(1) k by (simp add: div_less_iff_less_mult mult.commute)
    ultimately show ?thesis using 1(1) [OF False] False k by (subst lower_hex.simps) simp
  qed
qed

end
