(* ===== verification/Hpack.thy ===== *)
theory Hpack
  imports H2_Frame Rust_Str
begin

text \<open>
  HPACK header compression (\<open>lb-h2/src/hpack.rs\<close>): prefix integers, string literals, the static
  table, the dynamic table with its eviction, the encoder and the decoder. The decoder returns the
  dynamic table also when it fails, because the source keeps the insertions made before the error.
  Shown: integers round-trip, the size accounting of the dynamic table is an invariant of every
  operation, and a decoder whose table agrees with the encoder's decodes every header list to itself
  and ends with the encoder's table again.
\<close>

section \<open>The tables\<close>

definition STATIC_TABLE :: "(string \<times> string) list" where
  "STATIC_TABLE =
    [([], []),
     ('':authority'', []),
     ('':method'', ''GET''),
     ('':method'', ''POST''),
     ('':path'', ''/''),
     ('':path'', ''/index.html''),
     ('':scheme'', ''http''),
     ('':scheme'', ''https''),
     ('':status'', ''200''),
     ('':status'', ''204''),
     ('':status'', ''206''),
     ('':status'', ''304''),
     ('':status'', ''400''),
     ('':status'', ''404''),
     ('':status'', ''500''),
     (''accept-charset'', []),
     (''accept-encoding'', ''gzip, deflate''),
     (''accept-language'', []),
     (''accept-ranges'', []),
     (''accept'', []),
     (''access-control-allow-origin'', []),
     (''age'', []),
     (''allow'', []),
     (''authorization'', []),
     (''cache-control'', []),
     (''content-disposition'', []),
     (''content-encoding'', []),
     (''content-language'', []),
     (''content-length'', []),
     (''content-location'', []),
     (''content-range'', []),
     (''content-type'', []),
     (''cookie'', []),
     (''date'', []),
     (''etag'', []),
     (''expect'', []),
     (''expires'', []),
     (''from'', []),
     (''host'', []),
     (''if-match'', []),
     (''if-modified-since'', []),
     (''if-none-match'', []),
     (''if-range'', []),
     (''if-unmodified-since'', []),
     (''last-modified'', []),
     (''link'', []),
     (''location'', []),
     (''max-forwards'', []),
     (''proxy-authenticate'', []),
     (''proxy-authorization'', []),
     (''range'', []),
     (''referer'', []),
     (''refresh'', []),
     (''retry-after'', []),
     (''server'', []),
     (''set-cookie'', []),
     (''strict-transport-security'', []),
     (''transfer-encoding'', []),
     (''user-agent'', []),
     (''vary'', []),
     (''via'', []),
     (''www-authenticate'', [])]"

lemma length_STATIC_TABLE [simp]: "length STATIC_TABLE = 62"
  by (simp add: STATIC_TABLE_def)

record dynamic_table =
  entries :: "(string \<times> string) list"
  dt_size :: nat
  max_size :: nat

definition dynamic_table_new :: "nat \<Rightarrow> dynamic_table" where
  "dynamic_table_new mx = \<lparr>entries = [], dt_size = 0, max_size = mx\<rparr>"

definition entry_size :: "string \<Rightarrow> string \<Rightarrow> nat" where
  "entry_size name value = length name + length value + 32"

function evict :: "dynamic_table \<Rightarrow> nat \<Rightarrow> dynamic_table" where
  "evict t needed =
     (if dt_size t + needed > max_size t \<and> entries t \<noteq> [] then
        let (n, v) = last (entries t)
        in evict (t\<lparr>entries := butlast (entries t), dt_size := dt_size t - entry_size n v\<rparr>) needed
      else t)"
  by pat_completeness auto
termination
  by (relation "measure (\<lambda>(t, _). length (entries t))") auto

declare evict.simps [simp del]

definition table_insert :: "dynamic_table \<Rightarrow> string \<Rightarrow> string \<Rightarrow> dynamic_table" where
  "table_insert t name value =
     (let new_entry_size = entry_size name value;
          t = evict t new_entry_size
      in if new_entry_size \<le> max_size t
         then t\<lparr>dt_size := dt_size t + new_entry_size, entries := (name, value) # entries t\<rparr>
         else t)"

definition set_max_size :: "dynamic_table \<Rightarrow> nat \<Rightarrow> dynamic_table" where
  "set_max_size t new_max = evict (t\<lparr>max_size := new_max\<rparr>) 0"

definition table_get :: "nat \<Rightarrow> dynamic_table \<Rightarrow> (string \<times> string, h2_error) result" where
  "table_get index t =
     (if index = 0 then Err (HpackError ''index 0 is invalid'')
      else
        let static_len = length STATIC_TABLE - 1 in
        if index \<le> static_len
        then ok_or (get STATIC_TABLE index) (HpackError (''invalid static index '' @ decimal index))
        else ok_or (get (entries t) (index - static_len - 1))
               (HpackError (''invalid dynamic index '' @ decimal index)))"

text \<open>One scan of the two loops of the search: entries with the index of the first, and the name
  match found so far. \<open>Inr\<close> is the early return.\<close>

fun scan_table :: "string \<Rightarrow> string \<Rightarrow> nat \<Rightarrow> (string \<times> string) list \<Rightarrow> nat option \<Rightarrow> nat option + nat" where
  "scan_table name value i [] name_match = Inl name_match"
| "scan_table name value i ((n, v) # es) name_match =
     (if n = name then
        if v = value then Inr i
        else scan_table name value (i + 1) es (if name_match = None then Some i else name_match)
      else scan_table name value (i + 1) es name_match)"

definition find_in_tables :: "string \<Rightarrow> string \<Rightarrow> dynamic_table \<Rightarrow> (nat \<times> bool) option" where
  "find_in_tables name value t =
     (case scan_table name value 1 (tl STATIC_TABLE) None of
        Inr i \<Rightarrow> Some (i, False)
      | Inl name_match \<Rightarrow>
          (case scan_table name value (length STATIC_TABLE) (entries t) name_match of
             Inr i \<Rightarrow> Some (i, False)
           | Inl name_match' \<Rightarrow> map_option (\<lambda>idx. (idx, True)) name_match'))"

section \<open>Integers and strings\<close>

function encode_tail :: "nat \<Rightarrow> bytes" where
  "encode_tail value =
     (if value \<ge> 128 then (of_nat (value mod 128) OR 0x80) # encode_tail (value div 128)
      else [of_nat value])"
  by pat_completeness auto
termination
  by (relation "measure id") auto

declare encode_tail.simps [simp del]

definition encode_integer :: "nat \<Rightarrow> nat \<Rightarrow> u8 \<Rightarrow> bytes" where
  "encode_integer value prefix_bits first_byte_mask =
     (let max_prefix = 2 ^ prefix_bits - 1 in
      if value < max_prefix then [first_byte_mask OR of_nat value]
      else (first_byte_mask OR of_nat max_prefix) # encode_tail (value - max_prefix))"

function decode_tail :: "bytes \<Rightarrow> nat \<Rightarrow> nat \<Rightarrow> nat \<Rightarrow> (nat \<times> nat, h2_error) result" where
  "decode_tail buf value m pos =
     (case get buf pos of
        None \<Rightarrow> Err Incomplete
      | Some b \<Rightarrow>
          let value' = value + push_bit m (unat b AND 0x7F) in
          if b AND 0x80 = 0 then Ok (value', pos + 1)
          else if m + 7 > 28 then Err (HpackError ''integer overflow'')
          else decode_tail buf value' (m + 7) (pos + 1))"
  by pat_completeness auto
termination
  by (relation "measure (\<lambda>(_, _, m, _). 29 - m)") auto

declare decode_tail.simps [simp del]

definition decode_integer :: "bytes \<Rightarrow> nat \<Rightarrow> (nat \<times> nat, h2_error) result" where
  "decode_integer buf prefix_bits =
     and_then (ok_or (get buf 0) Incomplete) (\<lambda>first.
       let max_prefix = 2 ^ prefix_bits - 1;
           value = unat first AND max_prefix
       in if value < max_prefix then Ok (value, 1) else decode_tail buf value 0 1)"

definition encode_string :: "string \<Rightarrow> bytes" where
  "encode_string s = encode_integer (length s) 7 0x00 @ bytes_of s"

definition decode_string :: "bytes \<Rightarrow> (string \<times> nat, h2_error) result" where
  "decode_string buf =
     and_then (decode_integer buf 7) (\<lambda>(len, int_bytes).
       let start = int_bytes; end' = start + len in
       and_then (ok_or (get_range buf start end') Incomplete) (\<lambda>data.
         if valid_utf8 data then Ok (string_of data, end') else Err (HpackError ''non-utf8 string'')))"

section \<open>Encoder and decoder\<close>

text \<open>The bytes of one header and the table after it, then the loop over the list.\<close>

definition encode_field :: "dynamic_table \<Rightarrow> string \<Rightarrow> string \<Rightarrow> bytes \<times> dynamic_table" where
  "encode_field t name value =
     (case find_in_tables name value t of
        Some (index, False) \<Rightarrow> (encode_integer index 7 0x80, t)
      | Some (name_index, True) \<Rightarrow>
          (encode_integer name_index 6 0x40 @ encode_string value, table_insert t name value)
      | None \<Rightarrow> ([0x40] @ encode_string name @ encode_string value, table_insert t name value))"

fun hpack_encode :: "dynamic_table \<Rightarrow> header list \<Rightarrow> bytes \<times> dynamic_table" where
  "hpack_encode t [] = ([], t)"
| "hpack_encode t ((name, value) # hs) =
     (let (field, t') = encode_field t name value;
          (rest, t'') = hpack_encode t' hs
      in (field @ rest, t''))"

text \<open>A literal: its name, from the table or spelled out, and its value, after the index. The result
  is the pair and the number of bytes consumed.\<close>

definition decode_literal :: "dynamic_table \<Rightarrow> bytes \<Rightarrow> nat \<Rightarrow> (header \<times> nat, h2_error) result" where
  "decode_literal t buf prefix_bits =
     and_then (decode_integer buf prefix_bits) (\<lambda>(index, consumed).
       if index = 0 then
         and_then (ok_or (get_from buf consumed) Incomplete) (\<lambda>b1.
         and_then (decode_string b1) (\<lambda>(n, nc).
         and_then (ok_or (get_from buf (consumed + nc)) Incomplete) (\<lambda>b2.
         and_then (decode_string b2) (\<lambda>(v, vc). Ok ((n, v), consumed + nc + vc)))))
       else
         and_then (table_get index t) (\<lambda>(n, _).
         and_then (ok_or (get_from buf consumed) Incomplete) (\<lambda>b1.
         and_then (decode_string b1) (\<lambda>(v, vc). Ok ((n, v), consumed + vc)))))"

text \<open>The hexadecimal form \<open>{first:#04x}\<close> of the error message.\<close>

definition hex_byte :: "u8 \<Rightarrow> string" where
  "hex_byte b = ''0x'' @ [hex_digit (unat b div 16), hex_digit (unat b mod 16)]"

text \<open>One field off the front of the rest of the block: the headers it adds, the table after it and
  the bytes consumed.\<close>

definition decode_field :: "dynamic_table \<Rightarrow> bytes \<Rightarrow> (header list \<times> dynamic_table \<times> nat, h2_error) result" where
  "decode_field t buf =
     and_then (ok_or (get buf 0) Incomplete) (\<lambda>first.
       if first AND 0x80 \<noteq> 0 then
         and_then (decode_integer buf 7) (\<lambda>(index, consumed).
         and_then (table_get index t) (\<lambda>h. Ok ([h], t, consumed)))
       else if first AND 0xC0 = 0x40 then
         and_then (decode_literal t buf 6) (\<lambda>((n, v), consumed).
         Ok ([(n, v)], table_insert t n v, consumed))
       else if first AND 0xF0 = 0x00 \<or> first AND 0xF0 = 0x10 then
         and_then (decode_literal t buf 4) (\<lambda>(h, consumed). Ok ([h], t, consumed))
       else if first AND 0xE0 = 0x20 then
         and_then (decode_integer buf 5) (\<lambda>(new_size, consumed).
         Ok ([], set_max_size t new_size, consumed))
       else Err (HpackError (''unknown HPACK byte prefix: '' @ hex_byte first)))"

text \<open>Every field consumes at least one byte and stays inside the block.\<close>

lemma decode_tail_consumes: "decode_tail buf v m pos = Ok (x, p) \<Longrightarrow> pos < p \<and> p \<le> length buf"
proof (induction buf v m pos rule: decode_tail.induct)
  case (1 buf v m pos)
  note eq = "1.prems" [unfolded decode_tail.simps [of buf v m pos]]
  show ?case
  proof (cases "get buf pos")
    case None
    with eq show ?thesis by simp
  next
    case (Some b)
    then have "pos < length buf" by (simp add: get_eq_Some)
    then show ?thesis
      using eq "1.IH" [OF Some refl] Some by (fastforce simp: Let_def split: if_splits)
  qed
qed

lemma decode_integer_consumes: "decode_integer buf p = Ok (x, n) \<Longrightarrow> 0 < n \<and> n \<le> length buf"
  by (auto simp: decode_integer_def and_then_Ok ok_or_Ok get_eq_Some Let_def Suc_le_eq
      split: if_splits dest: decode_tail_consumes)

lemma decode_string_consumes: "decode_string buf = Ok (s, n) \<Longrightarrow> 0 < n \<and> n \<le> length buf"
  by (auto simp: decode_string_def and_then_Ok ok_or_Ok get_range_eq_Some Let_def
      split: if_splits dest!: decode_integer_consumes)

lemma decode_literal_consumes:
  assumes "decode_literal t buf p = Ok (h, n)"
  shows "0 < n \<and> n \<le> length buf"
  using assms
  by (auto simp: decode_literal_def and_then_Ok ok_or_Ok get_from_Some split: if_splits
      dest!: decode_integer_consumes decode_string_consumes)

lemma decode_field_consumes:
  "decode_field t buf = Ok (hs, t', n) \<Longrightarrow> 0 < n \<and> n \<le> length buf"
  by (auto simp: decode_field_def and_then_Ok split: if_splits prod.splits
      dest: decode_integer_consumes decode_literal_consumes)

function decode_loop :: "dynamic_table \<Rightarrow> bytes \<Rightarrow> nat \<Rightarrow> header list
    \<Rightarrow> (header list, h2_error) result \<times> dynamic_table" where
  "decode_loop t buf pos headers =
     (if pos < length buf then
        case decode_field t (drop pos buf) of
          Inl e \<Rightarrow> (Err e, t)
        | Inr (hs, t', consumed) \<Rightarrow> decode_loop t' buf (pos + consumed) (headers @ hs)
      else (Ok headers, t))"
  by pat_completeness auto
termination
  by (relation "measure (\<lambda>(_, buf, pos, _). length buf - pos)")
    (auto dest!: decode_field_consumes)

declare decode_loop.simps [simp del]

definition hpack_decode :: "dynamic_table \<Rightarrow> bytes \<Rightarrow> (header list, h2_error) result \<times> dynamic_table" where
  "hpack_decode t buf = decode_loop t buf 0 []"

section \<open>Integers round-trip\<close>

lemma and_0x7F: "n AND 0x7F = take_bit 7 n" for n :: nat
  by (simp add: take_bit_eq_mask mask_eq_exp_minus_1)

lemma low_byte:
  assumes "y < 128"
  shows "unat (of_nat y :: u8) AND 0x7F = y" "(of_nat y :: u8) AND 0x80 = 0"
    "unat (of_nat y OR 0x80 :: u8) AND 0x7F = y" "(of_nat y OR 0x80 :: u8) AND 0x80 \<noteq> 0"
proof -
  let ?w = "of_nat y :: u8"
  have y: "unat ?w = y" "take_bit 7 y = y" using assms by (simp_all add: unat_of_nat take_bit_nat_eq_self)
  show "unat ?w AND 0x7F = y" by (simp only: y and_0x7F)
  have "take_bit 7 ?w = ?w" by (simp add: word_unat_eq_iff unsigned_take_bit_eq y)
  then have "?w AND 0x80 = (?w AND 0x7F) AND 0x80" by (simp add: take_bit_eq_mask mask_eq_exp_minus_1)
  then show "?w AND 0x80 = 0" by (simp add: and.assoc)
  have "unat (?w OR 0x80) AND 0x7F = take_bit 7 (unat ?w OR 0x80)"
    by (simp only: and_0x7F unsigned_or_eq) simp
  also have "\<dots> = take_bit 7 (unat ?w) OR take_bit 7 0x80" by (simp only: take_bit_or)
  also have "\<dots> = y" by (simp add: y)
  finally show "unat (?w OR 0x80) AND 0x7F = y" .
  show "(?w OR 0x80) AND 0x80 \<noteq> 0" by (simp add: bit.conj_disj_distrib2)
qed

lemma decode_tail_encode:
  assumes "x < 2 ^ (35 - m)" and "m \<in> {0, 7, 14, 21, 28}"
  shows "decode_tail (pre @ encode_tail x @ rest) v m (length pre)
    = Ok (v + x * 2 ^ m, length pre + length (encode_tail x))"
  using assms
proof (induction x arbitrary: m v pre rule: encode_tail.induct)
  case (1 x)
  show ?case
  proof (cases "x \<ge> 128")
    case False
    have "get (pre @ encode_tail x @ rest) (length pre) = Some (of_nat x)"
      using False by (simp add: get_def encode_tail.simps [of x])
    moreover have "length (encode_tail x) = 1" using False by (simp add: encode_tail.simps [of x])
    ultimately show ?thesis
      using low_byte(1,2) [of x] False by (subst decode_tail.simps) (simp add: push_bit_eq_mult)
  next
    case True
    let ?b = "of_nat (x mod 128) OR 0x80 :: u8"
    have enc: "encode_tail x = ?b # encode_tail (x div 128)" using True by (subst encode_tail.simps) simp
    have "m \<noteq> 28" using "1.prems"(1) True by auto
    then have m: "m + 7 \<in> {0, 7, 14, 21, 28}" "\<not> m + 7 > 28" using "1.prems"(2) by auto
    have "x < 2 ^ (35 - (m + 7)) * 2 ^ 7"
      using "1.prems" m(2) by auto
    then have small: "x div 128 < 2 ^ (35 - (m + 7))" by (simp add: div_less_iff_less_mult)
    define q r where "q = x div 128" and "r = x mod 128"
    then have x: "r + 128 * q = x" by simp
    have "v + r * 2 ^ m + q * 2 ^ (m + 7) = v + (r + 128 * q) * 2 ^ m"
      by (simp add: algebra_simps power_add)
    then have "v + r * 2 ^ m + q * 2 ^ (m + 7) = v + x * 2 ^ m" by (simp only: x)
    then have val: "v + x mod 128 * 2 ^ m + x div 128 * 2 ^ (m + 7) = v + x * 2 ^ m"
      by (simp only: q_def r_def)
    have byte: "unat ?b AND 0x7F = x mod 128" "?b AND 0x80 \<noteq> 0" using low_byte(3,4) [of "x mod 128"] by simp_all
    have "get (pre @ encode_tail x @ rest) (length pre) = Some ?b" by (simp add: get_def enc)
    then have "decode_tail (pre @ encode_tail x @ rest) v m (length pre)
        = decode_tail ((pre @ [?b]) @ encode_tail (x div 128) @ rest) (v + x mod 128 * 2 ^ m) (m + 7)
            (length (pre @ [?b]))"
      using byte m(2) by (subst decode_tail.simps) (simp add: push_bit_eq_mult enc)
    also have "\<dots> = Ok (v + x * 2 ^ m, length (pre @ [?b]) + length (encode_tail (x div 128)))"
      using "1.IH" [OF True small m(1), of "pre @ [?b]" "v + x mod 128 * 2 ^ m"] by (simp only: val)
    finally show ?thesis by (simp add: enc)
  qed
qed

lemma prefix_byte:
  assumes "take_bit p mk = 0" and "p \<le> 7" and "y < 2 ^ p"
  shows "unat (mk OR of_nat y :: u8) AND (2 ^ p - 1) = y"
proof -
  have "y < 256" using assms(2,3) power_increasing [of p 8 "2 :: nat"] by simp
  then have y: "unat (of_nat y :: u8) = y" "take_bit p y = y"
    using assms(3) by (simp_all add: unat_of_nat take_bit_nat_eq_self)
  have "unat (take_bit p mk) = 0" by (simp only: assms(1) unsigned_0)
  then have "take_bit p (unat mk) = 0" using assms(2) by (simp add: unsigned_take_bit_eq)
  then have "take_bit p (unat (mk OR of_nat y :: u8)) = y"
    by (simp only: unsigned_or_eq take_bit_or y or.left_neutral)
  then show ?thesis by (simp only: take_bit_eq_mask mask_eq_exp_minus_1)
qed

lemma decode_integer_encode:
  assumes "take_bit p mk = 0" and "p \<le> 7" and "x < 2 ^ p - 1 + 2 ^ 35"
  shows "decode_integer (encode_integer x p mk @ rest) p = Ok (x, length (encode_integer x p mk))"
proof (cases "x < 2 ^ p - 1")
  case True
  then show ?thesis
    using prefix_byte [OF assms(1,2), of x] by (simp add: decode_integer_def encode_integer_def)
next
  case False
  let ?mx = "2 ^ p - 1 :: nat"
  have "unat (mk OR of_nat ?mx :: u8) AND ?mx = ?mx"
    using prefix_byte [OF assms(1,2), of ?mx] by simp
  moreover have "decode_tail ([mk OR of_nat ?mx] @ encode_tail (x - ?mx) @ rest) ?mx 0 (length [mk OR of_nat ?mx :: u8])
      = Ok (?mx + (x - ?mx) * 2 ^ 0, length [mk OR of_nat ?mx :: u8] + length (encode_tail (x - ?mx)))"
    by (rule decode_tail_encode) (use assms(3) False in auto)
  ultimately show ?thesis
    using False by (simp add: decode_integer_def encode_integer_def Let_def del: of_nat_diff)
qed

lemma decode_string_encode:
  assumes "is_str s" and "length s < 2 ^ 35"
  shows "decode_string (encode_string s @ rest) = Ok (s, length (encode_string s))"
proof -
  let ?i = "encode_integer (length s) 7 0"
  have "decode_integer (?i @ bytes_of s @ rest) 7 = Ok (length s, length ?i)"
    by (rule decode_integer_encode) (use assms(2) in auto)
  moreover have "get_range (?i @ bytes_of s @ rest) (length ?i) (length ?i + length s) = Some (bytes_of s)"
    using range_append [of ?i "bytes_of s" rest] by simp
  ultimately show ?thesis
    using assms(1) by (simp add: decode_string_def encode_string_def is_str_def)
qed

section \<open>The dynamic table\<close>

definition table_ok :: "dynamic_table \<Rightarrow> bool" where
  "table_ok t \<longleftrightarrow> dt_size t = sum_list (map (\<lambda>(n, v). entry_size n v) (entries t)) \<and> dt_size t \<le> max_size t"

lemma sum_butlast:
  "xs \<noteq> [] \<Longrightarrow> sum_list (map f xs) = sum_list (map f (butlast xs)) + (f (last xs) :: nat)"
  by (induction xs) auto

lemma evict_spec:
  assumes "dt_size t = sum_list (map (\<lambda>(n, v). entry_size n v) (entries t))"
  shows "max_size (evict t k) = max_size t
    \<and> dt_size (evict t k) = sum_list (map (\<lambda>(n, v). entry_size n v) (entries (evict t k)))
    \<and> (dt_size (evict t k) + k \<le> max_size t \<or> entries (evict t k) = [])
    \<and> (\<exists>es. entries t = entries (evict t k) @ es)"
  using assms
proof (induction t k rule: evict.induct)
  case (1 t k)
  show ?case
  proof (cases "dt_size t + k > max_size t \<and> entries t \<noteq> []")
    case False
    then show ?thesis using "1.prems" by (subst (1 2 3 4 5 6) evict.simps) auto
  next
    case True
    obtain n v where nv: "last (entries t) = (n, v)" by fastforce
    let ?t = "t\<lparr>entries := butlast (entries t), dt_size := dt_size t - entry_size n v\<rparr>"
    have step: "evict t k = evict ?t k" using True nv by (subst evict.simps) simp
    have "dt_size ?t = sum_list (map (\<lambda>(n, v). entry_size n v) (entries ?t))"
      using "1.prems" True nv sum_butlast [of "entries t" "\<lambda>(n, v). entry_size n v"] by simp
    note IH = "1.IH" [OF True nv [symmetric] refl this]
    from IH obtain es where "butlast (entries t) = entries (evict t k) @ es" by (auto simp: step)
    then have "entries t = entries (evict t k) @ es @ [last (entries t)]"
      using True append_butlast_last_id [of "entries t"] by simp
    then show ?thesis using IH by (auto simp: step)
  qed
qed

lemma insert_ok: "table_ok t \<Longrightarrow> table_ok (table_insert t n v)"
  using evict_spec [of t "entry_size n v"]
  by (auto simp: table_ok_def table_insert_def Let_def)

lemma set_max_ok: "table_ok t \<Longrightarrow> table_ok (set_max_size t m)"
  using evict_spec [of "t\<lparr>max_size := m\<rparr>" 0] by (auto simp: table_ok_def set_max_size_def)

lemma insert_max [simp]: "table_ok t \<Longrightarrow> max_size (table_insert t n v) = max_size t"
  using evict_spec [of t "entry_size n v"] by (auto simp: table_ok_def table_insert_def Let_def)

lemma table_length: "table_ok t \<Longrightarrow> 32 * length (entries t) \<le> max_size t"
proof -
  have "32 * length es \<le> sum_list (map (\<lambda>(n, v). entry_size n v) es)" for es
    by (induction es) (auto simp: entry_size_def)
  then show "table_ok t \<Longrightarrow> 32 * length (entries t) \<le> max_size t"
    by (metis table_ok_def le_trans)
qed

lemma decode_field_ok: "decode_field t buf = Ok (hs, t', n) \<Longrightarrow> table_ok t \<Longrightarrow> table_ok t'"
  by (auto simp: decode_field_def and_then_Ok insert_ok set_max_ok split: if_splits prod.splits)

lemma decode_loop_ok: "table_ok t \<Longrightarrow> table_ok (snd (decode_loop t buf pos hs))"
proof (induction t buf pos hs rule: decode_loop.induct)
  case (1 t buf pos hs)
  show ?case
    using "1.prems" "1.IH" decode_field_ok [of t "drop pos buf"]
    by (subst decode_loop.simps) (auto split: sum.splits)
qed

lemma hpack_encode_ok: "table_ok t \<Longrightarrow> table_ok (snd (hpack_encode t hs)) \<and> max_size (snd (hpack_encode t hs)) = max_size t"
  by (induction t hs rule: hpack_encode.induct)
    (auto simp: split_beta Let_def encode_field_def insert_ok split: option.splits bool.splits)

section \<open>Searching the tables\<close>

lemma scan_hit:
  "scan_table n v i es nm = Inr j \<Longrightarrow> i \<le> j \<and> j < i + length es \<and> es ! (j - i) = (n, v)"
proof (induction n v i es nm rule: scan_table.induct)
  case (2 n v i m w es nm)
  then show ?case by (fastforce simp: nth_Cons' split: if_splits)
qed simp

lemma scan_name:
  "scan_table n v i es nm = Inl (Some j) \<Longrightarrow>
     nm = Some j \<or> i \<le> j \<and> j < i + length es \<and> fst (es ! (j - i)) = n"
proof (induction n v i es nm rule: scan_table.induct)
  case (2 n v i m w es nm)
  then show ?case by (fastforce simp: nth_Cons' split: if_splits)
qed simp

lemma table_get_nth:
  "0 < i \<Longrightarrow> i < 62 + length (entries t) \<Longrightarrow>
     table_get i t = Ok (if i < 62 then STATIC_TABLE ! i else entries t ! (i - 62))"
  by (auto simp: table_get_def get_def Let_def)

lemma nth_tl_static: "0 < j \<Longrightarrow> j < 62 \<Longrightarrow> tl STATIC_TABLE ! (j - Suc 0) = STATIC_TABLE ! j"
  by (simp add: nth_tl)

lemma find_full:
  assumes "find_in_tables n v t = Some (i, False)"
  shows "0 < i \<and> i < 62 + length (entries t) \<and> table_get i t = Ok (n, v)"
proof (cases "scan_table n v 1 (tl STATIC_TABLE) None")
  case (Inr j)
  with assms have i: "i = j" by (simp add: find_in_tables_def)
  from scan_hit [OF Inr] have "1 \<le> j" "j < 62" "tl STATIC_TABLE ! (j - 1) = (n, v)" by simp_all
  then show ?thesis using i by (simp add: table_get_nth nth_tl_static Suc_le_eq)
next
  case (Inl nm)
  with assms have "scan_table n v 62 (entries t) nm = Inr i"
    by (auto simp: find_in_tables_def split: sum.splits)
  from scan_hit [OF this] show ?thesis by (simp add: table_get_nth)
qed

lemma find_name:
  assumes "find_in_tables n v t = Some (i, True)"
  shows "0 < i \<and> i < 62 + length (entries t) \<and> (\<exists>w. table_get i t = Ok (n, w))"
proof -
  obtain nm where nm: "scan_table n v 1 (tl STATIC_TABLE) None = Inl nm"
    and dyn: "scan_table n v 62 (entries t) nm = Inl (Some i)"
    using assms by (auto simp: find_in_tables_def split: sum.splits)
  from scan_name [OF dyn] show ?thesis
  proof
    assume "nm = Some i"
    with scan_name [of n v 1 "tl STATIC_TABLE" None i] nm
    have "1 \<le> i" "i < 62" "fst (tl STATIC_TABLE ! (i - 1)) = n" by simp_all
    then show ?thesis by (cases "STATIC_TABLE ! i") (simp add: table_get_nth nth_tl_static Suc_le_eq)
  next
    assume "62 \<le> i \<and> i < 62 + length (entries t) \<and> fst (entries t ! (i - 62)) = n"
    then show ?thesis by (cases "entries t ! (i - 62)") (simp add: table_get_nth)
  qed
qed

section \<open>Header lists round-trip\<close>

lemma encode_integer_first:
  "\<exists>y tl. y < 2 ^ p \<and> encode_integer x p mk = (mk OR of_nat y) # tl"
proof (cases "x < 2 ^ p - 1")
  case True
  then show ?thesis by (intro exI [of _ x]) (simp add: encode_integer_def)
next
  case False
  then show ?thesis
    by (intro exI [of _ "2 ^ p - 1"] exI [of _ "encode_tail (x - (2 ^ p - 1))"])
      (simp add: encode_integer_def Let_def del: of_nat_diff)
qed

lemma literal_prefix:
  assumes "y < 64"
  shows "(0x40 OR of_nat y :: u8) AND 0x80 = 0" "(0x40 OR of_nat y :: u8) AND 0xC0 = 0x40"
proof -
  let ?w = "of_nat y :: u8"
  have "take_bit 6 ?w = ?w"
    using assms by (simp add: word_unat_eq_iff unsigned_take_bit_eq unat_of_nat take_bit_nat_eq_self)
  then have w: "?w = ?w AND 0x3F" by (simp add: take_bit_eq_mask mask_eq_exp_minus_1)
  have "?w AND 0xC0 = 0" "?w AND 0x80 = 0" by (subst w, simp add: and.assoc)+
  then show "(0x40 OR ?w) AND 0x80 = 0" "(0x40 OR ?w) AND 0xC0 = 0x40"
    by (simp_all add: bit.conj_disj_distrib2)
qed

definition encodable :: "header \<Rightarrow> bool" where
  "encodable h \<longleftrightarrow> is_str (fst h) \<and> is_str (snd h) \<and> length (fst h) < 2 ^ 35 \<and> length (snd h) < 2 ^ 35"

lemma decode_field_indexed:
  assumes "0 < i" "i < 2 ^ 35" "table_get i t = Ok h"
  shows "decode_field t (encode_integer i 7 0x80 @ rest) = Ok ([h], t, length (encode_integer i 7 0x80))"
proof -
  obtain y tl where y: "encode_integer i 7 0x80 = (0x80 OR of_nat y) # tl"
    using encode_integer_first [of 7 i "0x80"] by blast
  then have "get (encode_integer i 7 0x80 @ rest) 0 = Some (0x80 OR of_nat y)" by simp
  moreover have "(0x80 OR of_nat y :: u8) AND 0x80 \<noteq> 0" by (simp add: bit.conj_disj_distrib2)
  moreover have "decode_integer (encode_integer i 7 0x80 @ rest) 7 = Ok (i, length (encode_integer i 7 0x80))"
    by (rule decode_integer_encode) (use assms(2) in auto)
  ultimately show ?thesis by (simp add: decode_field_def assms(3))
qed

lemma decode_field_literal:
  assumes "decode_literal t (encode_integer i 6 0x40 @ rest) 6 = Ok ((n, v), c)"
  shows "decode_field t (encode_integer i 6 0x40 @ rest) = Ok ([(n, v)], table_insert t n v, c)"
proof -
  obtain y tl where y: "y < 64" "encode_integer i 6 0x40 = (0x40 OR of_nat y) # tl"
    using encode_integer_first [of 6 i "0x40"] by auto
  then have "get (encode_integer i 6 0x40 @ rest) 0 = Some (0x40 OR of_nat y)" by simp
  with literal_prefix [OF y(1)] assms show ?thesis by (simp add: decode_field_def)
qed

lemma decode_field_encode:
  assumes t: "table_ok t" "max_size t \<le> 2 ^ 35" and h: "encodable (n, v)"
    and enc: "encode_field t n v = (field, t')"
  shows "decode_field t (field @ rest) = Ok ([(n, v)], t', length field)"
proof (cases "find_in_tables n v t")
  case None
  have int: "decode_integer (encode_integer 0 6 0x40 @ encode_string n @ encode_string v @ rest) 6
      = Ok (0, length (encode_integer 0 6 0x40))"
    by (rule decode_integer_encode) auto
  have zero: "encode_integer 0 6 0x40 = [0x40]" by (simp add: encode_integer_def)
  have "get_from ([0x40] @ encode_string n @ encode_string v @ rest) (1 + length (encode_string n))
      = Some (encode_string v @ rest)"
    using get_from_append [of "[0x40] @ encode_string n" "encode_string v @ rest"] by simp
  then have "decode_literal t ([0x40] @ encode_string n @ encode_string v @ rest) 6
      = Ok ((n, v), 1 + length (encode_string n) + length (encode_string v))"
    using int zero h get_from_append [of "[0x40]" "encode_string n @ encode_string v @ rest"]
    by (simp add: decode_literal_def decode_string_encode encodable_def)
  with decode_field_literal [of t 0 "encode_string n @ encode_string v @ rest"] zero enc None
  show ?thesis by (auto simp: encode_field_def)
next
  case (Some p)
  obtain i b where p: "p = (i, b)" by fastforce
  have small: "62 + length (entries t) < 2 ^ 35" using table_length [OF t(1)] t(2) by simp
  show ?thesis
  proof (cases b)
    case False
    with Some p find_full [of n v t i] small
    have "0 < i" "i < 2 ^ 35" "table_get i t = Ok (n, v)" by auto
    from decode_field_indexed [OF this] enc Some p False show ?thesis by (simp add: encode_field_def)
  next
    case True
    with Some p find_name [of n v t i] small obtain w
      where i: "0 < i" "i < 2 ^ 35" "table_get i t = Ok (n, w)" by auto
    have "decode_integer (encode_integer i 6 0x40 @ encode_string v @ rest) 6
        = Ok (i, length (encode_integer i 6 0x40))"
      by (rule decode_integer_encode) (use i(2) in auto)
    then have "decode_literal t (encode_integer i 6 0x40 @ encode_string v @ rest) 6
        = Ok ((n, v), length (encode_integer i 6 0x40) + length (encode_string v))"
      using i h by (simp add: decode_literal_def get_from_append decode_string_encode encodable_def)
    with decode_field_literal [of t i "encode_string v @ rest"] enc Some p True
    show ?thesis by (auto simp: encode_field_def)
  qed
qed

lemma encode_field_ok:
  "table_ok t \<Longrightarrow> encode_field t n v = (f, t') \<Longrightarrow> table_ok t' \<and> max_size t' = max_size t"
  by (auto simp: encode_field_def insert_ok split: option.splits bool.splits)

lemma decode_loop_encode:
  assumes "table_ok t" "max_size t \<le> 2 ^ 35" "\<forall>h \<in> set hs. encodable h"
  shows "decode_loop t (pre @ fst (hpack_encode t hs)) (length pre) acc
    = (Ok (acc @ hs), snd (hpack_encode t hs))"
  using assms
proof (induction t hs arbitrary: pre acc rule: hpack_encode.induct)
  case (1 t)
  then show ?case by (subst decode_loop.simps) simp
next
  case (2 t n v hs)
  obtain f t' where f: "encode_field t n v = (f, t')" by fastforce
  obtain r t'' where r: "hpack_encode t' hs = (r, t'')" by fastforce
  have dec: "decode_field t (f @ r) = Ok ([(n, v)], t', length f)"
    using "2.prems" f by (intro decode_field_encode) auto
  from decode_field_consumes [OF dec] have "0 < length f" by simp
  then have "decode_loop t (pre @ f @ r) (length pre) acc
      = decode_loop t' ((pre @ f) @ r) (length (pre @ f)) (acc @ [(n, v)])"
    by (subst decode_loop.simps) (simp add: dec)
  also have "\<dots> = (Ok ((acc @ [(n, v)]) @ hs), t'')"
    using "2.IH" [OF f [symmetric] refl, of "pre @ f" "acc @ [(n, v)]"] "2.prems" encode_field_ok [OF _ f] r
    by auto
  finally show ?case by (simp add: f r)
qed

text \<open>A connection: the blocks one encoder sends, and what one decoder makes of them.\<close>

fun encode_blocks :: "dynamic_table \<Rightarrow> header list list \<Rightarrow> bytes list \<times> dynamic_table" where
  "encode_blocks t [] = ([], t)"
| "encode_blocks t (hs # hss) =
     (let (b, t') = hpack_encode t hs; (bs, t'') = encode_blocks t' hss in (b # bs, t''))"

fun decode_blocks :: "dynamic_table \<Rightarrow> bytes list \<Rightarrow> (header list, h2_error) result list \<times> dynamic_table" where
  "decode_blocks t [] = ([], t)"
| "decode_blocks t (b # bs) =
     (let (r, t') = hpack_decode t b; (rs, t'') = decode_blocks t' bs in (r # rs, t''))"

lemma decode_encode_blocks:
  assumes "table_ok t" "max_size t \<le> 2 ^ 35" "\<forall>hs \<in> set hss. \<forall>h \<in> set hs. encodable h"
  shows "decode_blocks t (fst (encode_blocks t hss)) = (map Ok hss, snd (encode_blocks t hss))"
  using assms
proof (induction t hss rule: encode_blocks.induct)
  case (2 t hs hss)
  obtain b t' where b: "hpack_encode t hs = (b, t')" by fastforce
  obtain bs t'' where bs: "encode_blocks t' hss = (bs, t'')" by fastforce
  have "hpack_decode t b = (Ok hs, t')"
    using decode_loop_encode [of t hs "[]" "[]"] "2.prems" b by (simp add: hpack_decode_def)
  moreover have "table_ok t'" "max_size t' = max_size t"
    using hpack_encode_ok [of t hs] "2.prems" b by simp_all
  ultimately show ?case using "2.IH" [OF b [symmetric] refl] "2.prems" by (simp add: b bs)
qed simp

datatype table_op = DecodeBlock bytes | EncodeHeaders "header list" | SetMax nat

primrec table_step :: "dynamic_table \<Rightarrow> table_op \<Rightarrow> dynamic_table" where
  "table_step t (DecodeBlock b) = snd (hpack_decode t b)"
| "table_step t (EncodeHeaders hs) = snd (hpack_encode t hs)"
| "table_step t (SetMax m) = set_max_size t m"

lemma table_run_ok: "table_ok t \<Longrightarrow> table_ok (foldl table_step t ops)"
proof (induction ops arbitrary: t)
  case (Cons p ops)
  then show ?case by (cases p) (simp_all add: decode_loop_ok hpack_decode_def hpack_encode_ok set_max_ok)
qed simp

section \<open>Properties\<close>

text \<open>C7. Compression is lossless over a whole connection: starting from the same table size (at most
  \<open>2 ^ 35\<close>), the decoder returns every header list the encoder was given, in order, and the two
  dynamic tables agree after every block, evictions included. Names and values are UTF-8 strings
  shorter than \<open>2 ^ 35\<close> bytes.\<close>

theorem hpack_connection_roundtrip:
  assumes "mx \<le> 2 ^ 35" and "\<forall>hs \<in> set hss. \<forall>h \<in> set hs. encodable h"
  shows "decode_blocks (dynamic_table_new mx) (fst (encode_blocks (dynamic_table_new mx) hss))
    = (map Ok hss, snd (encode_blocks (dynamic_table_new mx) hss))"
  using assms by (intro decode_encode_blocks) (simp_all add: dynamic_table_new_def table_ok_def)

theorem hpack_connection_roundtrip_witness:
  "fst (decode_blocks (dynamic_table_new 4096) (fst (encode_blocks (dynamic_table_new 4096)
      [[('':method'', ''GET''), (''x-a'', ''1'')], [(''x-a'', ''1''), (''x-a'', ''2'')]])))
    = [Ok [('':method'', ''GET''), (''x-a'', ''1'')], Ok [(''x-a'', ''1''), (''x-a'', ''2'')]]"
proof -
  have "\<forall>hs \<in> set [[('':method'', ''GET''), (''x-a'', ''1'')], [(''x-a'', ''1''), (''x-a'', ''2'')]].
      \<forall>h \<in> set hs. encodable h"
    by (simp add: encodable_def is_str_ascii)
  from hpack_connection_roundtrip [OF _ this, of 4096] show ?thesis by simp
qed

text \<open>C9. The size accounting of the dynamic table is an invariant: whatever blocks are decoded (also
  malformed ones), whatever headers are encoded and whatever size is set, the recorded size is the sum
  of the entry sizes and is within the maximum, so the table holds at most a 32nd of it in entries.\<close>

theorem hpack_table_invariant:
  "let t = foldl table_step (dynamic_table_new mx) ops in
     dt_size t = sum_list (map (\<lambda>(n, v). entry_size n v) (entries t)) \<and> dt_size t \<le> max_size t
     \<and> 32 * length (entries t) \<le> max_size t"
  using table_run_ok [of "dynamic_table_new mx" ops] table_length [of "foldl table_step (dynamic_table_new mx) ops"]
  by (simp add: Let_def table_ok_def dynamic_table_new_def)

text \<open>The peer controls the maximum of the decoder's table: a size update in a block replaces it
  without a bound, so six bytes raise a table configured with any smaller maximum to more than
  \<open>2 ^ 35\<close> bytes.\<close>

lemma hpack_size_update_unbounded:
  "hpack_decode (dynamic_table_new mx) [0x3F, 0xFF, 0xFF, 0xFF, 0xFF, 0x7F]
    = (Ok [], dynamic_table_new (2 ^ 35 + 30))"
proof -
  have int: "decode_integer [0x3F, 0xFF, 0xFF, 0xFF, 0xFF, 0x7F] 5 = Ok (2 ^ 35 + 30, 6)"
    by (simp add: decode_integer_def decode_tail.simps push_bit_eq_mult Let_def)
  have "decode_field (dynamic_table_new mx) [0x3F, 0xFF, 0xFF, 0xFF, 0xFF, 0x7F]
      = Ok ([], dynamic_table_new (2 ^ 35 + 30), 6)"
    using int by (simp add: decode_field_def set_max_size_def dynamic_table_new_def evict.simps)
  then show ?thesis
    by (simp add: hpack_decode_def) (subst decode_loop.simps, simp, subst decode_loop.simps, simp)
qed

end
