(* ===== verification/Rate_Window.thy ===== *)
theory Rate_Window
  imports Prelude
begin

text \<open>
  The contract of the fixed-window limiters of the gateway (SETTINGS, PING and RST_STREAM floods): an
  observation either opens a new window at its own time, at least one span after the last one, or
  counts in the open window; an accepted observation leaves the count within the limit. In the locale:
  the rate an accepted sequence of observations can have at most.
\<close>

locale window_limiter =
  fixes observe :: "'d \<Rightarrow> nat \<Rightarrow> bool \<times> 'd"
    and opened :: "'d \<Rightarrow> nat option" and seen :: "'d \<Rightarrow> nat"
    and limit :: "'d \<Rightarrow> nat" and span :: "'d \<Rightarrow> nat" and inv :: "'d \<Rightarrow> bool"
  assumes keeps: "inv d \<Longrightarrow> fst (observe d t) \<Longrightarrow> inv (snd (observe d t))
        \<and> limit (snd (observe d t)) = limit d \<and> span (snd (observe d t)) = span d"
    and moves: "inv d \<Longrightarrow> fst (observe d t) \<Longrightarrow>
        (opened (snd (observe d t)) = Some t \<and> seen (snd (observe d t)) = 1
          \<and> (\<forall>s. opened d = Some s \<longrightarrow> s + span d \<le> t))
      \<or> (opened (snd (observe d t)) = opened d \<and> opened d \<noteq> None
          \<and> seen (snd (observe d t)) = seen d + 1)"
    and bounded: "inv d \<Longrightarrow> fst (observe d t) \<Longrightarrow> seen (snd (observe d t)) \<le> limit d"
begin

text \<open>Every observation of the sequence is accepted; the state after it.\<close>

fun accepted :: "'d \<Rightarrow> nat list \<Rightarrow> bool" where
  "accepted d [] \<longleftrightarrow> True"
| "accepted d (t # ts) \<longleftrightarrow> fst (observe d t) \<and> accepted (snd (observe d t)) ts"

fun after :: "'d \<Rightarrow> nat list \<Rightarrow> 'd" where
  "after d [] = d"
| "after d (t # ts) = after (snd (observe d t)) ts"

lemma accepted_append: "accepted d (xs @ ys) \<longleftrightarrow> accepted d xs \<and> accepted (after d xs) ys"
  by (induction xs arbitrary: d) auto

lemma accepted_keeps:
  "inv d \<Longrightarrow> accepted d ts \<Longrightarrow> inv (after d ts) \<and> limit (after d ts) = limit d \<and> span (after d ts) = span d"
  by (induction ts arbitrary: d) (auto simp: keeps)

lemma next_window:
  assumes "inv d" "opened d = Some s" "accepted d ts" "limit d - seen d < length ts"
  shows "\<exists>k \<le> limit d - seen d. k < length ts \<and> s + span d \<le> ts ! k
    \<and> opened (after d (take (Suc k) ts)) = Some (ts ! k)"
  using assms
proof (induction ts arbitrary: d)
  case (Cons t ts)
  let ?d = "snd (observe d t)"
  have step: "fst (observe d t)" and acc: "accepted ?d ts" using Cons.prems(3) by simp_all
  note k = keeps [OF Cons.prems(1) step]
  from moves [OF Cons.prems(1) step] show ?case
  proof
    assume "opened ?d = Some t \<and> seen ?d = 1 \<and> (\<forall>s. opened d = Some s \<longrightarrow> s + span d \<le> t)"
    then show ?thesis using Cons.prems(2) by (intro exI [of _ 0]) simp
  next
    assume same: "opened ?d = opened d \<and> opened d \<noteq> None \<and> seen ?d = seen d + 1"
    have le: "seen ?d \<le> limit d" using bounded [OF Cons.prems(1) step] .
    then have "limit ?d - seen ?d < length ts" using Cons.prems(4) same k by simp
    from Cons.IH [OF _ _ acc this] k same Cons.prems(2) obtain j
      where "j \<le> limit ?d - seen ?d" "j < length ts" "s + span d \<le> ts ! j"
      "opened (after ?d (take (Suc j) ts)) = Some (ts ! j)"
      by auto
    then show ?thesis using same k le by (intro exI [of _ "Suc j"]) simp
  qed
qed simp

lemma after_append: "after d (xs @ ys) = after (after d xs) ys"
  by (induction xs arbitrary: d) auto

lemma last_observed:
  assumes "inv d" "accepted d (xs @ [x])"
  shows "opened (after d (xs @ [x])) \<noteq> None \<and> 1 \<le> seen (after d (xs @ [x]))
    \<and> seen (after d (xs @ [x])) \<le> limit d"
proof -
  let ?c = "after d xs"
  have c: "inv ?c" "limit ?c = limit d" using accepted_keeps assms by (auto simp: accepted_append)
  have e: "fst (observe ?c x)" using assms(2) by (simp add: accepted_append)
  from moves [OF c(1) e] bounded [OF c(1) e] c(2) show ?thesis by (auto simp: after_append)
qed

lemma window_after:
  assumes "inv d" "accepted d ts" "i + limit d < length ts"
  obtains b s where "i < b" "b \<le> i + limit d" "opened (after d (take (Suc i) ts)) = Some s"
    "s + span d \<le> ts ! b" "opened (after d (take (Suc b) ts)) = Some (ts ! b)"
proof -
  define e where "e = after d (take (Suc i) ts)"
  have take: "take (Suc i) ts = take i ts @ [ts ! i]" using assms(3) by (simp add: take_Suc_conv_app_nth)
  have acc: "accepted d (take (Suc i) ts)" "accepted e (drop (Suc i) ts)"
    using assms(2) accepted_append [of d "take (Suc i) ts" "drop (Suc i) ts"] by (auto simp: e_def)
  note e = accepted_keeps [OF assms(1) acc(1), folded e_def]
  obtain s where s: "opened e = Some s" "1 \<le> seen e" "seen e \<le> limit d"
    using last_observed [OF assms(1)] acc(1) by (auto simp: e_def take)
  have room: "limit e - seen e < length (drop (Suc i) ts)" using s e assms(3) by simp
  from next_window [OF _ s(1) acc(2) room] e obtain k where
    k: "k \<le> limit d - seen e" "k < length ts - Suc i" "s + span d \<le> drop (Suc i) ts ! k"
    "opened (after e (take (Suc k) (drop (Suc i) ts))) = Some (drop (Suc i) ts ! k)" by auto
  have "take (Suc (Suc i + k)) ts = take (Suc i) ts @ take (Suc k) (drop (Suc i) ts)"
    using take_add [of "Suc i" "Suc k" ts] by simp
  then have "opened (after d (take (Suc (Suc i + k)) ts)) = Some (ts ! (Suc i + k))"
    using k by (simp add: after_append e_def)
  with k s show thesis by (intro that [of "Suc i + k" s]) (auto simp: e_def)
qed

text \<open>Among accepted observations in order of time, one is at least a span later than any one that
  came twice the limit before it.\<close>

lemma rate_bound:
  assumes "inv d" "accepted d ts" "sorted ts" "i + 2 * limit d \<le> j" "j < length ts"
  shows "ts ! i + span d \<le> ts ! j"
proof -
  have "i + limit d < length ts" using assms(4,5) by simp
  from window_after [OF assms(1,2) this] obtain b where
    b: "i < b" "b \<le> i + limit d" "opened (after d (take (Suc b) ts)) = Some (ts ! b)" by metis
  have "b + limit d < length ts" using assms(4,5) b(2) by simp
  from window_after [OF assms(1,2) this] b(3) obtain c where
    c: "b < c" "c \<le> b + limit d" "ts ! b + span d \<le> ts ! c" by (metis option.inject)
  have "ts ! i \<le> ts ! b" "ts ! c \<le> ts ! j"
    using b c assms(4,5) by (auto intro!: sorted_nth_mono [OF assms(3)])
  with c(3) show ?thesis by simp
qed

end

end
