(* ===== verification/H2_Security.thy ===== *)
theory H2_Security
  imports H2_Frame Rate_Window
begin

text \<open>
  The HTTP/2 abuse detectors (\<open>lb-h2/src/security.rs\<close>): rapid reset, CONTINUATION flood,
  decompression bomb, SETTINGS and PING flood, zero-window stall. Times are natural numbers (ticks of
  the caller, or nanoseconds of an \<open>Instant\<close>; \<open>saturating_duration_since\<close> is the subtraction of
  \<^typ>\<open>nat\<close>). The three rate detectors are instances of the window-limiter contract.
\<close>

section \<open>Rapid reset\<close>

record rapid_reset_detector =
  rr_threshold :: nat
  window_ticks :: nat
  rr_window_start :: nat
  rr_count_in_window :: nat
  prev_count :: nat

definition rapid_reset_new :: "nat \<Rightarrow> nat \<Rightarrow> rapid_reset_detector" where
  "rapid_reset_new threshold ticks =
     \<lparr>rr_threshold = threshold, window_ticks = ticks, rr_window_start = 0, rr_count_in_window = 0,
      prev_count = 0\<rparr>"

definition rapid_reset_rotate :: "rapid_reset_detector \<Rightarrow> nat \<Rightarrow> rapid_reset_detector" where
  "rapid_reset_rotate d tick =
     (let elapsed = tick - rr_window_start d in
      if elapsed > window_ticks d then
        d\<lparr>prev_count := (if elapsed > saturating_mul 64 (window_ticks d) 2 then 0 else rr_count_in_window d),
          rr_window_start := tick, rr_count_in_window := 1\<rparr>
      else d\<lparr>rr_count_in_window := wrapping_add 64 (rr_count_in_window d) 1\<rparr>)"

definition rapid_reset_estimate :: "rapid_reset_detector \<Rightarrow> nat \<Rightarrow> nat" where
  "rapid_reset_estimate d tick =
     (let elapsed_in_current = tick - rr_window_start d;
          elapsed_fraction_x1000 =
            (case checked_div (saturating_mul 64 elapsed_in_current 1000) (window_ticks d) of
               Some q \<Rightarrow> q | None \<Rightarrow> 1000);
          weight_prev_x1000 = 1000 - elapsed_fraction_x1000
      in saturating_add 64 (saturating_mul 64 (prev_count d) weight_prev_x1000)
           (saturating_mul 64 (rr_count_in_window d) 1000))"

definition rapid_reset_record :: "rapid_reset_detector \<Rightarrow> nat \<Rightarrow> (unit, h2_error) result \<times> rapid_reset_detector" where
  "rapid_reset_record d tick =
     (let d = rapid_reset_rotate d tick in
      if rapid_reset_estimate d tick > saturating_mul 64 (rr_threshold d) 1000
      then (Err (RapidReset (rr_count_in_window d)), d) else (Ok (), d))"

definition rapid_reset_reset :: "rapid_reset_detector \<Rightarrow> rapid_reset_detector" where
  "rapid_reset_reset d = d\<lparr>rr_window_start := 0, rr_count_in_window := 0, prev_count := 0\<rparr>"

section \<open>CONTINUATION flood\<close>

record continuation_flood_detector =
  max_continuations :: nat
  cf_count :: nat

definition continuation_flood_new :: "nat \<Rightarrow> continuation_flood_detector" where
  "continuation_flood_new mx = \<lparr>max_continuations = mx, cf_count = 0\<rparr>"

definition continuation_record ::
    "continuation_flood_detector \<Rightarrow> bool \<Rightarrow> (unit, h2_error) result \<times> continuation_flood_detector" where
  "continuation_record d end_headers =
     (if end_headers then (Ok (), d\<lparr>cf_count := 0\<rparr>)
      else
        let d = d\<lparr>cf_count := wrapping_add 64 (cf_count d) 1\<rparr> in
        if cf_count d > max_continuations d then (Err (ContinuationFlood (cf_count d)), d)
        else (Ok (), d))"

definition continuation_reset :: "continuation_flood_detector \<Rightarrow> continuation_flood_detector" where
  "continuation_reset d = d\<lparr>cf_count := 0\<rparr>"

section \<open>Decompression bombs\<close>

record hpack_bomb_detector =
  max_ratio :: nat
  max_decoded_size :: nat

definition hpack_bomb_check :: "hpack_bomb_detector \<Rightarrow> nat \<Rightarrow> nat \<Rightarrow> (unit, h2_error) result" where
  "hpack_bomb_check d encoded_size decoded_size =
     (if decoded_size > max_decoded_size d then
        let ratio = (case checked_div decoded_size encoded_size of Some r \<Rightarrow> r | None \<Rightarrow> decoded_size)
        in Err (HpackBomb decoded_size encoded_size ratio)
      else case checked_div decoded_size encoded_size of
          Some ratio \<Rightarrow>
            (if ratio > max_ratio d then Err (HpackBomb decoded_size encoded_size ratio) else Ok ())
        | None \<Rightarrow> Ok ())"

section \<open>SETTINGS and PING floods\<close>

text \<open>The two detectors have the same fields and the same step, up to the error they report.\<close>

record flood_detector =
  max_per_window :: nat
  flood_window :: nat
  window_start :: "nat option"
  count_in_window :: nat

definition flood_new :: "nat \<Rightarrow> nat \<Rightarrow> flood_detector" where
  "flood_new mx window =
     \<lparr>max_per_window = mx, flood_window = window, window_start = None, count_in_window = 0\<rparr>"

definition settings_with_defaults :: flood_detector where
  "settings_with_defaults = flood_new 100 10000000000"

definition ping_with_defaults :: flood_detector where
  "ping_with_defaults = flood_new 50 10000000000"

definition flood_step :: "(nat \<Rightarrow> h2_error) \<Rightarrow> flood_detector \<Rightarrow> nat \<Rightarrow> (unit, h2_error) result \<times> flood_detector" where
  "flood_step err d now =
     (let rotate = (case window_start d of None \<Rightarrow> True | Some start \<Rightarrow> now - start \<ge> flood_window d);
          d = (if rotate then d\<lparr>window_start := Some now, count_in_window := 1\<rparr>
               else d\<lparr>count_in_window := saturating_add 32 (count_in_window d) 1\<rparr>)
      in if count_in_window d > max_per_window d then (Err (err (count_in_window d)), d) else (Ok (), d))"

definition on_settings :: "flood_detector \<Rightarrow> nat \<Rightarrow> (unit, h2_error) result \<times> flood_detector" where
  "on_settings = flood_step SettingsFlood"

definition on_ping :: "flood_detector \<Rightarrow> nat \<Rightarrow> (unit, h2_error) result \<times> flood_detector" where
  "on_ping = flood_step PingFlood"

definition flood_reset :: "flood_detector \<Rightarrow> flood_detector" where
  "flood_reset d = d\<lparr>window_start := None, count_in_window := 0\<rparr>"

section \<open>Zero-window stall\<close>

record zero_window_detector =
  stall_timeout :: nat
  last_progress :: "u32 \<rightharpoonup> nat"

definition zero_window_new :: "nat \<Rightarrow> zero_window_detector" where
  "zero_window_new timeout = \<lparr>stall_timeout = timeout, last_progress = Map.empty\<rparr>"

definition on_window_update :: "zero_window_detector \<Rightarrow> u32 \<Rightarrow> u32 \<Rightarrow> nat \<Rightarrow> zero_window_detector" where
  "on_window_update d sid inc now =
     (let entry = (case last_progress d sid of None \<Rightarrow> now | Some t \<Rightarrow> t);
          entry' = (if inc > 0 then now else entry)
      in d\<lparr>last_progress := (last_progress d)(sid \<mapsto> entry')\<rparr>)"

definition check_stalled :: "zero_window_detector \<Rightarrow> u32 \<Rightarrow> nat \<Rightarrow> bool" where
  "check_stalled d sid now =
     (case last_progress d sid of None \<Rightarrow> False | Some last_t \<Rightarrow> now - last_t > stall_timeout d)"

definition remove_stream :: "zero_window_detector \<Rightarrow> u32 \<Rightarrow> zero_window_detector" where
  "remove_stream d sid = d\<lparr>last_progress := (last_progress d)(sid := None)\<rparr>"

definition zero_window_reset :: "zero_window_detector \<Rightarrow> zero_window_detector" where
  "zero_window_reset d = d\<lparr>last_progress := Map.empty\<rparr>"

section \<open>The rate detectors are window limiters\<close>

definition is_ok :: "('a, 'e) result \<Rightarrow> bool" where
  "is_ok r \<longleftrightarrow> (case r of Inr _ \<Rightarrow> True | Inl _ \<Rightarrow> False)"

lemma is_ok_simps [simp]: "is_ok (Ok x)" "\<not> is_ok (Err e)"
  by (simp_all add: is_ok_def)

lemma flood_limiter:
  "window_limiter (\<lambda>d t. map_prod is_ok id (flood_step err d t)) window_start count_in_window
     max_per_window flood_window
     (\<lambda>d. count_in_window d \<le> max_per_window d \<and> max_per_window d < max_of 32 \<and> 0 < flood_window d)"
  by unfold_locales
    (auto simp: flood_step_def Let_def saturating_add_exact split: option.splits if_splits)

interpretation settings: window_limiter "\<lambda>d t. map_prod is_ok id (on_settings d t)" window_start
  count_in_window max_per_window flood_window
  "\<lambda>d. count_in_window d \<le> max_per_window d \<and> max_per_window d < max_of 32 \<and> 0 < flood_window d"
  unfolding on_settings_def by (rule flood_limiter)

interpretation ping: window_limiter "\<lambda>d t. map_prod is_ok id (on_ping d t)" window_start
  count_in_window max_per_window flood_window
  "\<lambda>d. count_in_window d \<le> max_per_window d \<and> max_per_window d < max_of 32 \<and> 0 < flood_window d"
  unfolding on_ping_def by (rule flood_limiter)

text \<open>A reset detector rotates only when more than a window has passed: its span is one tick longer.\<close>

lemma rapid_accept_bound:
  assumes "rr_threshold d < 2 ^ 54" and "is_ok (fst (rapid_reset_record d t))"
  shows "rr_count_in_window (snd (rapid_reset_record d t)) \<le> rr_threshold d"
proof -
  define e where "e = rapid_reset_rotate d t"
  have thr: "rr_threshold e = rr_threshold d" by (simp add: e_def rapid_reset_rotate_def Let_def)
  have lim: "rr_threshold d * 1000 < max_of 64" using assms(1) by (simp add: max_of_def)
  have snd: "snd (rapid_reset_record d t) = e" by (simp add: rapid_reset_record_def e_def Let_def)
  have "rapid_reset_estimate e t \<le> saturating_mul 64 (rr_threshold e) 1000"
    using assms(2) by (auto simp: rapid_reset_record_def e_def Let_def split: if_splits)
  also have "\<dots> = rr_threshold d * 1000" using lim thr by (simp add: saturating_mul_exact)
  finally have "rapid_reset_estimate e t \<le> rr_threshold d * 1000" .
  then have "saturating_mul 64 (rr_count_in_window e) 1000 \<le> rr_threshold d * 1000"
    unfolding rapid_reset_estimate_def Let_def by (rule add_leD2 [OF saturating_add_bound [OF _ lim]])
  from saturating_mul_bound [OF this lim] show ?thesis by (simp add: snd)
qed

interpretation rapid: window_limiter "\<lambda>d t. map_prod is_ok id (rapid_reset_record d t)"
  "\<lambda>d. Some (rr_window_start d)" rr_count_in_window rr_threshold "\<lambda>d. window_ticks d + 1"
  "\<lambda>d. rr_count_in_window d \<le> rr_threshold d \<and> rr_threshold d < 2 ^ 54"
proof
  fix d t
  assume inv: "rr_count_in_window d \<le> rr_threshold d \<and> rr_threshold d < 2 ^ 54"
    and "fst (map_prod is_ok id (rapid_reset_record d t))"
  then have ok: "is_ok (fst (rapid_reset_record d t))" by simp
  let ?e = "rapid_reset_rotate d t"
  have snd: "snd (rapid_reset_record d t) = ?e" by (simp add: rapid_reset_record_def Let_def)
  have cfg: "rr_threshold ?e = rr_threshold d" "window_ticks ?e = window_ticks d"
    by (simp_all add: rapid_reset_rotate_def Let_def)
  have bound: "rr_count_in_window ?e \<le> rr_threshold d"
    using rapid_accept_bound [of d t] inv ok snd by simp
  show "rr_count_in_window (snd (map_prod is_ok id (rapid_reset_record d t))) \<le> rr_threshold d"
    using bound snd by simp
  have exact: "wrapping_add 64 (rr_count_in_window d) 1 = rr_count_in_window d + 1"
    using inv by (intro wrapping_add_exact) (simp add: max_of_def)
  show "(Some (rr_window_start (snd (map_prod is_ok id (rapid_reset_record d t)))) = Some t
       \<and> rr_count_in_window (snd (map_prod is_ok id (rapid_reset_record d t))) = 1
       \<and> (\<forall>s. Some (rr_window_start d) = Some s \<longrightarrow> s + (window_ticks d + 1) \<le> t))
     \<or> (Some (rr_window_start (snd (map_prod is_ok id (rapid_reset_record d t)))) = Some (rr_window_start d)
       \<and> Some (rr_window_start d) \<noteq> None
       \<and> rr_count_in_window (snd (map_prod is_ok id (rapid_reset_record d t))) = rr_count_in_window d + 1)"
    using exact by (auto simp: snd rapid_reset_rotate_def Let_def)
  show "(rr_count_in_window (snd (map_prod is_ok id (rapid_reset_record d t)))
        \<le> rr_threshold (snd (map_prod is_ok id (rapid_reset_record d t)))
      \<and> rr_threshold (snd (map_prod is_ok id (rapid_reset_record d t))) < 2 ^ 54)
    \<and> rr_threshold (snd (map_prod is_ok id (rapid_reset_record d t))) = rr_threshold d
    \<and> window_ticks (snd (map_prod is_ok id (rapid_reset_record d t))) + 1 = window_ticks d + 1"
    using bound inv by (simp add: snd cfg)
qed

section \<open>Runs of CONTINUATION frames\<close>

fun continuation_run :: "continuation_flood_detector \<Rightarrow> bool list \<Rightarrow> continuation_flood_detector" where
  "continuation_run d [] = d"
| "continuation_run d (b # bs) = continuation_run (snd (continuation_record d b)) bs"

lemma continuation_run_snoc:
  "continuation_run d (bs @ [b]) = snd (continuation_record (continuation_run d bs) b)"
  by (induction d bs rule: continuation_run.induct) auto

lemma continuation_count:
  "length bs < 2 ^ 64 \<Longrightarrow> continuation_run (continuation_flood_new mx) bs
     = \<lparr>max_continuations = mx, cf_count = length (takeWhile Not (rev bs))\<rparr>"
proof (induction bs rule: rev_induct)
  case Nil
  then show ?case by (simp add: continuation_flood_new_def)
next
  case (snoc b bs)
  have "length (takeWhile Not (rev bs)) \<le> length bs" using length_takeWhile_le [of Not "rev bs"] by simp
  then have "wrapping_add 64 (length (takeWhile Not (rev bs))) 1 = length (takeWhile Not (rev bs)) + 1"
    using snoc.prems by (intro wrapping_add_exact) (simp add: max_of_def)
  with snoc show ?case
    by (simp add: continuation_run_snoc continuation_record_def Let_def)
qed

section \<open>Properties\<close>

text \<open>C10. The control-frame limits hold: if the SETTINGS detector accepts every frame of a connection,
  then of any frame and the one that came \<open>2 * max\<close> frames later, the later one is at least a whole
  window later; the PING detector likewise. So a peer that is never refused sends at most twice the
  limit in any window.\<close>

theorem control_frame_rate:
  assumes "0 < w" and "mx < 2 ^ 32 - 1" and "sorted ts" and "i + 2 * mx \<le> j" and "j < length ts"
  shows "(settings.accepted (flood_new mx w) ts \<longrightarrow> ts ! i + w \<le> ts ! j)
    \<and> (ping.accepted (flood_new mx w) ts \<longrightarrow> ts ! i + w \<le> ts ! j)"
  using settings.rate_bound [of "flood_new mx w" ts i j] ping.rate_bound [of "flood_new mx w" ts i j] assms
  by (simp add: flood_new_def max_of_def)

theorem control_frame_rate_witness:
  "settings.accepted (flood_new 1 10) [0, 10, 25] \<and> (0 :: nat) + 10 \<le> [0, 10, 25] ! 2"
proof -
  have "settings.accepted (flood_new 1 10) [0, 10, 25]"
    unfolding settings.accepted.simps by (simp add: on_settings_def flood_step_def flood_new_def)
  with control_frame_rate [of 10 1 "[0, 10, 25]" 0 2] show ?thesis by simp
qed

text \<open>Every reset of a sequence is accepted; the detector after the sequence.\<close>

fun resets_accepted :: "rapid_reset_detector \<Rightarrow> nat list \<Rightarrow> bool" where
  "resets_accepted d [] \<longleftrightarrow> True"
| "resets_accepted d (t # ts) \<longleftrightarrow>
     is_ok (fst (rapid_reset_record d t)) \<and> resets_accepted (snd (rapid_reset_record d t)) ts"

fun resets_after :: "rapid_reset_detector \<Rightarrow> nat list \<Rightarrow> rapid_reset_detector" where
  "resets_after d [] = d"
| "resets_after d (t # ts) = resets_after (snd (rapid_reset_record d t)) ts"

lemma resets_accepted_limiter: "resets_accepted d ts = rapid.accepted d ts"
  by (induction ts arbitrary: d) (simp_all add: rapid.accepted.simps del: id_apply, simp)

lemma resets_after_limiter: "resets_after d ts = rapid.after d ts"
  by (induction ts arbitrary: d) (simp_all add: rapid.after.simps del: id_apply, simp)

lemma resets_accepted_append:
  "resets_accepted d (xs @ ys) \<longleftrightarrow> resets_accepted d xs \<and> resets_accepted (resets_after d xs) ys"
  by (induction xs arbitrary: d) auto

lemma resets_after_append: "resets_after d (xs @ ys) = resets_after (resets_after d xs) ys"
  by (induction xs arbitrary: d) auto

lemma resets_keep:
  assumes "thr < 2 ^ 54" and "resets_accepted (rapid_reset_new thr w) ts"
  shows "rr_count_in_window (resets_after (rapid_reset_new thr w) ts) \<le> thr"
    and "rr_threshold (resets_after (rapid_reset_new thr w) ts) = thr"
    and "window_ticks (resets_after (rapid_reset_new thr w) ts) = w"
proof -
  have "rr_count_in_window (rapid_reset_new thr w) \<le> rr_threshold (rapid_reset_new thr w)
    \<and> rr_threshold (rapid_reset_new thr w) < 2 ^ 54" using assms(1) by (simp add: rapid_reset_new_def)
  from rapid.accepted_keeps [OF this assms(2) [unfolded resets_accepted_limiter], folded resets_after_limiter]
  show "rr_count_in_window (resets_after (rapid_reset_new thr w) ts) \<le> thr"
    "rr_threshold (resets_after (rapid_reset_new thr w) ts) = thr"
    "window_ticks (resets_after (rapid_reset_new thr w) ts) = w" by (simp_all add: rapid_reset_new_def)
qed

text \<open>What the two buckets of the reset detector stand for after the accepted resets \<open>ts\<close>: the last
  \<open>rr_count_in_window\<close> resets lie in the open window, every earlier one came before it, and of those
  all but the last \<open>prev_count\<close> came more than a window before it.\<close>

definition buckets :: "rapid_reset_detector \<Rightarrow> nat list \<Rightarrow> bool" where
  "buckets d ts \<longleftrightarrow> rr_count_in_window d \<le> length ts
     \<and> (ts \<noteq> [] \<longrightarrow> 0 < rr_count_in_window d)
     \<and> (ts = [] \<longrightarrow> rr_window_start d = 0)
     \<and> (\<forall>k < length ts. length ts - rr_count_in_window d \<le> k
          \<longrightarrow> rr_window_start d \<le> ts ! k \<and> ts ! k \<le> rr_window_start d + window_ticks d)
     \<and> (\<forall>k < length ts - rr_count_in_window d. ts ! k \<le> rr_window_start d)
     \<and> (\<forall>k < length ts - rr_count_in_window d - prev_count d. ts ! k + window_ticks d < rr_window_start d)"

lemma buckets_open:
  assumes "buckets d ts" and "k < length ts" and "length ts - rr_count_in_window d \<le> k"
  shows "rr_window_start d \<le> ts ! k" and "ts ! k \<le> rr_window_start d + window_ticks d"
  using assms by (simp_all add: buckets_def)

lemma buckets_before:
  "buckets d ts \<Longrightarrow> k < length ts - rr_count_in_window d \<Longrightarrow> ts ! k \<le> rr_window_start d"
  by (simp add: buckets_def)

lemma buckets_far:
  "buckets d ts \<Longrightarrow> k < length ts - rr_count_in_window d - prev_count d \<Longrightarrow> ts ! k + window_ticks d < rr_window_start d"
  by (simp add: buckets_def)

lemma buckets_count: "buckets d ts \<Longrightarrow> ts \<noteq> [] \<Longrightarrow> 0 < rr_count_in_window d"
  by (simp add: buckets_def)

lemma buckets_window_le:
  assumes "buckets d ts" and "sorted (ts @ [t])"
  shows "rr_window_start d \<le> t"
proof (cases ts rule: rev_cases)
  case Nil
  with assms(1) show ?thesis by (simp add: buckets_def)
next
  case (snoc ys y)
  then have "rr_window_start d \<le> ts ! length ys"
    using buckets_open [OF assms(1), of "length ys"] buckets_count [OF assms(1)] by simp
  with snoc assms(2) show ?thesis by (auto simp: sorted_append)
qed

lemma rotate_same:
  assumes "t \<le> rr_window_start d + window_ticks d" and "rr_count_in_window d < 2 ^ 54"
  shows "rapid_reset_rotate d t = d\<lparr>rr_count_in_window := rr_count_in_window d + 1\<rparr>"
  using assms by (simp add: rapid_reset_rotate_def wrapping_add_def Let_def)

lemma rotate_new:
  assumes "rr_window_start d + window_ticks d < t" and "window_ticks d < 2 ^ 54"
  shows "rapid_reset_rotate d t =
    d\<lparr>prev_count := (if rr_window_start d + 2 * window_ticks d < t then 0 else rr_count_in_window d),
      rr_window_start := t, rr_count_in_window := 1\<rparr>"
  using assms by (auto simp: rapid_reset_rotate_def saturating_mul_def max_of_def Let_def)

lemma buckets_same:
  assumes "buckets d ts" and "sorted (ts @ [t])" and "t \<le> rr_window_start d + window_ticks d"
  shows "buckets (d\<lparr>rr_count_in_window := rr_count_in_window d + 1\<rparr>) (ts @ [t])"
  using assms(1,3) buckets_window_le [OF assms(1,2)]
  unfolding buckets_def by (auto simp: nth_append less_Suc_eq)

lemma buckets_new:
  assumes "buckets d ts" and "sorted (ts @ [t])" and new: "rr_window_start d + window_ticks d < t"
    and p: "p = (if rr_window_start d + 2 * window_ticks d < t then 0 else rr_count_in_window d)"
  shows "buckets (d\<lparr>prev_count := p, rr_window_start := t, rr_count_in_window := 1\<rparr>) (ts @ [t])"
proof -
  have le: "ts ! k \<le> t" if "k < length ts" for k using assms(2) that by (auto simp: sorted_append)
  have far: "ts ! k + window_ticks d < t" if k: "k < length ts - p" for k
  proof (cases "k < length ts - rr_count_in_window d")
    case True
    then have "ts ! k \<le> rr_window_start d" by (rule buckets_before [OF assms(1)])
    with new show ?thesis by simp
  next
    case False
    then have "ts ! k \<le> rr_window_start d + window_ticks d" using k by (intro buckets_open [OF assms(1)]) simp_all
    moreover have "rr_window_start d + 2 * window_ticks d < t" using False k p by (auto split: if_splits)
    ultimately show ?thesis by simp
  qed
  show ?thesis using le far unfolding buckets_def by (auto simp: nth_append)
qed

lemma accepted_buckets:
  assumes "thr < 2 ^ 54" and "w < 2 ^ 54" and "resets_accepted (rapid_reset_new thr w) ts" and "sorted ts"
  shows "buckets (resets_after (rapid_reset_new thr w) ts) ts
    \<and> prev_count (resets_after (rapid_reset_new thr w) ts) \<le> thr"
  using assms(3,4)
proof (induction ts rule: rev_induct)
  case Nil
  show ?case unfolding resets_after.simps by (simp add: buckets_def rapid_reset_new_def)
next
  case (snoc t ts)
  let ?d = "resets_after (rapid_reset_new thr w) ts"
  have acc: "resets_accepted (rapid_reset_new thr w) ts" and srt: "sorted ts"
    using snoc.prems by (simp_all add: resets_accepted_append sorted_append)
  note ih = snoc.IH [OF acc srt]
  have d: "rr_count_in_window ?d \<le> thr" "rr_threshold ?d = thr" "window_ticks ?d = w"
    using resets_keep [OF assms(1) acc] by simp_all
  have step: "resets_after (rapid_reset_new thr w) (ts @ [t]) = rapid_reset_rotate ?d t"
    unfolding resets_after_append resets_after.simps by (simp add: rapid_reset_record_def Let_def)
  show ?case
  proof (cases "t \<le> rr_window_start ?d + window_ticks ?d")
    case True
    with ih snoc.prems(2) d assms(1) buckets_same show ?thesis by (simp add: step rotate_same)
  next
    case False
    with ih snoc.prems(2) d assms(2) buckets_new [of ?d ts t] show ?thesis by (simp add: step rotate_new)
  qed
qed

text \<open>The estimate of an accepted reset, in thousandths: the previous bucket weighs in with the part of
  the window that has not passed yet.\<close>

lemma accepted_estimate:
  assumes "thr < 2 ^ 54" and "w < 2 ^ 54" and "0 < w" and "resets_accepted (rapid_reset_new thr w) (ts @ [t])"
    and d: "d = resets_after (rapid_reset_new thr w) (ts @ [t])" and "t \<le> rr_window_start d + w"
  shows "prev_count d * (1000 - 1000 * (t - rr_window_start d) div w) + 1000 * rr_count_in_window d \<le> 1000 * thr"
proof -
  let ?c = "resets_after (rapid_reset_new thr w) ts"
  have c: "rr_threshold ?c = thr" "window_ticks ?c = w"
    using resets_keep [OF assms(1), of w ts] assms(4) by (simp_all add: resets_accepted_append)
  have rot: "d = rapid_reset_rotate ?c t" unfolding d resets_after_append resets_after.simps
    by (simp add: rapid_reset_record_def Let_def)
  then have cfg: "rr_threshold d = thr" "window_ticks d = w" by (simp_all add: rapid_reset_rotate_def Let_def c)
  have "rapid_reset_estimate d t \<le> saturating_mul 64 thr 1000"
    using assms(4) by (auto simp: resets_accepted_append rapid_reset_record_def rot [symmetric] Let_def cfg split: if_splits)
  then have est: "rapid_reset_estimate d t \<le> 1000 * thr" by (simp add: saturating_mul_def)
  have lim: "1000 * thr < max_of 64" using assms(1) by (simp add: max_of_def)
  have frac: "saturating_mul 64 (t - rr_window_start d) 1000 = 1000 * (t - rr_window_start d)"
    using assms(2,6) by (simp add: saturating_mul_def max_of_def)
  let ?p = "saturating_mul 64 (prev_count d) (1000 - 1000 * (t - rr_window_start d) div w)"
  let ?q = "saturating_mul 64 (rr_count_in_window d) 1000"
  have sum: "?p + ?q \<le> 1000 * thr"
    using est assms(3) by (intro saturating_add_bound [OF _ lim]) (simp add: rapid_reset_estimate_def frac cfg checked_div_def)
  then have "?p < max_of 64" "?q < max_of 64" using lim by auto
  then show ?thesis using sum by (simp add: saturating_mul_def min_def mult.commute split: if_splits)
qed

text \<open>C11. No burst at the edge of a window: let the threshold and the window (not zero) be below
  \<open>2 ^ 54\<close> and let the detector accept each of a sequence of RST_STREAM frames with non-decreasing ticks.
  Then the resets from the \<open>i\<close>-th to the \<open>j\<close>-th, where these two are \<open>x \<le> w\<close> ticks apart, number at most
  \<open>threshold * (1 + x / w)\<close> (in thousandths, rounded down as in the code): at most the threshold when they
  come together, wherever the windows fall, and at most twice the threshold in a whole window. A single
  counter per window accepts twice the threshold at once.\<close>

theorem rapid_reset_burst:
  assumes "thr < 2 ^ 54" and "w < 2 ^ 54" and "0 < w"
    and "resets_accepted (rapid_reset_new thr w) ts" and "sorted ts"
    and "i \<le> j" and "j < length ts" and "ts ! j \<le> ts ! i + w"
  shows "1000 * (j - i + 1) \<le> thr * (1000 + 1000 * (ts ! j - ts ! i) div w)"
proof -
  define us where "us = take (Suc j) ts"
  define d where "d = resets_after (rapid_reset_new thr w) us"
  have us: "length us = Suc j" "us ! i = ts ! i" "us ! j = ts ! j" "sorted us"
    using assms(5-7) by (simp_all add: us_def sorted_wrt_take)
  have snoc: "us = take j ts @ [ts ! j]" using assms(7) by (simp add: us_def take_Suc_conv_app_nth)
  have acc: "resets_accepted (rapid_reset_new thr w) us"
    using assms(4) resets_accepted_append [of _ us "drop (Suc j) ts"] by (simp add: us_def)
  have b: "buckets d us" "prev_count d \<le> thr" "window_ticks d = w" "rr_count_in_window d \<le> thr"
    using accepted_buckets [OF assms(1,2) acc us(4)] resets_keep [OF assms(1) acc]
    by (simp_all add: d_def)
  have "0 < rr_count_in_window d" using buckets_count [OF b(1)] snoc by simp
  then have start: "rr_window_start d \<le> ts ! j" "ts ! j \<le> rr_window_start d + w"
    using buckets_open [OF b(1), of j] b(3) us by simp_all
  define f where "f = 1000 * (ts ! j - rr_window_start d) div w"
  have est: "prev_count d * (1000 - f) + 1000 * rr_count_in_window d \<le> 1000 * thr"
    using accepted_estimate [OF assms(1-3), of "take j ts" "ts ! j" d] acc snoc start(2) by (simp add: d_def f_def)
  show ?thesis
  proof (cases "Suc j - rr_count_in_window d \<le> i")
    case True
    then have "j - i + 1 \<le> thr" using b(4) assms(6) by arith
    then have "1000 * (j - i + 1) \<le> thr * 1000" by simp
    also have "\<dots> \<le> thr * (1000 + 1000 * (ts ! j - ts ! i) div w)" by (rule mult_le_mono2) simp
    finally show ?thesis .
  next
    case False
    have old: "ts ! i \<le> rr_window_start d" using buckets_before [OF b(1), of i] us False by simp
    have "\<not> i < Suc j - rr_count_in_window d - prev_count d"
      using buckets_far [OF b(1), of i] b(3) us start(1) assms(8) by auto
    then have n: "j - i + 1 \<le> prev_count d + rr_count_in_window d" using False assms(6) by arith
    have f: "f \<le> 1000 * (ts ! j - ts ! i) div w" unfolding f_def using old by (intro div_le_mono) simp
    have "prev_count d * 1000 \<le> prev_count d * (1000 - f + f)" by (rule mult_le_mono2) simp
    then have "1000 * prev_count d \<le> prev_count d * (1000 - f) + prev_count d * f"
      by (simp add: distrib_left mult.commute)
    also have "prev_count d * f \<le> thr * (1000 * (ts ! j - ts ! i) div w)" using b(2) f by (intro mult_le_mono)
    finally show ?thesis using n est by (simp add: distrib_left)
  qed
qed

theorem rapid_reset_burst_witness:
  "resets_accepted (rapid_reset_new 2 10) [9, 12]
   \<and> (1000 :: nat) * (1 - 0 + 1) \<le> 2 * (1000 + 1000 * (12 - 9) div 10)"
proof -
  let ?d = "\<lambda>start p. \<lparr>rr_threshold = 2, window_ticks = 10, rr_window_start = start,
    rr_count_in_window = 1, prev_count = p\<rparr>"
  have rot: "rapid_reset_rotate (rapid_reset_new 2 10) 9 = ?d 0 0" "rapid_reset_rotate (?d 0 0) 12 = ?d 12 1"
    by (simp_all add: rapid_reset_rotate_def rapid_reset_new_def saturating_mul_def max_of_def wrapping_add_def)
  have est: "rapid_reset_estimate (?d 0 0) 9 = 1000" "rapid_reset_estimate (?d 12 1) 12 = 2000"
    "saturating_mul 64 2 1000 = 2000"
    by (simp_all add: rapid_reset_estimate_def saturating_mul_def saturating_add_def max_of_def checked_div_def)
  have "resets_accepted (rapid_reset_new 2 10) [9, 12]"
    unfolding resets_accepted.simps by (simp add: rapid_reset_record_def rot est del: One_nat_def)
  with rapid_reset_burst [of 2 10 "[9, 12]" 0 1] show ?thesis by simp
qed

text \<open>The CONTINUATION detector refuses a frame exactly when it is not the end of the header block
  and more than the allowed number of such frames have come in a row, on any sequence of fewer than
  \<open>2 ^ 64\<close> frames; the error carries the length of that row.\<close>

lemma continuation_flood_exact:
  assumes "length bs + 1 < 2 ^ 64"
  shows "fst (continuation_record (continuation_run (continuation_flood_new mx) bs) b) =
    (let row = length (takeWhile Not (rev (bs @ [b])))
     in if row > mx then Err (ContinuationFlood row) else Ok ())"
proof -
  have "length (takeWhile Not (rev bs)) \<le> length bs" using length_takeWhile_le [of Not "rev bs"] by simp
  then have "wrapping_add 64 (length (takeWhile Not (rev bs))) 1 = length (takeWhile Not (rev bs)) + 1"
    using assms by (intro wrapping_add_exact) (simp add: max_of_def)
  with assms show ?thesis by (simp add: continuation_count continuation_record_def Let_def)
qed

lemma continuation_flood_exact_witness:
  "fst (continuation_record (continuation_run (continuation_flood_new 1) [False, True, False]) False)
    = Err (ContinuationFlood 2)"
  using continuation_flood_exact [of "[False, True, False]" 1 False] by simp

text \<open>The bomb check passes exactly the blocks within the absolute cap whose size stays below
  \<open>(max_ratio + 1)\<close> times the encoded size; an encoded size of zero is held to the cap only.\<close>

lemma hpack_bomb_exact:
  "hpack_bomb_check d enc dec = Ok () \<longleftrightarrow>
     dec \<le> max_decoded_size d \<and> (enc = 0 \<or> dec < (max_ratio d + 1) * enc)"
proof -
  have "dec div enc \<le> max_ratio d \<longleftrightarrow> dec < (max_ratio d + 1) * enc" if "0 < enc"
    using that div_less_iff_less_mult [of enc dec "max_ratio d + 1"] by (simp add: less_Suc_eq_le)
  then show ?thesis by (auto simp: hpack_bomb_check_def checked_div_def Let_def)
qed

end
