(* ===== verification/H1_Parse.thy ===== *)
theory H1_Parse
  imports Rust_Str
begin

text \<open>
  The HTTP/1.x head parser (\<open>lb-h1/src/parse.rs\<close>): the CRLF searches, the request and status lines
  and the header block with its size cap. \<open>Method\<close>, \<open>Uri\<close> and \<open>StatusCode\<close> belong to the
  \<open>http\<close> crate; their parsers are arguments of the line parsers.
\<close>

section \<open>Errors and tokens\<close>

datatype h1_error =
    H1Incomplete
  | InvalidRequestLine
  | InvalidStatusLine
  | InvalidHeader string
  | InvalidChunkEncoding
  | BodyTooLarge nat nat
  | HeadersTooLarge nat nat

datatype http_version = HTTP_10 | HTTP_11

definition MAX_HEADER_BYTES :: nat where
  "MAX_HEADER_BYTES = 65536"

text \<open>The punctuation is \<open>! # $ % & ' * + - . ^ _ ` | ~\<close>.\<close>

definition is_tchar :: "u8 \<Rightarrow> bool" where
  "is_tchar b \<longleftrightarrow>
     b \<in> set [0x21, 0x23, 0x24, 0x25, 0x26, 0x27, 0x2A, 0x2B, 0x2D, 0x2E, 0x5E, 0x5F, 0x60, 0x7C, 0x7E]
     \<or> (0x30 \<le> b \<and> b \<le> 0x39) \<or> (0x61 \<le> b \<and> b \<le> 0x7A) \<or> (0x41 \<le> b \<and> b \<le> 0x5A)"

section \<open>Finding line ends\<close>

abbreviation (input) CR :: u8 where "CR \<equiv> 0x0D"
abbreviation (input) LF :: u8 where "LF \<equiv> 0x0A"

definition crlf_at :: "bytes \<Rightarrow> nat \<Rightarrow> bool" where
  "crlf_at buf i \<longleftrightarrow> get buf i = Some CR \<and> get buf (i + 1) = Some LF"

definition find_crlf :: "bytes \<Rightarrow> nat option" where
  "find_crlf buf = find (crlf_at buf) [0..<length buf - 1]"

definition find_double_crlf :: "bytes \<Rightarrow> nat option" where
  "find_double_crlf buf = find (\<lambda>i. crlf_at buf i \<and> crlf_at buf (i + 2)) [0..<length buf - 3]"

section \<open>Request and status lines\<close>

definition parse_version :: "string \<Rightarrow> (http_version, h1_error) result" where
  "parse_version s =
     (if s = ''HTTP/1.0'' then Ok HTTP_10 else if s = ''HTTP/1.1'' then Ok HTTP_11
      else Err InvalidRequestLine)"

definition parse_request_line ::
  "(string \<Rightarrow> 'm option) \<Rightarrow> (string \<Rightarrow> 'u option) \<Rightarrow> bytes \<Rightarrow> ('m \<times> 'u \<times> http_version \<times> nat, h1_error) result"
where
  "parse_request_line method_of uri_of buf =
     and_then (ok_or (find_crlf buf) H1Incomplete) (\<lambda>crlf_pos.
     and_then (ok_or (get_range buf 0 crlf_pos) InvalidRequestLine) (\<lambda>line.
     and_then (ok_or (from_utf8 line) InvalidRequestLine) (\<lambda>line_str.
       let parts = splitn 3 CHR '' '' line_str in
       and_then (ok_or (get parts 0) InvalidRequestLine) (\<lambda>method_str.
       and_then (ok_or (get parts 1) InvalidRequestLine) (\<lambda>uri_str.
       and_then (ok_or (get parts 2) InvalidRequestLine) (\<lambda>version_str.
       and_then (ok_or (method_of method_str) InvalidRequestLine) (\<lambda>method.
       and_then (ok_or (uri_of uri_str) InvalidRequestLine) (\<lambda>uri.
       and_then (parse_version version_str) (\<lambda>version.
         Ok (method, uri, version, crlf_pos + 2))))))))))"

definition parse_status_line ::
  "(nat \<Rightarrow> 's option) \<Rightarrow> bytes \<Rightarrow> (http_version \<times> 's \<times> nat, h1_error) result" where
  "parse_status_line from_u16 buf =
     and_then (ok_or (find_crlf buf) H1Incomplete) (\<lambda>crlf_pos.
     and_then (ok_or (get_range buf 0 crlf_pos) InvalidStatusLine) (\<lambda>line.
     and_then (ok_or (from_utf8 line) InvalidStatusLine) (\<lambda>line_str.
       let parts = splitn 3 CHR '' '' line_str in
       and_then (ok_or (get parts 0) InvalidStatusLine) (\<lambda>version_str.
       and_then (ok_or (get parts 1) InvalidStatusLine) (\<lambda>code_str.
       and_then (case parse_version version_str of Inr v \<Rightarrow> Ok v | Inl _ \<Rightarrow> Err InvalidStatusLine) (\<lambda>version.
       and_then (ok_or (parse_uint (max_of 16) code_str) InvalidStatusLine) (\<lambda>code.
       and_then (ok_or (from_u16 code) InvalidStatusLine) (\<lambda>status.
         Ok (version, status, crlf_pos + 2)))))))))"

section \<open>Header blocks\<close>

text \<open>One line of the block. The colon found is a character boundary, so the two slices of the line
  are never out of range.\<close>

definition header_line :: "bytes \<Rightarrow> (header, h1_error) result" where
  "header_line line =
     and_then (ok_or (from_utf8 line) (InvalidHeader ''non-utf8 header'')) (\<lambda>line_str.
     and_then (ok_or (find_char CHR '':'' line_str) (InvalidHeader line_str)) (\<lambda>colon_pos.
       let raw_name = take colon_pos line_str in
       if raw_name = [] then Err (InvalidHeader ''empty header name'')
       else if \<not> list_all is_tchar (bytes_of raw_name) then Err (InvalidHeader ''non-tchar in header name'')
       else Ok (raw_name, trim (drop (colon_pos + 1) line_str))))"

text \<open>The loop over the lines of a block: the headers pushed, and how it ended.\<close>

function parse_lines :: "(bytes \<Rightarrow> (header, 'e) result) \<Rightarrow> 'e \<Rightarrow> bytes \<Rightarrow> header list \<times> (unit, 'e) result" where
  "parse_lines line missing remaining =
     (if remaining = [] then ([], Ok ())
      else case find_crlf remaining of
        None \<Rightarrow> ([], Err missing)
      | Some line_end \<Rightarrow>
          (case line (take line_end remaining) of
             Inl e \<Rightarrow> ([], Err e)
           | Inr h \<Rightarrow>
               let (hs, r) = parse_lines line missing (drop (line_end + 2) remaining) in (h # hs, r)))"
  by pat_completeness auto
termination
  by (relation "measure (\<lambda>(_, _, bs). length bs)") auto

declare parse_lines.simps [simp del]

definition parse_headers_with_limit :: "bytes \<Rightarrow> nat \<Rightarrow> (header list \<times> nat, h1_error) result" where
  "parse_headers_with_limit buf max_header_bytes =
     (case find_double_crlf buf of
        None \<Rightarrow>
          if length buf > max_header_bytes then Err (HeadersTooLarge max_header_bytes (length buf))
          else Err H1Incomplete
      | Some end' \<Rightarrow>
          let total_consumed = end' + 4 in
          if total_consumed > max_header_bytes then Err (HeadersTooLarge max_header_bytes total_consumed)
          else and_then (ok_or (get_range buf 0 (end' + 2)) H1Incomplete) (\<lambda>header_block.
            case parse_lines header_line (InvalidHeader ''missing CRLF'') header_block of
              (headers, Inl e) \<Rightarrow> Err e
            | (headers, Inr _) \<Rightarrow> Ok (headers, total_consumed)))"

definition parse_headers :: "bytes \<Rightarrow> (header list \<times> nat, h1_error) result" where
  "parse_headers buf = parse_headers_with_limit buf MAX_HEADER_BYTES"

definition parse_trailers :: "bytes \<Rightarrow> (header list \<times> nat, h1_error) result" where
  "parse_trailers buf = parse_headers_with_limit buf MAX_HEADER_BYTES"

definition parse_trailers_with_limit :: "bytes \<Rightarrow> nat \<Rightarrow> (header list \<times> nat, h1_error) result" where
  "parse_trailers_with_limit buf max_header_bytes = parse_headers_with_limit buf max_header_bytes"

section \<open>Line ends\<close>

lemma crlf_at_iff: "crlf_at buf i \<longleftrightarrow> i + 1 < length buf \<and> buf ! i = CR \<and> buf ! (i + 1) = LF"
  by (auto simp: crlf_at_def get_def)

lemma find_crlf_iff: "find_crlf buf = Some p \<longleftrightarrow> crlf_at buf p \<and> (\<forall>i < p. \<not> crlf_at buf i)"
  by (auto simp: find_crlf_def find_upt crlf_at_iff)

lemma find_crlf_None: "find_crlf buf = None \<longleftrightarrow> (\<forall>i. \<not> crlf_at buf i)"
  by (auto simp: find_crlf_def find_None_iff crlf_at_iff)

lemma find_double_crlf_iff:
  "find_double_crlf buf = Some p \<longleftrightarrow>
     crlf_at buf p \<and> crlf_at buf (p + 2) \<and> (\<forall>i < p. \<not> (crlf_at buf i \<and> crlf_at buf (i + 2)))"
  by (auto simp: find_double_crlf_def find_upt crlf_at_iff)

lemma find_crlf_length: "find_crlf buf = Some p \<Longrightarrow> p + 2 \<le> length buf"
  by (simp add: find_crlf_iff crlf_at_iff)

lemma find_double_crlf_length: "find_double_crlf buf = Some p \<Longrightarrow> p + 4 \<le> length buf"
  by (simp add: find_double_crlf_iff crlf_at_iff)

lemma crlf_at_append: "crlf_at buf i \<Longrightarrow> crlf_at (buf @ x) i"
  by (simp add: crlf_at_iff nth_append)

lemma crlf_at_append_iff: "i + 1 < length buf \<Longrightarrow> crlf_at (buf @ x) i = crlf_at buf i"
  by (simp add: crlf_at_iff nth_append)

text \<open>More input after a line end does not move it.\<close>

lemma find_crlf_append: "find_crlf buf = Some p \<Longrightarrow> find_crlf (buf @ x) = Some p"
  using find_crlf_length [of buf p] by (simp add: find_crlf_iff crlf_at_append_iff)

lemma find_double_crlf_append: "find_double_crlf buf = Some p \<Longrightarrow> find_double_crlf (buf @ x) = Some p"
  using find_double_crlf_length [of buf p] by (simp add: find_double_crlf_iff crlf_at_append_iff)

lemma find_crlf_line: "CR \<notin> set line \<Longrightarrow> find_crlf (line @ CR # LF # rest) = Some (length line)"
  by (auto simp: find_crlf_iff crlf_at_iff nth_append in_set_conv_nth)

lemma crlf_at_drop: "crlf_at (drop n buf) i \<longleftrightarrow> crlf_at buf (n + i)"
  by (auto simp: crlf_at_iff add.assoc)

lemma crlf_at_infix: "crlf_at xs i \<Longrightarrow> crlf_at (ps @ xs @ qs) (length ps + i)"
  by (auto simp: crlf_at_iff nth_append)

lemma no_crlf_infix: "find_crlf (ps @ xs @ qs) = None \<Longrightarrow> find_crlf xs = None"
  by (auto simp: find_crlf_None dest: crlf_at_infix)

lemma no_crlf_line: "find_crlf buf = Some p \<Longrightarrow> find_crlf (take p buf) = None"
  by (auto simp: find_crlf_iff find_crlf_None crlf_at_iff)

section \<open>Header lines\<close>

text \<open>The wire form of a header list, as \<open>ChunkedEncoder::finish\<close> writes it.\<close>

definition header_wire :: "header \<Rightarrow> bytes" where
  "header_wire h = bytes_of (fst h @ '': '' @ snd h) @ [CR, LF]"

definition wf_header :: "header \<Rightarrow> bool" where
  "wf_header h \<longleftrightarrow>
     fst h \<noteq> [] \<and> list_all is_tchar (bytes_of (fst h)) \<and> is_str (snd h) \<and> CR \<notin> set (bytes_of (snd h))
     \<and> trim (snd h) = snd h"

lemma tchar_ascii: "is_tchar b \<Longrightarrow> b < 0x80 \<and> b \<noteq> CR \<and> b \<noteq> 0x3A"
  by (auto simp: is_tchar_def word_less_nat_alt word_le_nat_alt)

lemma name_facts:
  assumes "list_all is_tchar (bytes_of n)"
  shows "is_str n" "CR \<notin> set (bytes_of n)" "CHR '':'' \<notin> set n"
proof -
  have b: "(of_char c :: u8) < 0x80 \<and> of_char c \<noteq> CR \<and> of_char c \<noteq> (0x3A :: u8)" if "c \<in> set n" for c
    using that assms by (intro tchar_ascii) (auto simp: list_all_iff bytes_of_def)
  have "of_char c < (128 :: nat)" if "c \<in> set n" for c
    using b [OF that] of_char_byte [of c] by (simp add: word_less_nat_alt)
  then show "is_str n" by (simp add: is_str_ascii)
  show "CR \<notin> set (bytes_of n)" using b by (metis bytes_of_def image_iff list.set_map)
  show "CHR '':'' \<notin> set n" using b [of "CHR '':''"] by auto
qed

lemma wf_line:
  assumes "wf_header h"
  shows "is_str (fst h @ '': '' @ snd h)" "CR \<notin> set (bytes_of (fst h @ '': '' @ snd h))"
  using assms name_facts [of "fst h"] is_str_ascii [of "'': ''"]
  by (auto simp: wf_header_def intro!: is_str_append simp del: append_Cons append_Nil)

lemma header_line_wire: "wf_header h \<Longrightarrow> header_line (bytes_of (fst h @ '': '' @ snd h)) = Ok h"
  using wf_line [of h] name_facts [of "fst h"] find_char_append [of "CHR '':''" "fst h" "CHR '' '' # snd h"]
  by (simp add: header_line_def wf_header_def trim_space del: bytes_of_simps)

lemma parse_lines_wire:
  assumes "\<forall>h \<in> set hs. wf_header h" and "\<And>h. wf_header h \<Longrightarrow> line (bytes_of (fst h @ '': '' @ snd h)) = Ok h"
  shows "parse_lines line missing (concat (map header_wire hs)) = (hs, Ok ())"
  using assms(1)
proof (induction hs)
  case Nil
  then show ?case by (simp add: parse_lines.simps)
next
  case (Cons h hs)
  let ?l = "bytes_of (fst h @ '': '' @ snd h)"
  have "find_crlf (?l @ CR # LF # concat (map header_wire hs)) = Some (length ?l)"
    using Cons.prems by (intro find_crlf_line wf_line) simp
  with Cons assms(2) [of h] show ?case
    by (subst parse_lines.simps) (simp add: header_wire_def [of h] del: bytes_of_simps)
qed

section \<open>Properties\<close>

lemma crlf_in_line: "CR \<notin> set l \<Longrightarrow> i < length l \<Longrightarrow> \<not> crlf_at (l @ CR # LF # t) i"
  using find_crlf_line [of l t] by (simp add: find_crlf_iff)

lemma crlf_after_line: "crlf_at (l @ CR # LF # t) (length l + 2 + i) = crlf_at t i"
  using crlf_at_drop [of "length l + 2" "l @ CR # LF # t" i] by simp

lemma double_crlf_last: "CR \<notin> set l \<Longrightarrow> find_double_crlf (l @ CR # LF # CR # LF # rest) = Some (length l)"
proof -
  assume cr: "CR \<notin> set l"
  have "crlf_at (l @ CR # LF # CR # LF # rest) (length l)" "crlf_at (l @ CR # LF # CR # LF # rest) (length l + 2)"
    by (simp_all add: crlf_at_iff nth_append)
  then show ?thesis unfolding find_double_crlf_iff using crlf_in_line [OF cr] by blast
qed

lemma double_crlf_step:
  assumes "CR \<notin> set l" and "get t 0 \<noteq> Some CR" and t: "find_double_crlf t = Some p"
  shows "find_double_crlf (l @ CR # LF # t) = Some (length l + 2 + p)"
proof -
  let ?b = "l @ CR # LF # t"
  have first: "\<not> crlf_at ?b (length l + 2)" using crlf_after_line [of l t 0] assms(2) by (simp add: crlf_at_def)
  have "\<not> (crlf_at ?b i \<and> crlf_at ?b (i + 2))" if "i < length l + 2 + p" for i
  proof -
    consider "i < length l" | "i = length l" | "i = length l + 1" | "length l + 2 \<le> i" by linarith
    then show ?thesis
    proof cases
      case 3
      then show ?thesis by (simp add: crlf_at_iff nth_append)
    next
      case 4
      then obtain j where j: "i = length l + 2 + j" by (metis le_Suc_ex)
      with that t crlf_after_line [of l t j] crlf_after_line [of l t "j + 2"] show ?thesis
        by (simp add: find_double_crlf_iff add.assoc)
    qed (use crlf_in_line [OF assms(1)] first in simp_all)
  qed
  moreover have "crlf_at ?b (length l + 2 + p)" "crlf_at ?b (length l + 2 + p + 2)"
    using t crlf_after_line [of l t p] crlf_after_line [of l t "p + 2"] by (simp_all add: find_double_crlf_iff add.assoc)
  ultimately show ?thesis unfolding find_double_crlf_iff by blast
qed

lemma header_wire_first: "wf_header h \<Longrightarrow> get (header_wire h @ t) 0 \<noteq> Some CR"
  using wf_line(2) [of h] by (cases "fst h") (auto simp: header_wire_def wf_header_def)

lemma header_block_end:
  assumes "\<forall>h \<in> set hs. wf_header h" and "hs \<noteq> []"
  shows "find_double_crlf (concat (map header_wire hs) @ CR # LF # rest)
    = Some (length (concat (map header_wire hs)) - 2)"
  using assms
proof (induction hs)
  case (Cons h hs)
  let ?l = "bytes_of (fst h @ '': '' @ snd h)"
  let ?t = "concat (map header_wire hs) @ CR # LF # rest"
  have cr: "CR \<notin> set ?l" using Cons.prems by (intro wf_line) simp
  have h: "concat (map header_wire (h # hs)) @ CR # LF # rest = ?l @ CR # LF # ?t"
    by (simp add: header_wire_def [of h] del: bytes_of_simps)
  show ?case
  proof (cases hs)
    case Nil
    then show ?thesis using double_crlf_last [OF cr, of rest] by (simp add: header_wire_def)
  next
    case (Cons g gs)
    then have "get ?t 0 \<noteq> Some CR" using Cons.prems header_wire_first [of g] by simp
    then have "find_double_crlf (?l @ CR # LF # ?t) = Some (length ?l + 2 + (length (concat (map header_wire hs)) - 2))"
      using Cons.prems Cons by (intro double_crlf_step [OF cr] Cons.IH) simp_all
    moreover have "2 \<le> length (concat (map header_wire hs))" using Cons by (simp add: header_wire_def)
    ultimately show ?thesis unfolding h by (simp add: header_wire_def [of h] del: bytes_of_simps)
  qed
qed simp

lemma parse_headers_wire:
  assumes "\<forall>h \<in> set hs. wf_header h" and "hs \<noteq> []" and "n = length (concat (map header_wire hs)) + 2"
  shows "parse_headers_with_limit (concat (map header_wire hs) @ CR # LF # body) mx
    = (if n \<le> mx then Ok (hs, n) else Err (HeadersTooLarge mx n))"
proof -
  let ?w = "concat (map header_wire hs)"
  have len: "2 \<le> length ?w" using assms(2) by (cases hs) (simp_all add: header_wire_def)
  define e where "e = length ?w - 2"
  have e: "find_double_crlf (?w @ CR # LF # body) = Some e" "e + 4 = n"
    "get_range (?w @ CR # LF # body) 0 (e + 2) = Some ?w"
    using header_block_end [OF assms(1,2)] len assms(3) by (simp_all add: e_def get_range_def)
  show ?thesis
    using parse_lines_wire [OF assms(1) header_line_wire, of "InvalidHeader ''missing CRLF''"]
    unfolding parse_headers_with_limit_def e option.case Let_def by simp
qed

text \<open>C15. The header parser inverts the writer within its cap: a non-empty list of headers (token names,
  trimmed UTF-8 values without CR) followed by the blank line and any body bytes is parsed back, with
  the length of the section as the bytes consumed; one byte over the cap it is refused as too large.\<close>

theorem headers_roundtrip:
  assumes "\<forall>h \<in> set hs. wf_header h" and "hs \<noteq> []" and "n = length (concat (map header_wire hs)) + 2"
  shows "parse_headers_with_limit (concat (map header_wire hs) @ CR # LF # body) mx
    = (if n \<le> mx then Ok (hs, n) else Err (HeadersTooLarge mx n))"
  by (rule parse_headers_wire [OF assms])

theorem headers_roundtrip_witness:
  "parse_headers_with_limit (concat (map header_wire [(''Host'', ''a''), (''X-B'', ''c d'')]) @ [CR, LF, 0x21]) 64
    = Ok ([(''Host'', ''a''), (''X-B'', ''c d'')], 21)"
proof -
  have "trim ''a'' = ''a''" "trim ''c d'' = ''c d''" by code_simp+
  then have "\<forall>h \<in> set [(''Host'', ''a''), (''X-B'', ''c d'')]. wf_header h"
    by (simp add: wf_header_def is_tchar_def is_str_ascii)
  from headers_roundtrip [OF this _ refl, of "[0x21]" 64] show ?thesis by (simp add: header_wire_def)
qed

lemma parse_lines_sound:
  assumes "parse_lines line missing bs = (hs, Ok ())" and "h \<in> set hs"
  shows "\<exists>l. find_crlf l = None \<and> line l = Ok h"
  using assms
proof (induction line missing bs arbitrary: hs rule: parse_lines.induct)
  case (1 line missing bs)
  show ?case
  proof (cases "bs = [] \<or> find_crlf bs = None")
    case True
    then show ?thesis using "1.prems" by (subst (asm) parse_lines.simps) (auto split: if_splits)
  next
    case False
    then obtain p where p: "bs \<noteq> []" "find_crlf bs = Some p" by auto
    then obtain g gs where g: "line (take p bs) = Ok g" "parse_lines line missing (drop (p + 2) bs) = (gs, Ok ())"
      "hs = g # gs"
      using "1.prems"(1) by (subst (asm) parse_lines.simps) (auto split: sum.splits prod.splits)
    then show ?thesis using "1.IH" [OF p(1,2) g(1,2)] "1.prems"(2) no_crlf_line [OF p(2)] by auto
  qed
qed

lemma header_line_sound:
  assumes "header_line l = Ok h" and "find_crlf l = None"
  shows "fst h \<noteq> [] \<and> list_all is_tchar (bytes_of (fst h)) \<and> find_crlf (bytes_of (snd h)) = None"
proof -
  obtain c where h: "valid_utf8 l" "find_char CHR '':'' (string_of l) = Some c" "fst h \<noteq> []"
    "list_all is_tchar (bytes_of (fst h))" "snd h = trim (drop (c + 1) (string_of l))"
    using assms(1) by (auto simp: header_line_def and_then_Ok ok_or_Ok from_utf8_def Let_def split: if_splits)
  obtain p q where "drop (c + 1) (string_of l) = p @ snd h @ q" using trim_infix h(5) by metis
  then have "string_of l = (take (c + 1) (string_of l) @ p) @ snd h @ q" by (metis append_assoc append_take_drop_id)
  then have "l = bytes_of (take (c + 1) (string_of l) @ p) @ bytes_of (snd h) @ bytes_of q"
    by (metis bytes_of_simps(3) bytes_of_string_of)
  with assms(2) h(3,4) no_crlf_infix show ?thesis by metis
qed

text \<open>What the header parser accepts cannot smuggle a line: it consumes no more than the cap and the
  buffer, every name is a non-empty token and no value contains a line end.\<close>

lemma headers_accepted_safe:
  assumes "parse_headers_with_limit buf mx = Ok (hs, n)"
  shows "n \<le> mx \<and> n \<le> length buf \<and> (\<forall>h \<in> set hs. fst h \<noteq> [] \<and> list_all is_tchar (bytes_of (fst h))
    \<and> find_crlf (bytes_of (snd h)) = None)"
proof -
  obtain e where e: "find_double_crlf buf = Some e" "n = e + 4" "n \<le> mx"
    "parse_lines header_line (InvalidHeader ''missing CRLF'') (take (e + 2) buf) = (hs, Ok ())"
    using assms by (auto simp: parse_headers_with_limit_def Let_def and_then_Ok ok_or_Ok get_range_def
        split: option.splits if_splits prod.splits sum.splits)
  with find_double_crlf_length [OF e(1)] show ?thesis
    using parse_lines_sound [OF e(4)] header_line_sound by blast
qed

lemma headers_accepted_safe_witness:
  "parse_headers_with_limit [0x61, 0x3A, 0x0A, 0x62, CR, LF, CR, LF, 0x47] 32 = Ok ([(''a'', ''b'')], 8)
    \<and> find_crlf (bytes_of ''b'') = None"
proof -
  have ok: "parse_headers_with_limit [0x61, 0x3A, 0x0A, 0x62, CR, LF, CR, LF, 0x47] 32 = Ok ([(''a'', ''b'')], 8)"
    by code_simp
  with headers_accepted_safe [OF ok] show ?thesis by simp
qed

text \<open>An empty header section, a lone blank line, is never accepted: the search wants two line ends in a
  row, so the parser waits for more input or takes the next message for a header.\<close>

lemma empty_section_refused: "parse_headers [CR, LF] = Err H1Incomplete"
  by (simp add: parse_headers_def parse_headers_with_limit_def find_double_crlf_def MAX_HEADER_BYTES_def)

end
