(* ===== verification/H1_Chunked.thy ===== *)
theory H1_Chunked
  imports H1_Parse
begin

text \<open>
  Chunked transfer coding (\<open>lb-h1/src/chunked.rs\<close>): the incremental decoder, a state machine over a
  buffer that grows with every \<open>feed\<close>, and the encoder.
\<close>

section \<open>Lexing the chunk size\<close>

definition nibble :: "u8 \<Rightarrow> u64 option" where
  "nibble b =
     (if 0x30 \<le> b \<and> b \<le> 0x39 then Some (ucast (b - 0x30))
      else if 0x61 \<le> b \<and> b \<le> 0x66 then Some (ucast (b - 0x61 + 10))
      else if 0x41 \<le> b \<and> b \<le> 0x46 then Some (ucast (b - 0x41 + 10))
      else None)"

definition checked_shl :: "u64 \<Rightarrow> nat \<Rightarrow> u64 option" where
  "checked_shl v k = (if k < 64 then Some (push_bit k v) else None)"

fun hex_loop :: "u64 \<Rightarrow> bytes \<Rightarrow> (u64, h1_error) result" where
  "hex_loop v [] = Ok v"
| "hex_loop v (b # bs) =
     and_then (ok_or (nibble b) InvalidChunkEncoding) (\<lambda>n.
     and_then (ok_or (checked_shl v 4) InvalidChunkEncoding) (\<lambda>shifted. hex_loop (shifted OR n) bs))"

definition parse_chunk_size_hex :: "bytes \<Rightarrow> (u64, h1_error) result" where
  "parse_chunk_size_hex line =
     (if line = [] then Err InvalidChunkEncoding
      else if length line > 16 then Err InvalidChunkEncoding
      else hex_loop 0 line)"

definition find_crlf_in :: "bytes \<Rightarrow> nat option" where
  "find_crlf_in buf = find (crlf_at buf) [0..<length buf - 1]"

definition find_double_crlf_in :: "bytes \<Rightarrow> nat option" where
  "find_double_crlf_in buf = find (\<lambda>i. crlf_at buf i \<and> crlf_at buf (i + 2)) [0..<length buf - 3]"

lemma find_in_eq [simp]: "find_crlf_in = find_crlf" "find_double_crlf_in = find_double_crlf"
  by (simp_all add: fun_eq_iff find_crlf_in_def find_double_crlf_in_def find_crlf_def find_double_crlf_def)

section \<open>The decoder\<close>

datatype decoder_state = ReadingSize | ReadingData nat | ReadingDataCrlf | ReadingTrailers | Done

record chunked_decoder =
  dec_state :: decoder_state
  dec_buf :: bytes
  body_chunks :: "bytes list"
  dec_trailers :: "header list"

definition chunked_decoder_new :: chunked_decoder where
  "chunked_decoder_new = \<lparr>dec_state = ReadingSize, dec_buf = [], body_chunks = [], dec_trailers = []\<rparr>"

type_synonym feed_result = "(bool, h1_error) result \<times> chunked_decoder"

text \<open>\<open>split_to\<close> drops the consumed front of the buffer. \<open>usize::try_from\<close> of a \<open>u64\<close> cannot
  fail at the 64-bit width.\<close>

definition try_read_size :: "chunked_decoder \<Rightarrow> feed_result" where
  "try_read_size d =
     (case find_crlf_in (dec_buf d) of
        None \<Rightarrow> (Ok False, d)
      | Some crlf_pos \<Rightarrow>
          let size_line = take crlf_pos (dec_buf d);
              hex_part = takeWhile (\<lambda>b. b \<noteq> 0x3B) size_line
          in case parse_chunk_size_hex hex_part of
               Inl e \<Rightarrow> (Err e, d)
             | Inr chunk_size \<Rightarrow>
                 (Ok True, d\<lparr>dec_buf := drop (crlf_pos + 2) (dec_buf d),
                   dec_state := (if chunk_size = 0 then ReadingTrailers else ReadingData (unat chunk_size))\<rparr>))"

definition trailer_line :: "bytes \<Rightarrow> (header, h1_error) result" where
  "trailer_line line =
     and_then (ok_or (from_utf8 line) InvalidChunkEncoding) (\<lambda>line_str.
     and_then (ok_or (find_char CHR '':'' line_str) InvalidChunkEncoding) (\<lambda>colon.
       let raw_name = take colon line_str in
       if raw_name = [] \<or> \<not> list_all is_tchar (bytes_of raw_name) then Err InvalidChunkEncoding
       else Ok (raw_name, trim (drop (colon + 1) line_str))))"

definition try_read_trailers :: "chunked_decoder \<Rightarrow> feed_result" where
  "try_read_trailers d =
     (let buf = dec_buf d in
      if length buf < 2 then (Ok False, d)
      else if get buf 0 = Some CR \<and> get buf 1 = Some LF then
        (Ok True, d\<lparr>dec_buf := drop 2 buf, dec_state := Done\<rparr>)
      else case find_double_crlf_in buf of
        None \<Rightarrow> (Ok False, d)
      | Some end_pos \<Rightarrow>
          (case parse_lines trailer_line InvalidChunkEncoding (take (end_pos + 2) buf) of
             (ts, Inl e) \<Rightarrow> (Err e, d\<lparr>dec_trailers := dec_trailers d @ ts\<rparr>)
           | (ts, Inr _) \<Rightarrow>
               (Ok True, d\<lparr>dec_trailers := dec_trailers d @ ts, dec_buf := drop (end_pos + 4) buf,
                 dec_state := Done\<rparr>)))"

text \<open>One turn of the loop of \<open>process\<close>: \<^const>\<open>Inl\<close> returns, \<^const>\<open>Inr\<close> goes round again.\<close>

definition process_step :: "chunked_decoder \<Rightarrow> feed_result + chunked_decoder" where
  "process_step d =
     (case dec_state d of
        ReadingSize \<Rightarrow>
          (case try_read_size d of
             (Inl e, d') \<Rightarrow> Inl (Err e, d')
           | (Inr True, d') \<Rightarrow> Inr d'
           | (Inr False, d') \<Rightarrow> Inl (Ok False, d'))
      | ReadingData remaining \<Rightarrow>
          if remaining = 0 then Inr (d\<lparr>dec_state := ReadingDataCrlf\<rparr>)
          else if dec_buf d = [] then Inl (Ok False, d)
          else let available = min (length (dec_buf d)) remaining in
            Inr (d\<lparr>dec_buf := drop available (dec_buf d),
                   body_chunks := body_chunks d @ [take available (dec_buf d)],
                   dec_state := ReadingData (remaining - available)\<rparr>)
      | ReadingDataCrlf \<Rightarrow>
          if length (dec_buf d) < 2 then Inl (Ok False, d)
          else if get (dec_buf d) 0 \<noteq> Some CR \<or> get (dec_buf d) 1 \<noteq> Some LF then
            Inl (Err InvalidChunkEncoding, d)
          else Inr (d\<lparr>dec_buf := drop 2 (dec_buf d), dec_state := ReadingSize\<rparr>)
      | ReadingTrailers \<Rightarrow> Inl (try_read_trailers d)
      | Done \<Rightarrow> Inl (Ok True, d))"

definition process_rank :: "chunked_decoder \<Rightarrow> nat" where
  "process_rank d = 2 * length (dec_buf d) + (case dec_state d of ReadingData r \<Rightarrow> 1 | _ \<Rightarrow> 0)"

lemma process_step_rank: "process_step d = Inr d' \<Longrightarrow> process_rank d' < process_rank d"
  by (auto simp: process_step_def process_rank_def try_read_size_def Let_def dest: find_crlf_length
      split: decoder_state.splits if_splits option.splits sum.splits prod.splits bool.splits)

function process :: "chunked_decoder \<Rightarrow> feed_result" where
  "process d = (case process_step d of Inl r \<Rightarrow> r | Inr d' \<Rightarrow> process d')"
  by pat_completeness auto
termination
  by (relation "measure process_rank") (simp_all add: process_step_rank)

declare process.simps [simp del]

definition feed :: "chunked_decoder \<Rightarrow> bytes \<Rightarrow> feed_result" where
  "feed d data = process (d\<lparr>dec_buf := dec_buf d @ data\<rparr>)"

definition take_body :: "chunked_decoder \<Rightarrow> bytes list \<times> chunked_decoder" where
  "take_body d = (body_chunks d, d\<lparr>body_chunks := []\<rparr>)"

definition is_done :: "chunked_decoder \<Rightarrow> bool" where
  "is_done d \<longleftrightarrow> dec_state d = Done"

section \<open>The encoder\<close>

record chunked_encoder =
  finished :: bool

definition chunked_encoder_new :: chunked_encoder where
  "chunked_encoder_new = \<lparr>finished = False\<rparr>"

definition chunked_encode :: "chunked_encoder \<Rightarrow> bytes \<Rightarrow> (bytes, h1_error) result" where
  "chunked_encode enc data =
     (if finished enc then Err InvalidChunkEncoding
      else if data = [] then Ok []
      else Ok (bytes_of (lower_hex (length data)) @ [CR, LF] @ data @ [CR, LF]))"

definition chunked_finish :: "chunked_encoder \<Rightarrow> header list \<Rightarrow> (bytes, h1_error) result \<times> chunked_encoder" where
  "chunked_finish enc trailers =
     (if finished enc then (Err InvalidChunkEncoding, enc)
      else (Ok ([0x30, CR, LF] @ concat (map header_wire trailers) @ [CR, LF]), enc\<lparr>finished := True\<rparr>))"

section \<open>Resuming on more input\<close>

definition with_input :: "chunked_decoder \<Rightarrow> bytes \<Rightarrow> chunked_decoder" where
  "with_input d x = d\<lparr>dec_buf := dec_buf d @ x\<rparr>"

text \<open>The chunks in which the body was buffered are not observable, only their concatenation is.\<close>

definition observe :: "chunked_decoder \<Rightarrow> decoder_state \<times> bytes \<times> bytes \<times> header list" where
  "observe d = (dec_state d, dec_buf d, concat (body_chunks d), dec_trailers d)"

definition partial_data :: "chunked_decoder \<Rightarrow> bool" where
  "partial_data d \<longleftrightarrow>
     (case dec_state d of ReadingData r \<Rightarrow> dec_buf d \<noteq> [] \<and> length (dec_buf d) < r | _ \<Rightarrow> False)"

lemma extend_simps [simp]:
  "dec_buf (with_input d x) = dec_buf d @ x" "dec_state (with_input d x) = dec_state d" "with_input d [] = d"
  "body_chunks (with_input d x) = body_chunks d" "dec_trailers (with_input d x) = dec_trailers d"
  "with_input (with_input d x) y = with_input d (x @ y)"
  by (simp_all add: with_input_def)

lemma extend_updates:
  "(with_input d x)\<lparr>dec_state := s\<rparr> = with_input (d\<lparr>dec_state := s\<rparr>) x"
  "(with_input d x)\<lparr>dec_trailers := ts\<rparr> = with_input (d\<lparr>dec_trailers := ts\<rparr>) x"
  "n \<le> length (dec_buf d) \<Longrightarrow> (with_input d x)\<lparr>dec_buf := drop n (dec_buf d) @ x\<rparr> = with_input (d\<lparr>dec_buf := drop n (dec_buf d)\<rparr>) x"
  by (simp_all add: with_input_def)

lemma feed_extend: "feed d x = process (with_input d x)"
  by (simp add: feed_def with_input_def)

lemma try_read_size_extend:
  assumes "try_read_size d = (r, d')" and "r \<noteq> Ok False"
  shows "try_read_size (with_input d x) = (r, with_input d' x)"
proof -
  obtain p where p: "find_crlf (dec_buf d) = Some p"
    using assms by (auto simp: try_read_size_def split: option.splits)
  with find_crlf_append [OF p, of x] find_crlf_length [OF p] assms show ?thesis
    by (auto simp: try_read_size_def with_input_def Let_def split: sum.splits)
qed

lemma try_read_trailers_extend:
  assumes "try_read_trailers d = (r, d')" and "r \<noteq> Ok False"
  shows "try_read_trailers (with_input d x) = (r, with_input d' x)"
proof -
  have len: "2 \<le> length (dec_buf d)" using assms by (auto simp: try_read_trailers_def Let_def split: if_splits)
  then have g: "get (dec_buf d @ x) 0 = get (dec_buf d) 0" "get (dec_buf d @ x) 1 = get (dec_buf d) 1"
    by (auto simp: get_def nth_append)
  show ?thesis
  proof (cases "get (dec_buf d) 0 = Some CR \<and> get (dec_buf d) 1 = Some LF")
    case True
    with g len assms show ?thesis by (auto simp: try_read_trailers_def Let_def with_input_def)
  next
    case False
    then obtain p where p: "find_double_crlf (dec_buf d) = Some p"
      using len assms by (auto simp: try_read_trailers_def Let_def split: option.splits)
    with find_double_crlf_append [OF p, of x] find_double_crlf_length [OF p] assms len g False show ?thesis
      by (auto simp: try_read_trailers_def Let_def with_input_def split: prod.splits sum.splits)
  qed
qed

lemma try_read_waits:
  "try_read_size d = (Ok False, d') \<Longrightarrow> d' = d" "try_read_trailers d = (Ok False, d') \<Longrightarrow> d' = d"
  by (auto simp: try_read_size_def try_read_trailers_def Let_def split: option.splits if_splits sum.splits prod.splits)

lemma step_return_extend:
  assumes "process_step d = Inl (r, d')" and "r \<noteq> Ok False"
  shows "process_step (with_input d x) = Inl (r, with_input d' x)"
proof (cases "dec_state d")
  case ReadingSize
  with assms have "try_read_size d = (r, d')" by (auto simp: process_step_def split: sum.splits prod.splits bool.splits)
  from try_read_size_extend [OF this assms(2), of x] assms ReadingSize show ?thesis
    by (auto simp: process_step_def split: sum.splits prod.splits bool.splits)
next
  case ReadingDataCrlf
  with assms show ?thesis by (auto simp: process_step_def with_input_def get_def nth_append split: if_splits)
next
  case ReadingTrailers
  with assms have "try_read_trailers d = (r, d')" by (auto simp: process_step_def)
  from try_read_trailers_extend [OF this assms(2), of x] ReadingTrailers show ?thesis by (simp add: process_step_def)
qed (use assms in \<open>auto simp: process_step_def Let_def split: if_splits\<close>)

lemma step_continue_extend:
  assumes "process_step d = Inr d'" and "\<not> partial_data d"
  shows "process_step (with_input d x) = Inr (with_input d' x)"
proof (cases "dec_state d")
  case ReadingSize
  with assms have "try_read_size d = (Ok True, d')" by (auto simp: process_step_def split: sum.splits prod.splits bool.splits)
  from try_read_size_extend [OF this, of x] ReadingSize show ?thesis by (simp add: process_step_def)
next
  case (ReadingData n)
  with assms show ?thesis
    by (auto simp: process_step_def partial_data_def with_input_def Let_def min_def split: if_splits)
next
  case ReadingDataCrlf
  with assms show ?thesis by (auto simp: process_step_def with_input_def get_def nth_append split: if_splits)
qed (use assms in \<open>simp_all add: process_step_def\<close>)

text \<open>Where the decoder returns with a verdict, more input behind the buffer changes nothing.\<close>

lemma process_return_extend:
  assumes "process d = (r, d')" and "r \<noteq> Ok False"
  shows "process (with_input d x) = (r, with_input d' x)"
  using assms
proof (induction d rule: process.induct)
  case (1 d)
  show ?case
  proof (cases "process_step d")
    case (Inl out)
    with 1(2,3) have "process_step d = Inl (r, d')" by (simp add: process.simps [of d])
    from step_return_extend [OF this 1(3)] show ?thesis by (simp add: process.simps [of "with_input d x"])
  next
    case (Inr d1)
    then have d1: "process d1 = (r, d')" using 1(2) by (simp add: process.simps [of d])
    have "\<not> partial_data d"
    proof
      assume "partial_data d"
      with Inr have "\<exists>n. dec_state d1 = ReadingData n \<and> 0 < n" "dec_buf d1 = []"
        by (auto simp: partial_data_def process_step_def Let_def split: decoder_state.splits)
      then have "process d1 = (Ok False, d1)" by (subst process.simps) (auto simp: process_step_def)
      with d1 1(3) show False by simp
    qed
    from step_continue_extend [OF Inr this] 1(1) [OF Inr d1 1(3)] show ?thesis
      by (simp add: process.simps [of "with_input d x"])
  qed
qed

lemma observe_eq:
  "observe a = observe b \<longleftrightarrow> (\<exists>cs. b = a\<lparr>body_chunks := cs\<rparr> \<and> concat cs = concat (body_chunks a))"
  by (cases a; cases b) (auto simp: observe_def)

text \<open>How the body was cut into chunks does not influence the decoder.\<close>

definition same_feed :: "feed_result \<Rightarrow> feed_result \<Rightarrow> bool" where
  "same_feed p q \<longleftrightarrow> fst p = fst q \<and> observe (snd p) = observe (snd q)"

lemma step_observe:
  assumes "observe a = observe b"
  shows "(\<exists>p q. process_step a = Inl p \<and> process_step b = Inl q \<and> same_feed p q)
    \<or> (\<exists>a' b'. process_step a = Inr a' \<and> process_step b = Inr b' \<and> observe a' = observe b')"
proof -
  obtain cs where b: "b = a\<lparr>body_chunks := cs\<rparr>" "concat cs = concat (body_chunks a)"
    using assms by (auto simp: observe_eq)
  show ?thesis
    unfolding b(1) process_step_def try_read_size_def try_read_trailers_def Let_def same_feed_def observe_def
    using b(2) by (auto split: decoder_state.split option.split sum.split prod.split)
qed

lemma process_observe: "observe a = observe b \<Longrightarrow> same_feed (process a) (process b)"
proof (induction a arbitrary: b rule: process.induct)
  case (1 a)
  from step_observe [OF "1.prems"] show ?case
  proof (elim disjE exE conjE)
    fix p q assume "process_step a = Inl p" "process_step b = Inl q" "same_feed p q"
    then show ?thesis by (simp add: process.simps [of a] process.simps [of b])
  next
    fix a' b' assume "process_step a = Inr a'" "process_step b = Inr b'" "observe a' = observe b'"
    with 1(1) show ?thesis by (simp add: process.simps [of a] process.simps [of b])
  qed
qed

lemma observe_extend: "observe a = observe b \<Longrightarrow> observe (with_input a x) = observe (with_input b x)"
  by (auto simp: observe_def)

lemma same_feed_refl [simp]: "same_feed p p"
  by (simp add: same_feed_def)

text \<open>A decoder that waits picks up where it stopped.\<close>

lemma partial_resume:
  assumes "partial_data d" and "process_step d = Inr d'"
  shows "process d' = (Ok False, d')" and "same_feed (process (with_input d x)) (process (with_input d' x))"
proof -
  obtain n where n: "dec_state d = ReadingData n" "dec_buf d \<noteq> []" "length (dec_buf d) < n"
    using assms(1) by (auto simp: partial_data_def split: decoder_state.splits)
  then have d': "d' = d\<lparr>dec_buf := [], body_chunks := body_chunks d @ [dec_buf d],
      dec_state := ReadingData (n - length (dec_buf d))\<rparr>"
    using assms(2) by (simp add: process_step_def Let_def)
  have "process_step d' = Inl (Ok False, d')" using n d' by (simp add: process_step_def)
  then show wait: "process d' = (Ok False, d')" by (simp add: process.simps [of d'])
  show "same_feed (process (with_input d x)) (process (with_input d' x))"
  proof (cases "x = []")
    case True
    then show ?thesis using wait assms(2) by (simp add: process.simps [of d])
  next
    case False
    let ?k = "min (length x) (n - length (dec_buf d))"
    have "\<exists>a b. process_step (with_input d x) = Inr a \<and> process_step (with_input d' x) = Inr b \<and> observe a = observe b"
      using n False unfolding d' by (auto simp: process_step_def Let_def observe_def min_def)
    then show ?thesis
      using process_observe by (auto simp: process.simps [of "with_input d x"] process.simps [of "with_input d' x"])
  qed
qed

lemma process_wait_extend:
  assumes "process d = (Ok False, d')"
  shows "same_feed (process (with_input d x)) (process (with_input d' x))"
  using assms
proof (induction d rule: process.induct)
  case (1 d)
  show ?case
  proof (cases "process_step d")
    case (Inl out)
    with 1(2) have "process_step d = Inl (Ok False, d')" by (simp add: process.simps [of d])
    then have "d' = d"
      using try_read_waits by (auto simp: process_step_def Let_def split: decoder_state.splits if_splits sum.splits prod.splits bool.splits)
    then show ?thesis by simp
  next
    case (Inr d1)
    then have d1: "process d1 = (Ok False, d')" using 1(2) by (simp add: process.simps [of d])
    show ?thesis
    proof (cases "partial_data d")
      case True
      from partial_resume [OF this Inr] d1 show ?thesis by simp
    next
      case False
      from step_continue_extend [OF Inr this] 1(1) [OF Inr d1] show ?thesis
        by (simp add: process.simps [of "with_input d x"])
    qed
  qed
qed

section \<open>Feeding a message in pieces\<close>

text \<open>A caller feeds the pieces as they arrive and stops at the first error.\<close>

fun feed_all :: "chunked_decoder \<Rightarrow> bytes list \<Rightarrow> feed_result" where
  "feed_all d [] = (Ok (is_done d), d)"
| "feed_all d (x # xs) = (case feed d x of (Inl e, d') \<Rightarrow> (Err e, d') | (Inr _, d') \<Rightarrow> feed_all d' xs)"

definition outcome :: "feed_result \<Rightarrow> (bool, h1_error) result \<times> decoder_state \<times> bytes \<times> header list \<times> bytes" where
  "outcome p = (fst p, dec_state (snd p), concat (body_chunks (snd p)), dec_trailers (snd p),
     (case fst p of Inl _ \<Rightarrow> [] | Inr _ \<Rightarrow> dec_buf (snd p)))"

lemma outcome_same: "same_feed p q \<Longrightarrow> outcome p = outcome q"
  by (simp add: same_feed_def observe_def outcome_def split: sum.split)

lemma process_done: "process d = (Ok b, d') \<Longrightarrow> b = is_done d'"
proof (induction d rule: process.induct)
  case (1 d)
  show ?case
  proof (cases "process_step d")
    case (Inl out)
    with 1(2) have "process_step d = Inl (Ok b, d')" by (simp add: process.simps [of d])
    then show ?thesis
      by (auto simp: process_step_def try_read_size_def try_read_trailers_def is_done_def Let_def
          split: decoder_state.splits if_splits sum.splits prod.splits bool.splits option.splits)
  next
    case (Inr d1)
    with 1 show ?thesis by (simp add: process.simps [of d])
  qed
qed

lemma process_idle: "is_done d \<Longrightarrow> process (with_input d x) = (Ok True, with_input d x)"
  by (subst process.simps) (simp add: process_step_def is_done_def)

lemma feed_resting:
  assumes "process d = (Ok b, d')"
  shows "same_feed (process d') (Ok (is_done d'), d')"
proof (cases b)
  case True
  with process_done [OF assms] process_idle [of d' "[]"] show ?thesis by simp
next
  case False
  with process_done [OF assms] process_wait_extend [of d d' "[]"] assms show ?thesis by (simp add: same_feed_def)
qed

lemma feed_all_concat:
  "same_feed (process d) (Ok (is_done d), d) \<Longrightarrow> outcome (feed_all d frs) = outcome (feed d (concat frs))"
proof (induction frs arbitrary: d)
  case Nil
  then show ?case using outcome_same by (auto simp: feed_extend)
next
  case (Cons x xs)
  have whole: "feed d (concat (x # xs)) = process (with_input (with_input d x) (concat xs))" by (simp add: feed_extend)
  obtain r d1 where d1: "process (with_input d x) = (r, d1)" by fastforce
  show ?case
  proof (cases r)
    case (Inl e)
    with process_return_extend [OF d1] show ?thesis
      unfolding whole by (simp add: feed_extend d1 outcome_def)
  next
    case (Inr b)
    then have IH: "outcome (feed_all d1 xs) = outcome (process (with_input d1 (concat xs)))"
      using Cons.IH [OF feed_resting] d1 by (simp add: feed_extend)
    have "outcome (process (with_input (with_input d x) (concat xs))) = outcome (process (with_input d1 (concat xs)))"
    proof (cases b)
      case True
      with process_return_extend [OF d1, of "concat xs"] process_idle [of d1 "concat xs"] process_done [of "with_input d x" b d1]
        d1 Inr show ?thesis by simp
    next
      case False
      with d1 Inr show ?thesis by (intro outcome_same process_wait_extend) simp
    qed
    with IH Inr show ?thesis unfolding whole by (simp add: feed_extend d1)
  qed
qed

lemma process_new: "process chunked_decoder_new = (Ok (is_done chunked_decoder_new), chunked_decoder_new)"
  by (subst process.simps) (simp add: process_step_def try_read_size_def chunked_decoder_new_def is_done_def find_crlf_def)

section \<open>Decoding what the encoder wrote\<close>

lemma nibble_hex: "d < 16 \<Longrightarrow> nibble (of_char (hex_digit d)) = Some (of_nat d)"
proof -
  assume "d < 16"
  then have "d \<in> set [0..<16]" by simp
  moreover have "\<forall>d \<in> set [0..<16]. nibble (of_char (hex_digit d)) = Some (of_nat d)" by code_simp
  ultimately show ?thesis by blast
qed

lemma shift_or: "d < 16 \<Longrightarrow> push_bit 4 (of_nat m) OR of_nat d = (of_nat (16 * m + d) :: u64)"
proof -
  assume d: "d < 16"
  have "push_bit 4 (of_nat m :: u64) AND of_nat d = 0"
  proof (rule bit_word_eqI)
    fix n assume "n < LENGTH(64)"
    have "\<not> bit d n" if "4 \<le> n"
      using d power_increasing [of 4 n "2 :: nat"] that by (simp add: bit_iff_odd)
    then show "bit (push_bit 4 (of_nat m :: u64) AND of_nat d) n = bit (0 :: u64) n" by (auto simp: bit_simps)
  qed
  from disjunctive_add_eq_or [OF this] show ?thesis by (simp add: push_bit_eq_mult mult.commute)
qed

lemma hex_loop_append: "hex_loop v (xs @ ys) = and_then (hex_loop v xs) (\<lambda>w. hex_loop w ys)"
proof (induction v xs rule: hex_loop.induct)
  case (2 v b bs)
  then show ?case by (cases "nibble b") (simp_all add: checked_shl_def)
qed simp

lemma hex_loop_lower_hex: "hex_loop 0 (bytes_of (lower_hex n)) = Ok (of_nat n)"
proof (induction n rule: lower_hex.induct)
  case (1 n)
  show ?case
  proof (cases "n < 16")
    case True
    then show ?thesis by (subst lower_hex.simps) (simp add: nibble_hex checked_shl_def)
  next
    case False
    with 1 shift_or [of "n mod 16" "n div 16"] show ?thesis
      by (subst lower_hex.simps) (simp add: nibble_hex checked_shl_def hex_loop_append)
  qed
qed

definition chunked_wire :: "bytes list \<Rightarrow> header list \<Rightarrow> bytes" where
  "chunked_wire chunks trailers =
     concat (map (\<lambda>c. case chunked_encode chunked_encoder_new c of Inr b \<Rightarrow> b | Inl _ \<Rightarrow> []) chunks)
     @ (case fst (chunked_finish chunked_encoder_new trailers) of Inr b \<Rightarrow> b | Inl _ \<Rightarrow> [])"

lemma hex_text_bytes: "b \<in> set (bytes_of (lower_hex n)) \<Longrightarrow> b \<noteq> CR \<and> b \<noteq> 0x3B"
proof -
  have digit: "d < 16 \<Longrightarrow> of_char (hex_digit d) \<noteq> CR \<and> of_char (hex_digit d) \<noteq> (0x3B :: u8)" for d
    using nibble_hex [of d] by (auto simp: nibble_def)
  show "b \<in> set (bytes_of (lower_hex n)) \<Longrightarrow> b \<noteq> CR \<and> b \<noteq> 0x3B"
  proof (induction n rule: lower_hex.induct)
    case (1 n)
    then show ?case
      using digit [of n] digit [of "n mod 16"] by (subst (asm) (2) lower_hex.simps) (auto split: if_splits)
  qed
qed

lemma lower_hex_nonempty: "lower_hex n \<noteq> []"
  by (subst lower_hex.simps) simp

lemma read_size_line:
  assumes "n < 2 ^ 64" and "dec_buf d = bytes_of (lower_hex n) @ CR # LF # rest"
  shows "try_read_size d = (Ok True, d\<lparr>dec_buf := rest,
    dec_state := if n = 0 then ReadingTrailers else ReadingData n\<rparr>)"
proof -
  let ?h = "bytes_of (lower_hex n)"
  have "CR \<notin> set ?h" using hex_text_bytes [of CR n] by blast
  then have crlf: "find_crlf (dec_buf d) = Some (length ?h)" using find_crlf_line assms(2) by metis
  have hex: "takeWhile (\<lambda>b. b \<noteq> 0x3B) ?h = ?h" using hex_text_bytes [of _ n] by (auto simp: takeWhile_eq_all_conv)
  have "length ?h \<le> 16" using lower_hex_length [of n 16] assms(1) by simp
  then have size: "parse_chunk_size_hex ?h = Ok (of_nat n)"
    using lower_hex_nonempty [of n] hex_loop_lower_hex [of n] by (auto simp: parse_chunk_size_hex_def bytes_of_def)
  have n: "unat (of_nat n :: u64) = n" using assms(1) by (simp add: unat_of_nat)
  then have zero: "(of_nat n :: u64) = 0 \<longleftrightarrow> n = 0" by (metis unat_0_iff)
  have parts: "take (length ?h) (dec_buf d) = ?h" "drop (length ?h + 2) (dec_buf d) = rest" using assms(2) by simp_all
  show ?thesis
    unfolding try_read_size_def find_in_eq crlf option.case Let_def parts hex size sum.case n zero by (rule refl)
qed

lemma process_chunk:
  assumes "c \<noteq> []" and "length c < 2 ^ 64"
  shows "process \<lparr>dec_state = ReadingSize, dec_buf = bytes_of (lower_hex (length c)) @ [CR, LF] @ c @ [CR, LF] @ rest,
      body_chunks = bs, dec_trailers = ts\<rparr>
    = process \<lparr>dec_state = ReadingSize, dec_buf = rest, body_chunks = bs @ [c], dec_trailers = ts\<rparr>"
    (is "process ?d = _")
proof -
  have "process ?d = process (?d\<lparr>dec_buf := c @ CR # LF # rest, dec_state := ReadingData (length c)\<rparr>)"
    using read_size_line [of "length c" ?d "c @ CR # LF # rest"] assms
    by (subst process.simps) (simp add: process_step_def)
  also have "\<dots> = process (?d\<lparr>dec_buf := CR # LF # rest, body_chunks := bs @ [c], dec_state := ReadingData 0\<rparr>)"
    using assms by (subst process.simps) (simp add: process_step_def Let_def)
  also have "\<dots> = process (?d\<lparr>dec_buf := CR # LF # rest, body_chunks := bs @ [c], dec_state := ReadingDataCrlf\<rparr>)"
    by (subst process.simps) (simp add: process_step_def)
  also have "\<dots> = process (?d\<lparr>dec_buf := rest, body_chunks := bs @ [c], dec_state := ReadingSize\<rparr>)"
    by (subst process.simps) (simp add: process_step_def)
  finally show ?thesis by simp
qed

lemma trailer_line_wire: "wf_header h \<Longrightarrow> trailer_line (bytes_of (fst h @ '': '' @ snd h)) = Ok h"
  using wf_line [of h] name_facts [of "fst h"] find_char_append [of "CHR '':''" "fst h" "CHR '' '' # snd h"]
  by (simp add: trailer_line_def wf_header_def trim_space del: bytes_of_simps)

lemma read_trailers_wire:
  assumes "\<forall>h \<in> set ts. wf_header h" and "dec_buf d = concat (map header_wire ts) @ CR # LF # rest"
    and "dec_trailers d = []"
  shows "try_read_trailers d = (Ok True, d\<lparr>dec_buf := rest, dec_trailers := ts, dec_state := Done\<rparr>)"
proof (cases ts)
  case Nil
  with assms show ?thesis by (simp add: try_read_trailers_def)
next
  case (Cons h hs)
  let ?w = "concat (map header_wire ts)"
  have "get (dec_buf d) 0 \<noteq> Some CR" using header_wire_first [of h] assms(1,2) Cons by simp
  moreover define e where "e = length ?w - 2"
  moreover have len: "2 \<le> length ?w" using Cons by (simp add: header_wire_def)
  then have "find_double_crlf (dec_buf d) = Some e" "take (e + 2) (dec_buf d) = ?w" "drop (e + 4) (dec_buf d) = rest"
    using header_block_end [OF assms(1), of rest] Cons assms(2) by (simp_all add: e_def)
  ultimately show ?thesis
    using parse_lines_wire [OF assms(1) trailer_line_wire, of InvalidChunkEncoding] len assms(2,3)
    by (simp add: try_read_trailers_def)
qed

lemma process_wire:
  assumes "\<forall>c \<in> set chunks. length c < 2 ^ 64" and "\<forall>h \<in> set ts. wf_header h"
  shows "outcome (process \<lparr>dec_state = ReadingSize, dec_buf = chunked_wire chunks ts @ rest, body_chunks = bs, dec_trailers = []\<rparr>)
    = (Ok True, Done, concat bs @ concat chunks, ts, rest)"
  using assms(1)
proof (induction chunks arbitrary: bs)
  case Nil
  let ?d = "\<lparr>dec_state = ReadingSize, dec_buf = chunked_wire [] ts @ rest, body_chunks = bs, dec_trailers = []\<rparr>"
  let ?t = "concat (map header_wire ts) @ CR # LF # rest"
  have "lower_hex 0 = ''0''" by code_simp
  then have "dec_buf ?d = bytes_of (lower_hex 0) @ CR # LF # ?t"
    by (simp add: chunked_wire_def chunked_finish_def chunked_encoder_new_def)
  from read_size_line [OF _ this] have "process_step ?d = Inr (?d\<lparr>dec_buf := ?t, dec_state := ReadingTrailers\<rparr>)"
    by (simp add: process_step_def)
  moreover have "process (?d\<lparr>dec_buf := ?t, dec_state := ReadingTrailers\<rparr>)
      = (Ok True, ?d\<lparr>dec_buf := rest, dec_trailers := ts, dec_state := Done\<rparr>)"
    using read_trailers_wire [OF assms(2), of "?d\<lparr>dec_buf := ?t, dec_state := ReadingTrailers\<rparr>" rest]
    by (subst process.simps) (simp add: process_step_def)
  ultimately show ?case by (simp add: process.simps [of ?d] outcome_def)
next
  case (Cons c chunks)
  show ?case
  proof (cases "c = []")
    case True
    with Cons show ?thesis by (simp add: chunked_wire_def chunked_encode_def chunked_encoder_new_def)
  next
    case False
    have "chunked_wire (c # chunks) ts @ rest
        = bytes_of (lower_hex (length c)) @ [CR, LF] @ c @ [CR, LF] @ chunked_wire chunks ts @ rest"
      using False by (simp add: chunked_wire_def chunked_encode_def chunked_encoder_new_def)
    with process_chunk [OF False, of "chunked_wire chunks ts @ rest" bs "[]"] Cons show ?thesis by simp
  qed
qed

section \<open>Properties\<close>

text \<open>C14. Where the input is cut does not matter: feeding a decoder any pieces one after the other gives
  the verdict, the state, the body bytes, the trailers and, short of an error, the unread bytes that
  feeding their concatenation at once gives, malformed input included.\<close>

theorem chunked_fragmentation:
  "outcome (feed_all chunked_decoder_new frs) = outcome (feed chunked_decoder_new (concat frs))"
  by (rule feed_all_concat) (simp add: process_new)

text \<open>C13. The decoder inverts the encoder however the bytes arrive: a body encoded in any chunks (each
  below \<open>2 ^ 64\<close> bytes), finished with well-formed trailers and followed by further bytes, is decoded to
  that body and those trailers when it is fed in any pieces; the further bytes are left unread.\<close>

theorem chunked_roundtrip:
  assumes "\<forall>c \<in> set chunks. length c < 2 ^ 64" and "\<forall>h \<in> set ts. wf_header h"
    and "concat frs = chunked_wire chunks ts @ rest"
  shows "outcome (feed_all chunked_decoder_new frs) = (Ok True, Done, concat chunks, ts, rest)"
proof -
  have "outcome (feed_all chunked_decoder_new frs) = outcome (feed chunked_decoder_new (concat frs))"
    by (rule feed_all_concat) (simp add: process_new)
  with process_wire [OF assms(1,2), of rest "[]"] assms(3) show ?thesis
    by (simp add: feed_def chunked_decoder_new_def)
qed

theorem chunked_roundtrip_witness:
  "outcome (feed_all chunked_decoder_new (map (\<lambda>b. [b]) (chunked_wire [[1, 2, 3], [4]] [(''x'', ''y'')] @ [9])))
    = (Ok True, Done, [1, 2, 3, 4], [(''x'', ''y'')], [9])"
proof -
  have "trim ''y'' = ''y''" by code_simp
  then have "\<forall>h \<in> set [(''x'', ''y'')]. wf_header h" by (simp add: wf_header_def is_tchar_def is_str_ascii)
  moreover have "concat (map (\<lambda>b. [b]) xs) = xs" for xs :: bytes by (induction xs) simp_all
  ultimately show ?thesis using chunked_roundtrip [of "[[1, 2, 3], [4]]" "[(''x'', ''y'')]" _ "[9]"] by simp
qed

end
