(* ===== verification/Grpc.thy ===== *)
theory Grpc
  imports Rust_Str
begin

text \<open>
  gRPC support (\<open>lb-grpc/src\<close>): the length-prefixed framing, an instance of the frame codec contract,
  the status codes with their HTTP translation, and the \<open>grpc-timeout\<close> header.
\<close>

section \<open>Framing\<close>

datatype grpc_error =
    GrpcIncomplete
  | InvalidGrpcFrame string
  | InvalidStatus u32
  | InvalidTimeout string
  | MessageTooLarge u32 u32

record grpc_frame =
  compressed :: bool
  grpc_data :: bytes

definition GRPC_HEADER_SIZE :: nat where
  "GRPC_HEADER_SIZE = 5"

definition DEFAULT_MAX_MESSAGE_SIZE :: u32 where
  "DEFAULT_MAX_MESSAGE_SIZE = 4 * 1024 * 1024"

definition decode_grpc_frame :: "bytes \<Rightarrow> u32 \<Rightarrow> (grpc_frame \<times> nat, grpc_error) result" where
  "decode_grpc_frame buf max_message_size =
     (if length buf < GRPC_HEADER_SIZE then Err GrpcIncomplete
      else and_then (ok_or (get buf 0) GrpcIncomplete) (\<lambda>compressed_byte.
        and_then (if compressed_byte = 0 then Ok False else if compressed_byte = 1 then Ok True
                  else Err (InvalidGrpcFrame (''invalid compressed flag: '' @ decimal (unat compressed_byte)))) (\<lambda>flag.
        and_then (ok_or (get buf 1) GrpcIncomplete) (\<lambda>b1.
        and_then (ok_or (get buf 2) GrpcIncomplete) (\<lambda>b2.
        and_then (ok_or (get buf 3) GrpcIncomplete) (\<lambda>b3.
        and_then (ok_or (get buf 4) GrpcIncomplete) (\<lambda>b4.
          let msg_len = be_u32 b1 b2 b3 b4 in
          if msg_len > max_message_size then Err (MessageTooLarge msg_len max_message_size)
          else let total_len = GRPC_HEADER_SIZE + unat msg_len in
            if length buf < total_len then Err GrpcIncomplete
            else and_then (ok_or (get_range buf GRPC_HEADER_SIZE total_len) GrpcIncomplete) (\<lambda>dat.
              Ok (\<lparr>compressed = flag, grpc_data = dat\<rparr>, total_len)))))))))"

definition encode_grpc_frame :: "grpc_frame \<Rightarrow> (bytes, grpc_error) result" where
  "encode_grpc_frame f =
     (if length (grpc_data f) > max_of 32 then
        Err (InvalidGrpcFrame (''payload too large: '' @ decimal (length (grpc_data f)) @ '' bytes''))
      else Ok ([if compressed f then 1 else 0] @ put_u32 (of_nat (length (grpc_data f))) @ grpc_data f))"

section \<open>Status codes\<close>

datatype grpc_status =
    StatusOk | Cancelled | Unknown | InvalidArgument | DeadlineExceeded | NotFound | AlreadyExists
  | PermissionDenied | ResourceExhausted | FailedPrecondition | Aborted | OutOfRange | Unimplemented
  | Internal | Unavailable | DataLoss | Unauthenticated

definition from_code :: "u32 \<Rightarrow> (grpc_status, grpc_error) result" where
  "from_code code =
     (if code = 0 then Ok StatusOk else if code = 1 then Ok Cancelled
      else if code = 2 then Ok Unknown else if code = 3 then Ok InvalidArgument
      else if code = 4 then Ok DeadlineExceeded else if code = 5 then Ok NotFound
      else if code = 6 then Ok AlreadyExists else if code = 7 then Ok PermissionDenied
      else if code = 8 then Ok ResourceExhausted else if code = 9 then Ok FailedPrecondition
      else if code = 10 then Ok Aborted else if code = 11 then Ok OutOfRange
      else if code = 12 then Ok Unimplemented else if code = 13 then Ok Internal
      else if code = 14 then Ok Unavailable else if code = 15 then Ok DataLoss
      else if code = 16 then Ok Unauthenticated else Err (InvalidStatus code))"

fun to_http_status :: "grpc_status \<Rightarrow> u16" where
  "to_http_status StatusOk = 200"
| "to_http_status Cancelled = 499"
| "to_http_status Unknown = 500"
| "to_http_status Internal = 500"
| "to_http_status DataLoss = 500"
| "to_http_status InvalidArgument = 400"
| "to_http_status FailedPrecondition = 400"
| "to_http_status OutOfRange = 400"
| "to_http_status DeadlineExceeded = 504"
| "to_http_status NotFound = 404"
| "to_http_status AlreadyExists = 409"
| "to_http_status Aborted = 409"
| "to_http_status PermissionDenied = 403"
| "to_http_status ResourceExhausted = 429"
| "to_http_status Unimplemented = 501"
| "to_http_status Unavailable = 503"
| "to_http_status Unauthenticated = 401"

definition from_http_status :: "u16 \<Rightarrow> grpc_status" where
  "from_http_status status =
     (if status = 200 then StatusOk
      else if status = 400 \<or> status = 500 then Internal
      else if status = 401 then Unauthenticated
      else if status = 403 then PermissionDenied
      else if status = 404 \<or> status = 501 then Unimplemented
      else if status = 409 then Aborted
      else if status = 429 \<or> (502 \<le> status \<and> status \<le> 504) then Unavailable
      else if status = 499 then Cancelled
      else Unknown)"

datatype streaming_mode = Unary | ServerStreaming | ClientStreaming | BidiStreaming

section \<open>Deadlines\<close>

text \<open>\<open>split_at\<close> panics when the index is not on a character boundary, that is when the byte there
  continues a multi-byte character; \<open>parse_timeout\<close> is \<^const>\<open>None\<close> then.\<close>

definition is_char_boundary :: "string \<Rightarrow> nat \<Rightarrow> bool" where
  "is_char_boundary s i \<longleftrightarrow> i = length s \<or> (i < length s \<and> \<not> continuation (of_char (s ! i)))"

definition parse_timeout :: "string \<Rightarrow> (nat, grpc_error) result option" where
  "parse_timeout v =
     (if v = [] then Some (Err (InvalidTimeout v))
      else if \<not> is_char_boundary v (length v - 1) then None
      else
        let digits_str = butlast v; unit_char = last v in
        Some (if digits_str = [] then Err (InvalidTimeout v)
          else and_then (ok_or (parse_uint (max_of 64) digits_str) (InvalidTimeout v)) (\<lambda>digits.
            if unit_char = CHR ''H'' then Ok (saturating_mul 64 digits 3600000)
            else if unit_char = CHR ''M'' then Ok (saturating_mul 64 digits 60000)
            else if unit_char = CHR ''S'' then Ok (saturating_mul 64 digits 1000)
            else if unit_char = CHR ''m'' then Ok digits
            else if unit_char = CHR ''u'' then Ok (saturating_add 64 digits 999 div 1000)
            else if unit_char = CHR ''n'' then Ok (saturating_add 64 digits 999999 div 1000000)
            else Err (InvalidTimeout v))))"

definition format_timeout :: "nat \<Rightarrow> string" where
  "format_timeout timeout_ms =
     (if timeout_ms = 0 then ''0m''
      else if timeout_ms mod 3600000 = 0 then decimal (timeout_ms div 3600000) @ ''H''
      else if timeout_ms mod 60000 = 0 then decimal (timeout_ms div 60000) @ ''M''
      else if timeout_ms mod 1000 = 0 then decimal (timeout_ms div 1000) @ ''S''
      else decimal timeout_ms @ ''m'')"

definition remaining :: "nat \<Rightarrow> nat \<Rightarrow> nat option" where
  "remaining original_ms elapsed_ms =
     (if elapsed_ms \<ge> original_ms then None else Some (original_ms - elapsed_ms))"

section \<open>The codec contract\<close>

lemma grpc_header:
  assumes "length (grpc_data f) \<le> unat (mx :: u32)"
  shows "be_u32 (ucast (drop_bit 24 (of_nat (length (grpc_data f)) :: u32))) (ucast (drop_bit 16 (of_nat (length (grpc_data f)) :: u32)))
      (ucast (drop_bit 8 (of_nat (length (grpc_data f)) :: u32))) (ucast (of_nat (length (grpc_data f)) :: u32))
    = of_nat (length (grpc_data f))" and "unat (of_nat (length (grpc_data f)) :: u32) = length (grpc_data f)"
  using be_u32_put [of "of_nat (length (grpc_data f))"] assms unat_u32 [of mx]
  by (simp_all add: unat_of_nat)

lemma decode_grpc_buffer:
  assumes "length (grpc_data f) \<le> unat mx"
  shows "decode_grpc_frame ((if compressed f then 1 else 0) # put_u32 (of_nat (length (grpc_data f))) @ rest) mx =
    (if length rest < length (grpc_data f) then Err GrpcIncomplete
     else Ok (\<lparr>compressed = compressed f, grpc_data = take (length (grpc_data f)) rest\<rparr>, 5 + length (grpc_data f)))"
  using grpc_header [OF assms] assms
  by (simp add: decode_grpc_frame_def GRPC_HEADER_SIZE_def put_u32_def get_range_def Let_def word_less_nat_alt
      numeral_eq_Suc)

lemma grpc_codec: "frame_codec encode_grpc_frame (\<lambda>buf. decode_grpc_frame buf mx)
    (\<lambda>f. length (grpc_data f) \<le> unat mx) GrpcIncomplete"
proof unfold_locales
  fix f :: grpc_frame and bs rest n
  assume le: "length (grpc_data f) \<le> unat mx"
  then have enc: "encode_grpc_frame f = Ok ((if compressed f then 1 else 0) # put_u32 (of_nat (length (grpc_data f))) @ grpc_data f)"
    using unat_u32 [of mx] by (simp add: encode_grpc_frame_def max_of_def)
  then show "\<exists>bs. encode_grpc_frame f = Ok bs \<and> bs \<noteq> []" by blast
  assume bs: "encode_grpc_frame f = Ok bs"
  show "decode_grpc_frame (bs @ rest) mx = Ok (f, length bs)"
    using decode_grpc_buffer [OF le, of "grpc_data f @ rest"] enc bs by auto
  assume n: "n < length bs"
  show "decode_grpc_frame (take n bs) mx = Err GrpcIncomplete"
  proof (cases "n < 5")
    case True
    with n show ?thesis by (simp add: decode_grpc_frame_def GRPC_HEADER_SIZE_def)
  next
    case False
    then obtain m where m: "n = 5 + m" by (metis le_Suc_ex linorder_not_less)
    then have "take n bs = (if compressed f then 1 else 0) # put_u32 (of_nat (length (grpc_data f))) @ take m (grpc_data f)"
      using enc bs by (auto simp: put_u32_def numeral_eq_Suc)
    with decode_grpc_buffer [OF le, of "take m (grpc_data f)"] n m enc bs show ?thesis by auto
  qed
qed

interpretation grpc: frame_codec encode_grpc_frame "\<lambda>buf. decode_grpc_frame buf DEFAULT_MAX_MESSAGE_SIZE"
  "\<lambda>f. length (grpc_data f) \<le> unat DEFAULT_MAX_MESSAGE_SIZE" GrpcIncomplete
  by (rule grpc_codec)

section \<open>Properties\<close>

text \<open>C18. gRPC messages survive the wire: messages within the limit, framed one after the other and
  followed by a truncated frame, are read back exactly; the truncated bytes are kept and more input is
  asked for.\<close>

theorem grpc_stream_roundtrip:
  assumes "\<forall>f \<in> set fs. length (grpc_data f) \<le> unat mx" and "length (grpc_data g) \<le> unat mx"
    and "encode_grpc_frame g = Ok bs" and "n < length bs"
  shows "decode_all (\<lambda>buf. decode_grpc_frame buf mx)
      (concat (map (\<lambda>f. case encode_grpc_frame f of Inr b \<Rightarrow> b | Inl _ \<Rightarrow> []) fs) @ take n bs)
    = (fs, take n bs, Some GrpcIncomplete)"
  using frame_codec.decode_partial [OF grpc_codec assms] by (simp add: frame_codec.wire_def [OF grpc_codec])

theorem grpc_stream_roundtrip_witness:
  "decode_all (\<lambda>buf. decode_grpc_frame buf 16)
      (concat (map (\<lambda>f. case encode_grpc_frame f of Inr b \<Rightarrow> b | Inl _ \<Rightarrow> [])
         [\<lparr>compressed = True, grpc_data = [1, 2]\<rparr>, \<lparr>compressed = False, grpc_data = []\<rparr>]) @ [0, 0, 0])
    = ([\<lparr>compressed = True, grpc_data = [1, 2]\<rparr>, \<lparr>compressed = False, grpc_data = []\<rparr>], [0, 0, 0], Some GrpcIncomplete)"
proof -
  have "encode_grpc_frame \<lparr>compressed = False, grpc_data = [7]\<rparr> = Ok [0, 0, 0, 0, 1, 7]"
    by (simp add: encode_grpc_frame_def put_u32_def max_of_def)
  from grpc_stream_roundtrip [OF _ _ this, of
      "[\<lparr>compressed = True, grpc_data = [1, 2]\<rparr>, \<lparr>compressed = False, grpc_data = []\<rparr>]" 16 3]
  show ?thesis by simp
qed

lemma parse_timeout_decimal:
  assumes "n < 2 ^ 64" and "\<not> continuation (of_char u)"
  shows "parse_timeout (decimal n @ [u]) =
    Some (if u = CHR ''H'' then Ok (saturating_mul 64 n 3600000)
      else if u = CHR ''M'' then Ok (saturating_mul 64 n 60000)
      else if u = CHR ''S'' then Ok (saturating_mul 64 n 1000)
      else if u = CHR ''m'' then Ok n
      else if u = CHR ''u'' then Ok (saturating_add 64 n 999 div 1000)
      else if u = CHR ''n'' then Ok (saturating_add 64 n 999999 div 1000000)
      else Err (InvalidTimeout (decimal n @ [u])))"
  using assms decimal_hd [of n] parse_uint_decimal [of n "max_of 64"]
  by (simp add: parse_timeout_def is_char_boundary_def Let_def max_of_def)

lemma exact_unit: "n < 2 ^ 64 \<Longrightarrow> n mod k = 0 \<Longrightarrow> saturating_mul 64 (n div k) k = n"
  using div_mult_mod_eq [of n k] by (simp add: saturating_mul_def max_of_def)

text \<open>A deadline is forwarded unchanged: formatting any number of milliseconds below \<open>2 ^ 64\<close> as a
  \<open>grpc-timeout\<close> and parsing the header gives that number back, whichever unit the formatter chose.\<close>

lemma grpc_timeout_roundtrip:
  assumes "ms < 2 ^ 64"
  shows "parse_timeout (format_timeout ms) = Some (Ok ms)"
proof -
  have unit: "\<not> continuation (of_char CHR ''H'')" "\<not> continuation (of_char CHR ''M'')"
    "\<not> continuation (of_char CHR ''S'')" "\<not> continuation (of_char CHR ''m'')"
    by (simp_all add: continuation_def)
  have small: "ms div k < 2 ^ 64" for k using assms div_le_dividend [of ms k] by (rule le_less_trans [rotated])
  have "decimal 0 = ''0''" by code_simp
  then have "parse_timeout ''0m'' = Some (Ok 0)" using parse_timeout_decimal [OF _ unit(4), of 0] by simp
  then show ?thesis
    using assms parse_timeout_decimal [OF small unit(1)] parse_timeout_decimal [OF small unit(2)]
      parse_timeout_decimal [OF small unit(3)] parse_timeout_decimal [OF assms unit(4)]
    by (simp add: format_timeout_def exact_unit)
qed

lemma grpc_timeout_roundtrip_witness: "parse_timeout (format_timeout 90000) = Some (Ok 90000)"
  using grpc_timeout_roundtrip [of 90000] by simp

text \<open>A value whose last character takes several bytes makes the parser panic instead of returning
  the error its contract names.\<close>

lemma parse_timeout_panics: "is_str [CHR ''1'', CHR 0xC2, CHR 0xB5] \<and> parse_timeout [CHR ''1'', CHR 0xC2, CHR 0xB5] = None"
  by (simp add: is_str_def parse_timeout_def is_char_boundary_def continuation_def ascii_def lead2_def)

end
