(* ===== verification/H3_Frame.thy ===== *)
theory H3_Frame
  imports Byte_Codec
begin

text \<open>
  The HTTP/3 codec (\<open>lb-h3-testcodec/src\<close>): QUIC variable-length integers, the frame codec, an
  instance of the frame codec contract, and the QPACK bomb check.
\<close>

section \<open>Errors\<close>

datatype h3_error =
    H3Incomplete
  | InvalidH3Frame string
  | InvalidVarint
  | QpackError string
  | QpackBomb nat nat nat
  | H3FrameTooLarge u64 nat

section \<open>Variable-length integers\<close>

definition MAX_VARINT :: u64 where
  "MAX_VARINT = push_bit 62 1 - 1"

definition put_u64 :: "u64 \<Rightarrow> bytes" where
  "put_u64 v = [ucast (drop_bit 56 v), ucast (drop_bit 48 v), ucast (drop_bit 40 v), ucast (drop_bit 32 v),
     ucast (drop_bit 24 v), ucast (drop_bit 16 v), ucast (drop_bit 8 v), ucast v]"

fun varint_loop :: "bytes \<Rightarrow> nat list \<Rightarrow> u64 \<Rightarrow> (u64, h3_error) result" where
  "varint_loop buf [] val = Ok val"
| "varint_loop buf (i # is) val =
     and_then (ok_or (get buf i) H3Incomplete) (\<lambda>b. varint_loop buf is (push_bit 8 val OR ucast b))"

definition decode_varint :: "bytes \<Rightarrow> (u64 \<times> nat, h3_error) result" where
  "decode_varint buf =
     and_then (ok_or (get buf 0) H3Incomplete) (\<lambda>first.
       let prefix' = drop_bit 6 first; low = ucast (first AND 0x3F) :: u64 in
       if prefix' = 0 then Ok (low, 1)
       else if prefix' = 1 then
         and_then (ok_or (get buf 1) H3Incomplete) (\<lambda>b1. Ok (push_bit 8 low OR ucast b1, 2))
       else if prefix' = 2 then
         and_then (ok_or (get buf 1) H3Incomplete) (\<lambda>b1.
         and_then (ok_or (get buf 2) H3Incomplete) (\<lambda>b2.
         and_then (ok_or (get buf 3) H3Incomplete) (\<lambda>b3.
           Ok (push_bit 24 low OR push_bit 16 (ucast b1) OR push_bit 8 (ucast b2) OR ucast b3, 4))))
       else if prefix' = 3 then and_then (varint_loop buf [1..<8] low) (\<lambda>val. Ok (val, 8))
       else Err InvalidVarint)"

definition encode_varint :: "u64 \<Rightarrow> (bytes, h3_error) result" where
  "encode_varint v =
     (if v > MAX_VARINT then Err InvalidVarint
      else if v < 64 then Ok [ucast v]
      else if v < 16384 then Ok (put_u16 (ucast v OR 0x4000))
      else if v < 1073741824 then Ok (put_u32 (ucast v OR 0x80000000))
      else Ok (put_u64 (v OR 0xC000000000000000)))"

lemma tag_byte:
  assumes "a < 64"
  shows "drop_bit 6 (a :: u8) = 0" "a AND 0x3F = a"
    "drop_bit 6 (a OR 0x40) = 1" "(a OR 0x40) AND 0x3F = a"
    "drop_bit 6 (a OR 0x80) = 2" "(a OR 0x80) AND 0x3F = a"
    "drop_bit 6 (a OR 0xC0) = 3" "(a OR 0xC0) AND 0x3F = a"
proof -
  have "\<forall>n \<in> set [0..<64]. let a = of_nat n :: u8 in
      drop_bit 6 a = 0 \<and> a AND 0x3F = a \<and> drop_bit 6 (a OR 0x40) = 1 \<and> (a OR 0x40) AND 0x3F = a
      \<and> drop_bit 6 (a OR 0x80) = 2 \<and> (a OR 0x80) AND 0x3F = a \<and> drop_bit 6 (a OR 0xC0) = 3 \<and> (a OR 0xC0) AND 0x3F = a"
    by code_simp
  moreover have "unat a \<in> set [0..<64]" using assms by (simp add: word_less_nat_alt)
  moreover have "of_nat (unat a) = a" by simp
  ultimately show "drop_bit 6 a = 0" "a AND 0x3F = a" "drop_bit 6 (a OR 0x40) = 1" "(a OR 0x40) AND 0x3F = a"
    "drop_bit 6 (a OR 0x80) = 2" "(a OR 0x80) AND 0x3F = a" "drop_bit 6 (a OR 0xC0) = 3" "(a OR 0xC0) AND 0x3F = a"
    by metis+
qed

lemma high_bits_clear:
  fixes v :: "'a :: len word"
  assumes "unat v < 2 ^ k" and "k \<le> n"
  shows "\<not> bit v n"
proof
  assume "bit v n"
  then have "bit (unat v) n" by (simp add: bit_unsigned_iff bit_imp_le_length)
  moreover have "unat v < 2 ^ n" by (rule less_le_trans [OF assms(1) power_increasing [OF assms(2)]]) simp
  ultimately show False by (simp add: bit_iff_odd)
qed

lemma first_byte: "unat v < 2 ^ (k + 6) \<Longrightarrow> ucast (drop_bit k v) < (64 :: u8)" for v :: "'a :: len word"
proof -
  assume "unat v < 2 ^ (k + 6)"
  then have lt: "unat (drop_bit k v) < 64"
    unfolding unsigned_drop_bit_eq
    by (simp add: drop_bit_eq_div div_less_iff_less_mult power_add mult.commute take_bit_nat_eq_self)
  then have "unat (ucast (drop_bit k v) :: u8) = unat (drop_bit k v)"
    by (simp add: unsigned_ucast_eq take_bit_nat_eq_self)
  with lt show ?thesis by (simp add: word_less_nat_alt)
qed

lemma varint_parts:
  fixes v :: u64
  shows "unat v < 2 ^ 14 \<Longrightarrow> push_bit 8 (ucast (ucast (drop_bit 8 v) :: u8)) OR ucast (ucast v :: u8) = v"
    and "unat v < 2 ^ 30 \<Longrightarrow> push_bit 24 (ucast (ucast (drop_bit 24 v) :: u8)) OR push_bit 16 (ucast (ucast (drop_bit 16 v) :: u8))
      OR push_bit 8 (ucast (ucast (drop_bit 8 v) :: u8)) OR ucast (ucast v :: u8) = v"
proof -
  show "push_bit 8 (ucast (ucast (drop_bit 8 v) :: u8)) OR ucast (ucast v :: u8) = v" if "unat v < 2 ^ 14"
  proof (rule bit_word_eqI)
    fix n assume "n < LENGTH(64)"
    then consider "n < 8" | "8 \<le> n \<and> n < 16" | "16 \<le> n" by fastforce
    then show "bit (push_bit 8 (ucast (ucast (drop_bit 8 v) :: u8)) OR ucast (ucast v :: u8) :: u64) n = bit v n"
      using high_bits_clear [OF that, of n] by cases (auto simp: bit_simps)
  qed
  show "push_bit 24 (ucast (ucast (drop_bit 24 v) :: u8)) OR push_bit 16 (ucast (ucast (drop_bit 16 v) :: u8))
      OR push_bit 8 (ucast (ucast (drop_bit 8 v) :: u8)) OR ucast (ucast v :: u8) = v" if "unat v < 2 ^ 30"
  proof (rule bit_word_eqI)
    fix n assume "n < LENGTH(64)"
    then consider "n < 8" | "8 \<le> n \<and> n < 16" | "16 \<le> n \<and> n < 24" | "24 \<le> n \<and> n < 32" | "32 \<le> n" by fastforce
    then show "bit (push_bit 24 (ucast (ucast (drop_bit 24 v) :: u8)) OR push_bit 16 (ucast (ucast (drop_bit 16 v) :: u8))
        OR push_bit 8 (ucast (ucast (drop_bit 8 v) :: u8)) OR ucast (ucast v :: u8) :: u64) n = bit v n"
      using high_bits_clear [OF that, of n] by cases (auto simp: bit_simps)
  qed
qed

text \<open>Appending the next lower byte of a word to its upper bytes.\<close>

lemma shift_in_byte: "push_bit 8 (drop_bit (k + 8) v) OR ucast (ucast (drop_bit k v) :: u8) = drop_bit k v" for v :: u64
proof (rule bit_word_eqI)
  fix n assume "n < LENGTH(64)"
  show "bit (push_bit 8 (drop_bit (k + 8) v) OR ucast (ucast (drop_bit k v) :: u8)) n = bit (drop_bit k v) n"
    by (cases "n < 8") (use \<open>n < LENGTH(64)\<close> in \<open>auto simp: bit_simps dest: bit_imp_le_length\<close>)
qed

lemma narrow:
  "ucast (drop_bit 8 (ucast v :: u16)) = (ucast (drop_bit 8 v) :: u8)" "ucast (ucast v :: u16) = (ucast v :: u8)"
  "ucast (drop_bit 24 (ucast v :: u32)) = (ucast (drop_bit 24 v) :: u8)" "ucast (ucast v :: u32) = (ucast v :: u8)"
  "ucast (drop_bit 16 (ucast v :: u32)) = (ucast (drop_bit 16 v) :: u8)"
  "ucast (drop_bit 8 (ucast v :: u32)) = (ucast (drop_bit 8 v) :: u8)" for v :: u64
  by (rule bit_word_eqI; auto simp: bit_simps)+

lemma tag_low_bytes:
  "(16384 :: u8) = 0" "(32768 :: u8) = 0" "(8388608 :: u8) = 0" "(2147483648 :: u8) = 0" "(49152 :: u8) = 0"
  "(12582912 :: u8) = 0" "(3221225472 :: u8) = 0" "(824633720832 :: u8) = 0" "(211106232532992 :: u8) = 0"
  "(54043195528445952 :: u8) = 0" "(13835058055282163712 :: u8) = 0"
  by simp_all

lemma encode_varint_bytes:
  "unat v < 2 ^ 62 \<Longrightarrow> encode_varint v = Ok
     (if unat v < 64 then [ucast v]
      else if unat v < 2 ^ 14 then [ucast (drop_bit 8 v) OR 0x40, ucast v]
      else if unat v < 2 ^ 30 then
        [ucast (drop_bit 24 v) OR 0x80, ucast (drop_bit 16 v), ucast (drop_bit 8 v), ucast v]
      else [ucast (drop_bit 56 v) OR 0xC0, ucast (drop_bit 48 v), ucast (drop_bit 40 v), ucast (drop_bit 32 v),
        ucast (drop_bit 24 v), ucast (drop_bit 16 v), ucast (drop_bit 8 v), ucast v])"
  by (simp add: encode_varint_def MAX_VARINT_def word_less_nat_alt put_u16_def put_u32_def put_u64_def
      unsigned_or_eq narrow tag_low_bytes)

lemma varint_loop_bytes:
  "varint_loop (b0 # ucast (drop_bit 48 v) # ucast (drop_bit 40 v) # ucast (drop_bit 32 v) # ucast (drop_bit 24 v)
     # ucast (drop_bit 16 v) # ucast (drop_bit 8 v) # ucast v # rest) [1..<8] (drop_bit 56 v) = Ok v"
proof -
  have "[1..<8] = [1, 2, 3, 4, 5, 6, 7 :: nat]" by (simp add: upt_rec)
  then show ?thesis
    using shift_in_byte [of 48 v] shift_in_byte [of 40 v] shift_in_byte [of 32 v] shift_in_byte [of 24 v]
      shift_in_byte [of 16 v] shift_in_byte [of 8 v] shift_in_byte [of 0 v]
    by (simp del: push_bit_or push_bit_push_bit)
qed

lemma decode_varint_encode:
  assumes "encode_varint v = Ok bs"
  shows "decode_varint (bs @ rest) = Ok (v, length bs)"
proof -
  have v: "unat v < 2 ^ 62"
    using assms by (auto simp: encode_varint_def MAX_VARINT_def word_less_nat_alt split: if_splits)
  note bs = assms [unfolded encode_varint_bytes [OF v]]
  have low: "unat v < 2 ^ 14 \<Longrightarrow> unat v < 2 ^ (8 + 6)" "unat v < 2 ^ 30 \<Longrightarrow> unat v < 2 ^ (24 + 6)"
    "unat v < 2 ^ (56 + 6)" "unat v < 64 \<Longrightarrow> unat v < 2 ^ (0 + 6)" using v by simp_all
  consider "unat v < 64" | "\<not> unat v < 64" "unat v < 2 ^ 14" | "\<not> unat v < 64" "\<not> unat v < 2 ^ 14" "unat v < 2 ^ 30"
    | "\<not> unat v < 64" "\<not> unat v < 2 ^ 14" "\<not> unat v < 2 ^ 30" by blast
  then show ?thesis
  proof cases
    case 1
    have "n < 8" if "bit v n" for n using 1 that high_bits_clear [of v 6 n] by (cases "n < 6") simp_all
    then have "ucast (ucast v :: u8) = v" by (intro bit_word_eqI) (auto simp: bit_simps)
    with 1 bs first_byte [OF low(4)] show ?thesis by (auto simp: decode_varint_def tag_byte)
  next
    case 2
    with bs varint_parts(1) [OF 2(2)] tag_byte [OF first_byte [OF low(1)]] show ?thesis
      by (auto simp: decode_varint_def)
  next
    case 3
    with bs varint_parts(2) [OF 3(3)] tag_byte [OF first_byte [OF low(2)]] show ?thesis
      by (auto simp: decode_varint_def)
  next
    case 4
    have "ucast (ucast (drop_bit 56 v) :: u8) = drop_bit 56 v"
      by (rule bit_word_eqI) (auto simp: bit_simps dest: bit_imp_le_length)
    with 4 bs varint_loop_bytes [of _ v rest] tag_byte [OF first_byte [OF low(3)]] show ?thesis
      by (auto simp: decode_varint_def)
  qed
qed

lemma decode_varint_prefix:
  assumes "encode_varint v = Ok bs" and n: "n < length bs"
  shows "decode_varint (take n bs) = Err H3Incomplete"
proof -
  have v: "unat v < 2 ^ 62"
    using assms by (auto simp: encode_varint_def MAX_VARINT_def word_less_nat_alt split: if_splits)
  note bs = assms(1) [unfolded encode_varint_bytes [OF v]]
  have idx: "[1..<8] = [1, 2, 3, 4, 5, 6, 7 :: nat]" by (simp add: upt_rec)
  have low: "unat v < 2 ^ 14 \<Longrightarrow> unat v < 2 ^ (8 + 6)" "unat v < 2 ^ 30 \<Longrightarrow> unat v < 2 ^ (24 + 6)"
    "unat v < 2 ^ (56 + 6)" using v by simp_all
  consider "n = 0" | "0 < n" "unat v < 64" | "0 < n" "\<not> unat v < 64" "unat v < 2 ^ 14"
    | "0 < n" "\<not> unat v < 64" "\<not> unat v < 2 ^ 14" "unat v < 2 ^ 30"
    | "0 < n" "\<not> unat v < 64" "\<not> unat v < 2 ^ 14" "\<not> unat v < 2 ^ 30" by blast
  then show ?thesis
  proof cases
    case 3
    then have "n = 1" using bs n by auto
    with 3 bs tag_byte [OF first_byte [OF low(1)]] show ?thesis by (auto simp: decode_varint_def)
  next
    case 4
    then have "n = 1 \<or> n = 2 \<or> n = 3" using bs n by auto
    with 4 bs tag_byte [OF first_byte [OF low(2)]] show ?thesis by (auto simp: decode_varint_def)
  next
    case 5
    then have "n = 1 \<or> n = 2 \<or> n = 3 \<or> n = 4 \<or> n = 5 \<or> n = 6 \<or> n = 7" using bs n by auto
    with 5 bs tag_byte [OF first_byte [OF low(3)]] show ?thesis by (auto simp: decode_varint_def idx [simplified])
  qed (use bs n in \<open>auto simp: decode_varint_def split: if_splits\<close>)
qed

lemma varint_loop_length: "varint_loop buf is val = Ok v \<Longrightarrow> \<forall>i \<in> set is. i < length buf"
  by (induction buf "is" val rule: varint_loop.induct) (auto simp: and_then_Ok ok_or_Ok get_eq_Some)

lemma decode_varint_consumes: "decode_varint buf = Ok (v, n) \<Longrightarrow> 0 < n \<and> n \<le> length buf"
  by (auto simp: decode_varint_def Let_def and_then_Ok ok_or_Ok get_eq_Some Suc_le_eq
      dest!: varint_loop_length split: if_splits)

section \<open>Frames\<close>

datatype h3_frame =
    H3Data bytes
  | H3Headers bytes
  | CancelPush u64
  | H3Settings "(u64 \<times> u64) list"
  | H3PushPromise u64 bytes
  | H3GoAway u64
  | MaxPushId u64
  | H3Unknown u64 bytes

definition DEFAULT_MAX_PAYLOAD_SIZE :: nat where
  "DEFAULT_MAX_PAYLOAD_SIZE = 1048576"

text \<open>The loop over the SETTINGS parameters; the argument is the payload from \<open>pos\<close> on.\<close>

function settings_params :: "bytes \<Rightarrow> ((u64 \<times> u64) list, h3_error) result" where
  "settings_params rest =
     (if rest = [] then Ok []
      else case decode_varint rest of
        Inl e \<Rightarrow> Err e
      | Inr (i, id_len) \<Rightarrow>
          (case get_from rest id_len of
             None \<Rightarrow> Err H3Incomplete
           | Some rest2 \<Rightarrow>
               (case decode_varint rest2 of
                  Inl e \<Rightarrow> Err e
                | Inr (val, val_len) \<Rightarrow>
                    and_then (settings_params (drop (id_len + val_len) rest)) (\<lambda>ps. Ok ((i, val) # ps)))))"
  by pat_completeness auto
termination
  by (relation "measure length") (auto dest!: decode_varint_consumes)

declare settings_params.simps [simp del]

definition h3_payload :: "u64 \<Rightarrow> bytes \<Rightarrow> (h3_frame, h3_error) result" where
  "h3_payload frame_type payload =
     (if frame_type = 0x00 then Ok (H3Data payload)
      else if frame_type = 0x01 then Ok (H3Headers payload)
      else if frame_type = 0x03 then and_then (decode_varint payload) (\<lambda>(push_id, _). Ok (CancelPush push_id))
      else if frame_type = 0x04 then and_then (settings_params payload) (\<lambda>params. Ok (H3Settings params))
      else if frame_type = 0x05 then
        and_then (decode_varint payload) (\<lambda>(push_id, id_len).
        and_then (ok_or (get_from payload id_len) H3Incomplete) (\<lambda>hdr. Ok (H3PushPromise push_id hdr)))
      else if frame_type = 0x07 then and_then (decode_varint payload) (\<lambda>(stream_id, _). Ok (H3GoAway stream_id))
      else if frame_type = 0x0D then and_then (decode_varint payload) (\<lambda>(push_id, _). Ok (MaxPushId push_id))
      else Ok (H3Unknown frame_type payload))"

definition h3_decode_frame :: "bytes \<Rightarrow> nat \<Rightarrow> (h3_frame \<times> nat, h3_error) result" where
  "h3_decode_frame buf max_payload_size =
     and_then (decode_varint buf) (\<lambda>(frame_type, type_len).
     and_then (ok_or (get_from buf type_len) H3Incomplete) (\<lambda>rest.
     and_then (decode_varint rest) (\<lambda>(payload_len, len_len).
       if unat payload_len > max_payload_size then Err (H3FrameTooLarge payload_len max_payload_size)
       else
         let header_total = type_len + len_len; total = header_total + unat payload_len in
         and_then (ok_or (get_range buf header_total total) H3Incomplete) (\<lambda>payload.
         and_then (h3_payload frame_type payload) (\<lambda>frame. Ok (frame, total))))))"

text \<open>The type, the length and the payload of one frame, as every branch of the encoder writes them.\<close>

definition h3_frame_bytes :: "u64 \<Rightarrow> bytes \<Rightarrow> (bytes, h3_error) result" where
  "h3_frame_bytes frame_type payload =
     and_then (encode_varint frame_type) (\<lambda>t.
     and_then (encode_varint (of_nat (length payload))) (\<lambda>l. Ok (t @ l @ payload)))"

fun encode_params :: "(u64 \<times> u64) list \<Rightarrow> (bytes, h3_error) result" where
  "encode_params [] = Ok []"
| "encode_params ((i, val) # ps) =
     and_then (encode_varint i) (\<lambda>a.
     and_then (encode_varint val) (\<lambda>b.
     and_then (encode_params ps) (\<lambda>c. Ok (a @ b @ c))))"

fun h3_encode_frame :: "h3_frame \<Rightarrow> (bytes, h3_error) result" where
  "h3_encode_frame (H3Data payload) = h3_frame_bytes 0x00 payload"
| "h3_encode_frame (H3Headers header_block) = h3_frame_bytes 0x01 header_block"
| "h3_encode_frame (CancelPush push_id) =
     and_then (encode_varint push_id) (\<lambda>inner. h3_frame_bytes 0x03 inner)"
| "h3_encode_frame (H3Settings params) =
     and_then (encode_params params) (\<lambda>inner. h3_frame_bytes 0x04 inner)"
| "h3_encode_frame (H3PushPromise push_id header_block) =
     and_then (encode_varint push_id) (\<lambda>inner. h3_frame_bytes 0x05 (inner @ header_block))"
| "h3_encode_frame (H3GoAway stream_id) =
     and_then (encode_varint stream_id) (\<lambda>inner. h3_frame_bytes 0x07 inner)"
| "h3_encode_frame (MaxPushId push_id) =
     and_then (encode_varint push_id) (\<lambda>inner. h3_frame_bytes 0x0D inner)"
| "h3_encode_frame (H3Unknown frame_type payload) = h3_frame_bytes frame_type payload"

section \<open>QPACK bomb check\<close>

record qpack_bomb_detector =
  qpack_max_ratio :: nat
  qpack_max_decoded_size :: nat

definition qpack_bomb_check :: "qpack_bomb_detector \<Rightarrow> nat \<Rightarrow> nat \<Rightarrow> (unit, h3_error) result" where
  "qpack_bomb_check d encoded_size decoded_size =
     (if decoded_size > qpack_max_decoded_size d then
        let ratio = (case checked_div decoded_size encoded_size of Some r \<Rightarrow> r | None \<Rightarrow> decoded_size)
        in Err (QpackBomb decoded_size encoded_size ratio)
      else case checked_div decoded_size encoded_size of
        Some ratio \<Rightarrow>
          if ratio > qpack_max_ratio d then Err (QpackBomb decoded_size encoded_size ratio) else Ok ()
      | None \<Rightarrow> Ok ())"

section \<open>The codec contract\<close>

definition varint_bytes :: "u64 \<Rightarrow> bytes" where
  "varint_bytes v = (case encode_varint v of Inr b \<Rightarrow> b | Inl _ \<Rightarrow> [])"

definition params_bytes :: "(u64 \<times> u64) list \<Rightarrow> bytes" where
  "params_bytes ps = concat (map (\<lambda>(i, v). varint_bytes i @ varint_bytes v) ps)"

text \<open>A frame the codec can carry within \<open>mx\<close> payload bytes: integers of at most 62 bits and, for an
  unknown frame, a type that is not one of the known ones.\<close>

fun h3_type :: "h3_frame \<Rightarrow> u64" where
  "h3_type (H3Data _) = 0x00"
| "h3_type (H3Headers _) = 0x01"
| "h3_type (CancelPush _) = 0x03"
| "h3_type (H3Settings _) = 0x04"
| "h3_type (H3PushPromise _ _) = 0x05"
| "h3_type (H3GoAway _) = 0x07"
| "h3_type (MaxPushId _) = 0x0D"
| "h3_type (H3Unknown t _) = t"

fun h3_content :: "h3_frame \<Rightarrow> bytes" where
  "h3_content (H3Data p) = p"
| "h3_content (H3Headers p) = p"
| "h3_content (CancelPush i) = varint_bytes i"
| "h3_content (H3Settings ps) = params_bytes ps"
| "h3_content (H3PushPromise i p) = varint_bytes i @ p"
| "h3_content (H3GoAway i) = varint_bytes i"
| "h3_content (MaxPushId i) = varint_bytes i"
| "h3_content (H3Unknown _ p) = p"

fun h3_integers :: "h3_frame \<Rightarrow> u64 list" where
  "h3_integers (CancelPush i) = [i]"
| "h3_integers (H3Settings ps) = map fst ps @ map snd ps"
| "h3_integers (H3PushPromise i _) = [i]"
| "h3_integers (H3GoAway i) = [i]"
| "h3_integers (MaxPushId i) = [i]"
| "h3_integers (H3Unknown t _) = [t]"
| "h3_integers _ = []"

definition wf_h3 :: "nat \<Rightarrow> h3_frame \<Rightarrow> bool" where
  "wf_h3 mx f \<longleftrightarrow> length (h3_content f) \<le> mx \<and> (\<forall>v \<in> set (h3_integers f). unat v < 2 ^ 62)
     \<and> (case f of H3Unknown t _ \<Rightarrow> t \<notin> {0x00, 0x01, 0x03, 0x04, 0x05, 0x07, 0x0D} | _ \<Rightarrow> True)"

lemma encode_varint_ok: "unat v < 2 ^ 62 \<Longrightarrow> encode_varint v = Ok (varint_bytes v) \<and> varint_bytes v \<noteq> []"
  by (simp add: varint_bytes_def encode_varint_bytes)

lemma varint_bytes_decode:
  assumes "unat v < 2 ^ 62"
  shows "decode_varint (varint_bytes v @ rest) = Ok (v, length (varint_bytes v))"
    and "decode_varint (varint_bytes v) = Ok (v, length (varint_bytes v))"
    and "n < length (varint_bytes v) \<Longrightarrow> decode_varint (take n (varint_bytes v)) = Err H3Incomplete"
  using encode_varint_ok [OF assms] decode_varint_encode [of v "varint_bytes v" rest]
    decode_varint_encode [of v "varint_bytes v" "[]"] decode_varint_prefix [of v "varint_bytes v" n] by simp_all

lemma params_roundtrip:
  assumes "\<forall>v \<in> set (map fst ps @ map snd ps). unat v < 2 ^ 62"
  shows "encode_params ps = Ok (params_bytes ps) \<and> settings_params (params_bytes ps) = Ok ps"
  using assms
proof (induction ps)
  case Nil
  then show ?case by (simp add: params_bytes_def settings_params.simps)
next
  case (Cons p ps)
  obtain i v where p: "p = (i, v)" by fastforce
  then have iv: "unat i < 2 ^ 62" "unat v < 2 ^ 62" using Cons.prems by simp_all
  have bytes: "params_bytes (p # ps) = varint_bytes i @ varint_bytes v @ params_bytes ps"
    by (simp add: params_bytes_def p)
  have "settings_params (params_bytes (p # ps)) = Ok (p # ps)"
    using Cons encode_varint_ok [OF iv(1)] unfolding bytes
    by (subst settings_params.simps) (simp add: varint_bytes_decode [OF iv(1)] varint_bytes_decode [OF iv(2)] get_from_def p)
  then show ?case using Cons encode_varint_ok iv by (simp add: bytes) (simp add: p)
qed

lemma h3_encode_parts:
  assumes "wf_h3 mx f" and "mx < 2 ^ 62"
  shows "h3_encode_frame f = h3_frame_bytes (h3_type f) (h3_content f)"
    and "h3_payload (h3_type f) (h3_content f) = Ok f" and "unat (h3_type f) < 2 ^ 62"
    and "unat (of_nat (length (h3_content f)) :: u64) = length (h3_content f)"
    and "length (h3_content f) < 2 ^ 62"
proof -
  show len: "length (h3_content f) < 2 ^ 62" using assms by (simp add: wf_h3_def)
  then show "unat (of_nat (length (h3_content f)) :: u64) = length (h3_content f)" by (simp add: unat_of_nat)
  show "unat (h3_type f) < 2 ^ 62" using assms(1) by (cases f) (simp_all add: wf_h3_def)
  show "h3_encode_frame f = h3_frame_bytes (h3_type f) (h3_content f)"
    using assms(1) encode_varint_ok params_roundtrip by (cases f) (auto simp: wf_h3_def)
  show "h3_payload (h3_type f) (h3_content f) = Ok f"
    using assms(1) params_roundtrip
    by (cases f) (auto simp: wf_h3_def h3_payload_def varint_bytes_decode get_from_append)
qed

lemma h3_codec:
  assumes "mx < 2 ^ 62"
  shows "frame_codec h3_encode_frame (\<lambda>buf. h3_decode_frame buf mx) (wf_h3 mx) H3Incomplete"
proof unfold_locales
  fix f bs rest n
  assume wf: "wf_h3 mx f"
  let ?t = "varint_bytes (h3_type f)" and ?p = "h3_content f"
  let ?len = "of_nat (length ?p) :: u64"
  let ?l = "varint_bytes ?len"
  note parts = h3_encode_parts [OF wf assms]
  have len: "unat ?len < 2 ^ 62" "unat ?len = length ?p" "length ?p \<le> mx"
    using parts(4,5) wf by (simp_all add: wf_h3_def)
  have enc: "h3_encode_frame f = Ok (?t @ ?l @ ?p)"
    using encode_varint_ok [OF parts(3)] encode_varint_ok [OF len(1)] parts(1) by (simp add: h3_frame_bytes_def)
  then show "\<exists>bs. h3_encode_frame f = Ok bs \<and> bs \<noteq> []" using encode_varint_ok [OF parts(3)] by simp
  have head: "h3_decode_frame (?t @ ?l @ q) mx = and_then (ok_or (get_range (?t @ ?l @ q) (length ?t + length ?l)
      (length ?t + length ?l + length ?p)) H3Incomplete) (\<lambda>payload.
      and_then (h3_payload (h3_type f) payload) (\<lambda>frame. Ok (frame, length ?t + length ?l + length ?p)))" for q
    using len by (simp add: h3_decode_frame_def varint_bytes_decode(1) [OF parts(3)]
        varint_bytes_decode(1) [OF len(1)] get_from_append Let_def)
  assume bs: "h3_encode_frame f = Ok bs"
  show "h3_decode_frame (bs @ rest) mx = Ok (f, length bs)"
    using head [of "?p @ rest"] enc bs parts(2) by (simp add: get_range_def)
  assume n: "n < length bs"
  show "h3_decode_frame (take n bs) mx = Err H3Incomplete"
  proof (cases "n < length ?t")
    case True
    then show ?thesis using enc bs varint_bytes_decode(3) [OF parts(3)] by (auto simp: h3_decode_frame_def)
  next
    case False
    then obtain m where m: "n = length ?t + m" by (metis le_Suc_ex linorder_not_less)
    show ?thesis
    proof (cases "m < length ?l")
      case True
      then show ?thesis
        using enc bs m varint_bytes_decode(1) [OF parts(3)] varint_bytes_decode(3) [OF len(1)]
        by (auto simp: h3_decode_frame_def get_from_append)
    next
      case False
      then obtain k where k: "m = length ?l + k" by (metis le_Suc_ex linorder_not_less)
      then have "take n bs = ?t @ ?l @ take k ?p" "k < length ?p" using enc bs m n by auto
      with head [of "take k ?p"] show ?thesis by (simp add: get_range_def)
    qed
  qed
qed

interpretation h3: frame_codec h3_encode_frame "\<lambda>buf. h3_decode_frame buf DEFAULT_MAX_PAYLOAD_SIZE"
  "wf_h3 DEFAULT_MAX_PAYLOAD_SIZE" H3Incomplete
  by (rule h3_codec) (simp add: DEFAULT_MAX_PAYLOAD_SIZE_def)

section \<open>Properties\<close>

text \<open>C16. A stream of HTTP/3 frames survives the wire: frames whose integers have at most 62 bits and
  whose payloads are within the limit, encoded one after the other and followed by a truncated frame,
  are decoded to exactly those frames, wherever the truncation falls, inside a variable-length integer
  included.\<close>

theorem h3_stream_roundtrip:
  assumes "mx < 2 ^ 62" and "\<forall>f \<in> set fs. wf_h3 mx f" and "wf_h3 mx g"
    and "h3_encode_frame g = Ok bs" and "n < length bs"
  shows "decode_all (\<lambda>buf. h3_decode_frame buf mx)
      (concat (map (\<lambda>f. case h3_encode_frame f of Inr b \<Rightarrow> b | Inl _ \<Rightarrow> []) fs) @ take n bs)
    = (fs, take n bs, Some H3Incomplete)"
  using frame_codec.decode_partial [OF h3_codec [OF assms(1)] assms(2-5)]
  by (simp add: frame_codec.wire_def [OF h3_codec [OF assms(1)]])

theorem h3_stream_roundtrip_witness:
  "decode_all (\<lambda>buf. h3_decode_frame buf 64)
      (concat (map (\<lambda>f. case h3_encode_frame f of Inr b \<Rightarrow> b | Inl _ \<Rightarrow> [])
         [H3Settings [(6, 4096)], H3Unknown 0x21 [1]]) @ [0])
    = ([H3Settings [(6, 4096)], H3Unknown 0x21 [1]], [0], Some H3Incomplete)"
proof -
  have v: "unat (4096 :: u64) < 2 ^ 62" "unat (6 :: u64) < 2 ^ 62" "unat (0x21 :: u64) < 2 ^ 62" by simp_all
  have "varint_bytes 4096 = [0x50, 0]" "varint_bytes 6 = [6]"
    using encode_varint_bytes [OF v(1)] encode_varint_bytes [OF v(2)] by (simp_all add: varint_bytes_def drop_bit_eq_div)
  then have wf: "\<forall>f \<in> set [H3Settings [(6, 4096)], H3Unknown 0x21 [1]]. wf_h3 64 f"
    using v by (simp add: wf_h3_def params_bytes_def)
  have g: "h3_encode_frame (H3Data [7]) = Ok [0, 1, 7]"
    using encode_varint_bytes [of 0] encode_varint_bytes [of 1] by (simp add: h3_frame_bytes_def)
  have "wf_h3 64 (H3Data [7])" by (simp add: wf_h3_def)
  from h3_stream_roundtrip [OF _ wf this g, of 1] show ?thesis by simp
qed

text \<open>The QPACK check passes exactly what the HPACK one does.\<close>

lemma qpack_bomb_exact:
  "qpack_bomb_check d enc dec = Ok () \<longleftrightarrow>
     dec \<le> qpack_max_decoded_size d \<and> (enc = 0 \<or> dec < (qpack_max_ratio d + 1) * enc)"
proof -
  have "dec div enc \<le> qpack_max_ratio d \<longleftrightarrow> dec < (qpack_max_ratio d + 1) * enc" if "0 < enc"
    using that div_less_iff_less_mult [of enc dec "qpack_max_ratio d + 1"] by (simp add: less_Suc_eq_le)
  then show ?thesis by (auto simp: qpack_bomb_check_def checked_div_def Let_def)
qed

end
