(* ===== verification/Qpack.thy ===== *)
theory Qpack
  imports Hpack H3_Frame
begin

text \<open>
  QPACK with the static table only (\<open>lb-h3-testcodec/src/qpack.rs\<close>). The integer and string codecs are
  the ones of HPACK with the errors of this crate, which the lemmas \<open>decode_qint_eq\<close> and
  \<open>decode_qstring_eq\<close> state; the round trip of a header block follows from the HPACK facts.
\<close>

section \<open>The static table\<close>

definition QPACK_STATIC_TABLE :: "(string \<times> string) list" where
  "QPACK_STATIC_TABLE =
    [
     ('':authority'', []),
     ('':path'', ''/''),
     (''age'', ''0''),
     (''content-disposition'', []),
     (''content-length'', ''0''),
     (''cookie'', []),
     (''date'', []),
     (''etag'', []),
     (''if-modified-since'', []),
     (''if-none-match'', []),
     (''last-modified'', []),
     (''link'', []),
     (''location'', []),
     (''referer'', []),
     (''set-cookie'', []),
     ('':method'', ''CONNECT''),
     ('':method'', ''DELETE''),
     ('':method'', ''GET''),
     ('':method'', ''HEAD''),
     ('':method'', ''OPTIONS''),
     ('':method'', ''POST''),
     ('':method'', ''PUT''),
     ('':scheme'', ''http''),
     ('':scheme'', ''https''),
     ('':status'', ''103''),
     ('':status'', ''200''),
     ('':status'', ''304''),
     ('':status'', ''404''),
     ('':status'', ''503''),
     (''accept'', ''*/*''),
     (''accept'', ''application/dns-message''),
     (''accept-encoding'', ''gzip, deflate, br''),
     (''accept-ranges'', ''bytes''),
     (''access-control-allow-headers'', ''cache-control''),
     (''access-control-allow-headers'', ''content-type''),
     (''access-control-allow-origin'', ''*''),
     (''cache-control'', ''max-age=0''),
     (''cache-control'', ''max-age=2592000''),
     (''cache-control'', ''max-age=604800''),
     (''cache-control'', ''no-cache''),
     (''cache-control'', ''no-store''),
     (''cache-control'', ''public, max-age=31536000''),
     (''content-encoding'', ''br''),
     (''content-encoding'', ''gzip''),
     (''content-type'', ''application/dns-message''),
     (''content-type'', ''application/javascript''),
     (''content-type'', ''application/json''),
     (''content-type'', ''application/x-www-form-urlencoded''),
     (''content-type'', ''image/gif''),
     (''content-type'', ''image/jpeg''),
     (''content-type'', ''image/png''),
     (''content-type'', ''text/css''),
     (''content-type'', ''text/html; charset=utf-8''),
     (''content-type'', ''text/plain''),
     (''content-type'', ''text/plain;charset=utf-8''),
     (''range'', ''bytes=0-''),
     (''strict-transport-security'', ''max-age=31536000''),
     (''strict-transport-security'', ''max-age=31536000; includesubdomains''),
     (''strict-transport-security'', ''max-age=31536000; includesubdomains; preload''),
     (''vary'', ''accept-encoding''),
     (''vary'', ''origin''),
     (''x-content-type-options'', ''nosniff''),
     (''x-xss-protection'', ''1; mode=block''),
     ('':status'', ''100''),
     ('':status'', ''204''),
     ('':status'', ''206''),
     ('':status'', ''302''),
     ('':status'', ''400''),
     ('':status'', ''403''),
     ('':status'', ''421''),
     ('':status'', ''425''),
     ('':status'', ''500''),
     (''accept-language'', []),
     (''access-control-allow-credentials'', ''FALSE''),
     (''access-control-allow-credentials'', ''TRUE''),
     (''access-control-allow-headers'', ''*''),
     (''access-control-allow-methods'', ''get''),
     (''access-control-allow-methods'', ''get, post, options''),
     (''access-control-allow-methods'', ''options''),
     (''access-control-expose-headers'', ''content-length''),
     (''access-control-request-headers'', ''content-type''),
     (''access-control-request-method'', ''get''),
     (''access-control-request-method'', ''post''),
     (''alt-svc'', ''clear''),
     (''authorization'', []),
     (''content-security-policy'', ''script-src 'none'; object-src 'none'; base-uri 'none'' @ [CHR 0x27]),
     (''early-data'', ''1''),
     (''expect-ct'', []),
     (''forwarded'', []),
     (''if-range'', []),
     (''origin'', []),
     (''purpose'', ''prefetch''),
     (''server'', []),
     (''timing-allow-origin'', ''*''),
     (''upgrade-insecure-requests'', ''1''),
     (''user-agent'', []),
     (''x-forwarded-for'', []),
     (''x-frame-options'', ''deny''),
     (''x-frame-options'', ''sameorigin'')]"

lemma length_QPACK_STATIC_TABLE [simp]: "length QPACK_STATIC_TABLE = 99"
  by (simp add: QPACK_STATIC_TABLE_def)

text \<open>The scan with its early return is the one of the HPACK tables, from index 0.\<close>

definition find_static :: "string \<Rightarrow> string \<Rightarrow> (nat \<times> bool) option" where
  "find_static name value =
     (case scan_table name value 0 QPACK_STATIC_TABLE None of
        Inr i \<Rightarrow> Some (i, True)
      | Inl name_match \<Rightarrow> map_option (\<lambda>idx. (idx, False)) name_match)"

section \<open>Integers and strings\<close>

definition encode_qint :: "nat \<Rightarrow> nat \<Rightarrow> u8 \<Rightarrow> bytes" where
  "encode_qint value prefix_bits first_byte_mask =
     (let max_prefix = 2 ^ prefix_bits - 1 in
      if value < max_prefix then [first_byte_mask OR of_nat value]
      else (first_byte_mask OR of_nat max_prefix) # encode_tail (value - max_prefix))"

function decode_qtail :: "bytes \<Rightarrow> nat \<Rightarrow> nat \<Rightarrow> nat \<Rightarrow> (nat \<times> nat, h3_error) result" where
  "decode_qtail buf value m pos =
     (case get buf pos of
        None \<Rightarrow> Err H3Incomplete
      | Some b \<Rightarrow>
          let value' = value + push_bit m (unat b AND 0x7F) in
          if b AND 0x80 = 0 then Ok (value', pos + 1)
          else if m + 7 > 28 then Err (QpackError ''integer overflow'')
          else decode_qtail buf value' (m + 7) (pos + 1))"
  by pat_completeness auto
termination
  by (relation "measure (\<lambda>(_, _, m, _). 29 - m)") auto

declare decode_qtail.simps [simp del]

definition decode_qint :: "bytes \<Rightarrow> nat \<Rightarrow> (nat \<times> nat, h3_error) result" where
  "decode_qint buf prefix_bits =
     and_then (ok_or (get buf 0) H3Incomplete) (\<lambda>first.
       let max_prefix = 2 ^ prefix_bits - 1;
           value = unat first AND max_prefix
       in if value < max_prefix then Ok (value, 1) else decode_qtail buf value 0 1)"

definition encode_qstring :: "string \<Rightarrow> bytes" where
  "encode_qstring s = encode_qint (length s) 7 0x00 @ bytes_of s"

definition decode_qstring :: "bytes \<Rightarrow> (string \<times> nat, h3_error) result" where
  "decode_qstring buf =
     and_then (decode_qint buf 7) (\<lambda>(len, int_bytes).
       let start = int_bytes; end' = start + len in
       and_then (ok_or (get_range buf start end') H3Incomplete) (\<lambda>data.
         if valid_utf8 data then Ok (string_of data, end') else Err (QpackError ''non-utf8 string'')))"

section \<open>Encoder and decoder\<close>

definition encode_qfield :: "string \<Rightarrow> string \<Rightarrow> bytes" where
  "encode_qfield name value =
     (case find_static name value of
        Some (index, True) \<Rightarrow> encode_qint index 6 0xC0
      | Some (index, False) \<Rightarrow> encode_qint index 4 0x50 @ encode_qstring value
      | None \<Rightarrow> encode_qint (length name) 3 0x20 @ bytes_of name @ encode_qstring value)"

definition qpack_encode :: "header list \<Rightarrow> bytes" where
  "qpack_encode headers =
     encode_qint 0 8 0x00 @ encode_qint 0 7 0x00 @ concat (map (\<lambda>(n, v). encode_qfield n v) headers)"

definition invalid_static :: "nat \<Rightarrow> h3_error" where
  "invalid_static index = QpackError (''invalid static index '' @ decimal index)"

text \<open>One field off the front of the rest of the block.\<close>

definition decode_qfield :: "bytes \<Rightarrow> (header \<times> nat, h3_error) result" where
  "decode_qfield buf =
     and_then (ok_or (get buf 0) H3Incomplete) (\<lambda>first.
       if first AND 0xC0 = 0xC0 then
         and_then (decode_qint buf 6) (\<lambda>(index, consumed).
         and_then (ok_or (get QPACK_STATIC_TABLE index) (invalid_static index)) (\<lambda>entry. Ok (entry, consumed)))
       else if first AND 0x80 = 0x80 then Err (QpackError ''post-base indexed references not supported'')
       else if first AND 0xF0 = 0x50 then
         and_then (decode_qint buf 4) (\<lambda>(index, consumed).
         and_then (ok_or (get QPACK_STATIC_TABLE index) (invalid_static index)) (\<lambda>entry.
         and_then (ok_or (get_from buf consumed) H3Incomplete) (\<lambda>val_slice.
         and_then (decode_qstring val_slice) (\<lambda>(v, vc). Ok ((fst entry, v), consumed + vc)))))
       else if first AND 0xF0 = 0x40 then Err (QpackError ''post-base name references not supported'')
       else if first AND 0xE0 = 0x20 then
         and_then (decode_qint buf 3) (\<lambda>(name_len, consumed).
         and_then (ok_or (get_range buf consumed (consumed + name_len)) H3Incomplete) (\<lambda>name_bytes.
         and_then (ok_or (from_utf8 name_bytes) (QpackError ''non-utf8 qpack name'')) (\<lambda>name.
         and_then (ok_or (get_from buf (consumed + name_len)) H3Incomplete) (\<lambda>val_slice.
         and_then (decode_qstring val_slice) (\<lambda>(v, vc). Ok ((name, v), consumed + name_len + vc))))))
       else Err (QpackError (''unknown QPACK instruction byte: '' @ hex_byte first)))"

section \<open>Relation to HPACK\<close>

fun h3_of_h2 :: "h2_error \<Rightarrow> h3_error" where
  "h3_of_h2 (HpackError msg) = QpackError msg"
| "h3_of_h2 _ = H3Incomplete"

lemma decode_qtail_eq: "decode_qtail buf v m pos = map_sum h3_of_h2 id (decode_tail buf v m pos)"
proof (induction buf v m pos rule: decode_tail.induct)
  case (1 buf v m pos)
  show ?case
  proof (cases "get buf pos")
    case (Some b)
    with 1 [OF Some refl] show ?thesis
      by (subst decode_qtail.simps, subst decode_tail.simps) (simp add: Let_def id_def)
  qed (simp add: decode_qtail.simps [of buf v m pos] decode_tail.simps [of buf v m pos])
qed

lemma decode_qint_eq: "decode_qint buf p = map_sum h3_of_h2 id (decode_integer buf p)"
  by (cases "get buf 0") (simp_all add: decode_qint_def decode_integer_def decode_qtail_eq Let_def)

lemma decode_qstring_eq: "decode_qstring buf = map_sum h3_of_h2 id (decode_string buf)"
proof (cases "decode_integer buf 7")
  case (Inr p)
  then show ?thesis
    by (cases p; cases "get_range buf (snd p) (snd p + fst p)")
      (simp_all add: decode_qstring_def decode_string_def decode_qint_eq Let_def)
qed (simp add: decode_qstring_def decode_string_def decode_qint_eq)

lemma encode_q_eq: "encode_qint = encode_integer" "encode_qstring = encode_string"
  by (simp_all add: fun_eq_iff encode_qint_def encode_integer_def encode_qstring_def encode_string_def)

lemma decode_qint_consumes: "decode_qint buf p = Ok (x, n) \<Longrightarrow> 0 < n \<and> n \<le> length buf"
  by (cases "decode_integer buf p") (auto simp: decode_qint_eq dest: decode_integer_consumes)

lemma decode_qstring_consumes: "decode_qstring buf = Ok (s, n) \<Longrightarrow> 0 < n \<and> n \<le> length buf"
  by (cases "decode_string buf") (auto simp: decode_qstring_eq dest: decode_string_consumes)

lemma decode_qfield_consumes: "decode_qfield buf = Ok (h, n) \<Longrightarrow> 0 < n \<and> n \<le> length buf"
  by (auto simp: decode_qfield_def and_then_Ok ok_or_Ok get_from_Some get_range_eq_Some split: if_splits
      dest!: decode_qint_consumes decode_qstring_consumes)

function qpack_loop :: "bytes \<Rightarrow> nat \<Rightarrow> header list \<Rightarrow> (header list, h3_error) result" where
  "qpack_loop buf pos headers =
     (if pos < length buf then
        case decode_qfield (drop pos buf) of
          Inl e \<Rightarrow> Err e
        | Inr (h, consumed) \<Rightarrow> qpack_loop buf (pos + consumed) (headers @ [h])
      else Ok headers)"
  by pat_completeness auto
termination
  by (relation "measure (\<lambda>(buf, pos, _). length buf - pos)") (auto dest!: decode_qfield_consumes)

declare qpack_loop.simps [simp del]

definition qpack_decode :: "bytes \<Rightarrow> (header list, h3_error) result" where
  "qpack_decode buf =
     and_then (decode_qint buf 8) (\<lambda>(required_insert_count, ric_len).
     and_then (ok_or (get_from buf ric_len) H3Incomplete) (\<lambda>rest.
     and_then (decode_qint rest 7) (\<lambda>(_, db_len).
       if required_insert_count \<noteq> 0 then Err (QpackError ''dynamic table references not supported'')
       else qpack_loop buf (ric_len + db_len) [])))"

section \<open>Round trip\<close>

lemma qfield_tags:
  "y < 64 \<Longrightarrow> (0xC0 OR of_nat y :: u8) AND 0xC0 = 0xC0"
  "y < 16 \<Longrightarrow> (0x50 OR of_nat y :: u8) AND 0xC0 \<noteq> 0xC0 \<and> (0x50 OR of_nat y :: u8) AND 0x80 \<noteq> 0x80
     \<and> (0x50 OR of_nat y :: u8) AND 0xF0 = 0x50"
  "y < 8 \<Longrightarrow> (0x20 OR of_nat y :: u8) AND 0xC0 \<noteq> 0xC0 \<and> (0x20 OR of_nat y :: u8) AND 0x80 \<noteq> 0x80
     \<and> (0x20 OR of_nat y :: u8) AND 0xF0 \<noteq> 0x50 \<and> (0x20 OR of_nat y :: u8) AND 0xF0 \<noteq> 0x40
     \<and> (0x20 OR of_nat y :: u8) AND 0xE0 = 0x20"
proof -
  have "\<forall>y \<in> set [0..<64]. (0xC0 OR of_nat y :: u8) AND 0xC0 = 0xC0" by code_simp
  then show "y < 64 \<Longrightarrow> (0xC0 OR of_nat y :: u8) AND 0xC0 = 0xC0" by simp
  have "\<forall>y \<in> set [0..<16]. (0x50 OR of_nat y :: u8) AND 0xC0 \<noteq> 0xC0 \<and> (0x50 OR of_nat y :: u8) AND 0x80 \<noteq> 0x80
     \<and> (0x50 OR of_nat y :: u8) AND 0xF0 = 0x50" by code_simp
  then show "y < 16 \<Longrightarrow> (0x50 OR of_nat y :: u8) AND 0xC0 \<noteq> 0xC0 \<and> (0x50 OR of_nat y :: u8) AND 0x80 \<noteq> 0x80
     \<and> (0x50 OR of_nat y :: u8) AND 0xF0 = 0x50" by simp
  have "\<forall>y \<in> set [0..<8]. (0x20 OR of_nat y :: u8) AND 0xC0 \<noteq> 0xC0 \<and> (0x20 OR of_nat y :: u8) AND 0x80 \<noteq> 0x80
     \<and> (0x20 OR of_nat y :: u8) AND 0xF0 \<noteq> 0x50 \<and> (0x20 OR of_nat y :: u8) AND 0xF0 \<noteq> 0x40
     \<and> (0x20 OR of_nat y :: u8) AND 0xE0 = 0x20" by code_simp
  then show "y < 8 \<Longrightarrow> (0x20 OR of_nat y :: u8) AND 0xC0 \<noteq> 0xC0 \<and> (0x20 OR of_nat y :: u8) AND 0x80 \<noteq> 0x80
     \<and> (0x20 OR of_nat y :: u8) AND 0xF0 \<noteq> 0x50 \<and> (0x20 OR of_nat y :: u8) AND 0xF0 \<noteq> 0x40
     \<and> (0x20 OR of_nat y :: u8) AND 0xE0 = 0x20" by simp
qed

lemma decode_qint_encode:
  assumes "take_bit p mk = 0" and "p \<le> 7" and "x < 2 ^ 35"
  shows "decode_qint (encode_qint x p mk @ rest) p = Ok (x, length (encode_qint x p mk))"
proof -
  have "x < 2 ^ p - 1 + 2 ^ 35" by (rule trans_less_add2) (rule assms(3))
  from decode_integer_encode [OF assms(1,2) this] show ?thesis by (simp add: decode_qint_eq encode_q_eq)
qed

lemma decode_qstring_encode:
  "is_str s \<Longrightarrow> length s < 2 ^ 35 \<Longrightarrow> decode_qstring (encode_qstring s @ rest) = Ok (s, length (encode_qstring s))"
  by (simp add: decode_qstring_eq encode_q_eq decode_string_encode)

lemma find_static_entry:
  "find_static n v = Some (i, True) \<Longrightarrow> get QPACK_STATIC_TABLE i = Some (n, v)"
  "find_static n v = Some (i, False) \<Longrightarrow> \<exists>w. get QPACK_STATIC_TABLE i = Some (n, w)"
  using scan_hit [of n v 0 QPACK_STATIC_TABLE None] scan_name [of n v 0 QPACK_STATIC_TABLE None]
  by (auto simp: find_static_def get_def split: sum.splits) (metis prod.collapse)+

lemma qint_first:
  assumes "\<And>y. y < 2 ^ p \<Longrightarrow> P (mk OR of_nat y)"
  shows "\<exists>b. get (encode_qint x p mk @ rest) 0 = Some b \<and> P b"
  using encode_integer_first [of p x mk] assms by (auto simp: encode_q_eq)

lemma qfield_first:
  "\<exists>b. get (encode_qint x 6 0xC0 @ rest) 0 = Some b \<and> b AND 0xC0 = 0xC0"
  "\<exists>b. get (encode_qint x 4 0x50 @ rest) 0 = Some b \<and> b AND 0xC0 \<noteq> 0xC0 \<and> b AND 0x80 \<noteq> 0x80 \<and> b AND 0xF0 = 0x50"
  "\<exists>b. get (encode_qint x 3 0x20 @ rest) 0 = Some b \<and> b AND 0xC0 \<noteq> 0xC0 \<and> b AND 0x80 \<noteq> 0x80 \<and> b AND 0xF0 \<noteq> 0x50
     \<and> b AND 0xF0 \<noteq> 0x40 \<and> b AND 0xE0 = 0x20"
proof -
  show "\<exists>b. get (encode_qint x 6 0xC0 @ rest) 0 = Some b \<and> b AND 0xC0 = 0xC0"
    by (rule qint_first) (rule qfield_tags(1), simp)
  show "\<exists>b. get (encode_qint x 4 0x50 @ rest) 0 = Some b \<and> b AND 0xC0 \<noteq> 0xC0 \<and> b AND 0x80 \<noteq> 0x80 \<and> b AND 0xF0 = 0x50"
    by (rule qint_first) (rule qfield_tags(2), simp)
  show "\<exists>b. get (encode_qint x 3 0x20 @ rest) 0 = Some b \<and> b AND 0xC0 \<noteq> 0xC0 \<and> b AND 0x80 \<noteq> 0x80 \<and> b AND 0xF0 \<noteq> 0x50
     \<and> b AND 0xF0 \<noteq> 0x40 \<and> b AND 0xE0 = 0x20"
    by (rule qint_first) (rule qfield_tags(3), simp)
qed

lemma decode_qfield_encode:
  assumes "encodable (n, v)"
  shows "decode_qfield (encode_qfield n v @ rest) = Ok ((n, v), length (encode_qfield n v))"
proof (cases "find_static n v")
  case None
  let ?i = "encode_qint (length n) 3 0x20" and ?s = "encode_qstring v"
  let ?buf = "?i @ bytes_of n @ ?s @ rest"
  obtain b where b: "get ?buf 0 = Some b" "b AND 0xC0 \<noteq> 0xC0 \<and> b AND 0x80 \<noteq> 0x80 \<and> b AND 0xF0 \<noteq> 0x50
      \<and> b AND 0xF0 \<noteq> 0x40 \<and> b AND 0xE0 = 0x20"
    using qfield_first(3) [of "length n" "bytes_of n @ ?s @ rest"] by blast
  have int: "decode_qint ?buf 3 = Ok (length n, length ?i)"
    by (rule decode_qint_encode) (use assms in \<open>simp_all add: encodable_def\<close>)
  have name: "get_range ?buf (length ?i) (length ?i + length n) = Some (bytes_of n)"
    using range_append [of ?i "bytes_of n" "?s @ rest"] by simp
  have tail: "get_from ?buf (length ?i + length n) = Some (?s @ rest)"
    using get_from_append [of "?i @ bytes_of n" "?s @ rest"] by simp
  show ?thesis
    using None b int name tail assms decode_qstring_encode [of v rest]
    by (simp add: decode_qfield_def encode_qfield_def encodable_def)
next
  case (Some p)
  obtain i full where p: "p = (i, full)" by fastforce
  show ?thesis
  proof (cases full)
    case True
    with Some p find_static_entry(1) have entry: "get QPACK_STATIC_TABLE i = Some (n, v)" by simp
    obtain b where b: "get (encode_qint i 6 0xC0 @ rest) 0 = Some b" "b AND 0xC0 = 0xC0"
      using qfield_first(1) by blast
    have "decode_qint (encode_qint i 6 0xC0 @ rest) 6 = Ok (i, length (encode_qint i 6 0xC0))"
      by (rule decode_qint_encode) (use entry in \<open>simp_all add: get_eq_Some\<close>)
    with Some p True b entry show ?thesis by (simp add: decode_qfield_def encode_qfield_def)
  next
    case False
    let ?i = "encode_qint i 4 0x50" and ?s = "encode_qstring v"
    obtain w where entry: "get QPACK_STATIC_TABLE i = Some (n, w)" using Some p False find_static_entry(2) [of n v i] by auto
    obtain b where b: "get (?i @ ?s @ rest) 0 = Some b" "b AND 0xC0 \<noteq> 0xC0 \<and> b AND 0x80 \<noteq> 0x80 \<and> b AND 0xF0 = 0x50"
      using qfield_first(2) [of i "?s @ rest"] by blast
    have "decode_qint (?i @ ?s @ rest) 4 = Ok (i, length ?i)"
      by (rule decode_qint_encode) (use entry in \<open>simp_all add: get_eq_Some\<close>)
    with Some p False b entry assms decode_qstring_encode [of v rest] show ?thesis
      by (simp add: decode_qfield_def encode_qfield_def get_from_append encodable_def)
  qed
qed

lemma qpack_loop_encode:
  assumes "\<forall>h \<in> set hs. encodable h"
  shows "qpack_loop (pre @ concat (map (\<lambda>(n, v). encode_qfield n v) hs)) (length pre) acc = Ok (acc @ hs)"
  using assms
proof (induction hs arbitrary: pre acc)
  case Nil
  then show ?case by (subst qpack_loop.simps) simp
next
  case (Cons h hs)
  obtain n v where h: "h = (n, v)" by fastforce
  let ?f = "encode_qfield n v" and ?r = "concat (map (\<lambda>(n, v). encode_qfield n v) hs)"
  have dec: "decode_qfield (?f @ ?r) = Ok ((n, v), length ?f)" using Cons.prems h by (intro decode_qfield_encode) simp
  from decode_qfield_consumes [OF dec] have "0 < length ?f" by simp
  then have "qpack_loop (pre @ ?f @ ?r) (length pre) acc = qpack_loop ((pre @ ?f) @ ?r) (length (pre @ ?f)) (acc @ [(n, v)])"
    by (subst qpack_loop.simps) (simp add: dec)
  with Cons.IH [of "pre @ ?f" "acc @ [(n, v)]"] Cons.prems show ?case by (simp add: h)
qed

section \<open>Properties\<close>

text \<open>C17. A QPACK header block decodes to the headers it was encoded from, whichever representation the
  encoder chose for each: an index, a name reference or a literal. Names and values are UTF-8 strings
  shorter than \<open>2 ^ 35\<close> bytes.\<close>

theorem qpack_roundtrip:
  assumes "\<forall>h \<in> set hs. encodable h"
  shows "qpack_decode (qpack_encode hs) = Ok hs"
  using qpack_loop_encode [OF assms, of "[0, 0]" "[]"]
  by (simp add: qpack_decode_def qpack_encode_def decode_qint_def encode_qint_def get_from_def)

theorem qpack_roundtrip_witness:
  "qpack_decode (qpack_encode [('':method'', ''GET''), ('':path'', ''/a''), (''x-a'', [])])
    = Ok [('':method'', ''GET''), ('':path'', ''/a''), (''x-a'', [])]"
  by (rule qpack_roundtrip) (simp add: encodable_def is_str_ascii)

end
