(* ===== verification/Conn_Gate.thy ===== *)
theory Conn_Gate
  imports Prelude "HOL-Library.Multiset"
begin

text \<open>
  The connection gate (\<open>lb-security/src/conn_gate.rs\<close>): a cap on concurrent connections per listener
  and per source address. \<open>admit\<close> and the drop of a permit run on many threads at once, so the model is
  a transition system over the shared counters and a multiset of threads, one atomic access per step;
  the sequential operations are runs of one thread.
\<close>

section \<open>Shared state\<close>

record 'ip gate =
  per_ip :: "'ip \<Rightarrow> nat option"
  per_listener :: nat
  per_ip_cap :: nat
  listener_cap :: nat

datatype 'ip over_cap = Listener nat | PerIp 'ip nat

definition gate_new :: "nat \<Rightarrow> nat \<Rightarrow> 'ip gate" where
  "gate_new lcap ipcap = \<lparr>per_ip = Map.empty, per_listener = 0, per_ip_cap = ipcap, listener_cap = lcap\<rparr>"

definition current_peer_count :: "'ip gate \<Rightarrow> 'ip \<Rightarrow> nat" where
  "current_peer_count g peer = (case per_ip g peer of None \<Rightarrow> 0 | Some n \<Rightarrow> n)"

section \<open>One thread\<close>

text \<open>Where a thread stands in \<open>admit\<close> (before the load, before the exchange, before the entry of the
  map, before the roll-back), while it holds a permit, and in \<open>drop\<close> (before the decrement, before the
  removal, before the release of the listener slot). \<open>Refused\<close> and \<open>Released\<close> are final.\<close>

datatype 'ip thread =
    Load 'ip
  | Exchange 'ip nat
  | Entry 'ip
  | RollBack 'ip nat
  | Permit 'ip
  | Drop 'ip
  | Gc 'ip
  | Release 'ip
  | Refused "'ip over_cap"
  | Released

text \<open>The next atomic access of a thread. The flag says whether \<open>compare_exchange_weak\<close> fails
  spuriously; the closure of the entry and of \<open>get_mut\<close> run under the lock of the bucket.\<close>

fun thread_step :: "bool \<Rightarrow> 'ip gate \<Rightarrow> 'ip thread \<Rightarrow> 'ip gate \<times> 'ip thread" where
  "thread_step spurious g (Load peer) = (g, Exchange peer (per_listener g))"
| "thread_step spurious g (Exchange peer cur) =
     (if cur \<ge> listener_cap g then (g, Refused (Listener cur))
      else if per_listener g = cur \<and> \<not> spurious then
        (g\<lparr>per_listener := wrapping_add 32 cur 1\<rparr>, Entry peer)
      else (g, Exchange peer (per_listener g)))"
| "thread_step spurious g (Entry peer) =
     (let n = (case per_ip g peer of None \<Rightarrow> 0 | Some n \<Rightarrow> n);
          g' = g\<lparr>per_ip := (per_ip g)(peer \<mapsto> n)\<rparr>
      in if n \<ge> per_ip_cap g then (g', RollBack peer n)
         else (g'\<lparr>per_ip := (per_ip g')(peer \<mapsto> wrapping_add 32 n 1)\<rparr>, Permit peer))"
| "thread_step spurious g (RollBack peer n) =
     (g\<lparr>per_listener := wrapping_sub 32 (per_listener g) 1\<rparr>, Refused (PerIp peer n))"
| "thread_step spurious g (Permit peer) = (g, Drop peer)"
| "thread_step spurious g (Drop peer) =
     (case per_ip g peer of
        None \<Rightarrow> (g, Release peer)
      | Some n \<Rightarrow>
          let n' = (if n > 0 then n - 1 else n) in
          (g\<lparr>per_ip := (per_ip g)(peer \<mapsto> n')\<rparr>, if n' = 0 then Gc peer else Release peer))"
| "thread_step spurious g (Gc peer) =
     (if per_ip g peer = Some 0 then (g\<lparr>per_ip := (per_ip g)(peer := None)\<rparr>, Release peer)
      else (g, Release peer))"
| "thread_step spurious g (Release peer) =
     (g\<lparr>per_listener := wrapping_sub 32 (per_listener g) 1\<rparr>, Released)"
| "thread_step spurious g (Refused e) = (g, Refused e)"
| "thread_step spurious g Released = (g, Released)"

section \<open>All interleavings\<close>

text \<open>A new connection starts a thread; any thread makes its next access.\<close>

inductive gate_step :: "'ip gate \<times> 'ip thread multiset \<Rightarrow> 'ip gate \<times> 'ip thread multiset \<Rightarrow> bool" where
  accept: "gate_step (g, ts) (g, add_mset (Load peer) ts)"
| access: "thread_step spurious g t = (g', t') \<Longrightarrow> gate_step (g, add_mset t ts) (g', add_mset t' ts)"

abbreviation gate_reach :: "nat \<Rightarrow> nat \<Rightarrow> 'ip gate \<times> 'ip thread multiset \<Rightarrow> bool" where
  "gate_reach lcap ipcap s \<equiv> gate_step\<^sup>*\<^sup>* (gate_new lcap ipcap, {#}) s"

section \<open>The sequential operations\<close>

definition admit :: "'ip gate \<Rightarrow> 'ip \<Rightarrow> (unit, 'ip over_cap) result \<times> 'ip gate" where
  "admit g peer =
     (if per_listener g \<ge> listener_cap g then (Err (Listener (per_listener g)), g)
      else
        let n = current_peer_count g peer in
        if n \<ge> per_ip_cap g then (Err (PerIp peer n), g\<lparr>per_ip := (per_ip g)(peer \<mapsto> n)\<rparr>)
        else (Ok (), g\<lparr>per_listener := per_listener g + 1, per_ip := (per_ip g)(peer \<mapsto> n + 1)\<rparr>))"

definition drop_permit :: "'ip gate \<Rightarrow> 'ip \<Rightarrow> 'ip gate" where
  "drop_permit g peer =
     (let n = current_peer_count g peer - 1 in
      g\<lparr>per_listener := per_listener g - 1, per_ip := (per_ip g)(peer := if n = 0 then None else Some n)\<rparr>)"

section \<open>The invariant\<close>

text \<open>Who holds a slot of the listener, and who holds a slot of an address.\<close>

fun holds_listener :: "'ip thread \<Rightarrow> bool" where
  "holds_listener (Load _) \<longleftrightarrow> False"
| "holds_listener (Exchange _ _) \<longleftrightarrow> False"
| "holds_listener (Refused _) \<longleftrightarrow> False"
| "holds_listener Released \<longleftrightarrow> False"
| "holds_listener _ \<longleftrightarrow> True"

fun holds_ip :: "'ip \<Rightarrow> 'ip thread \<Rightarrow> bool" where
  "holds_ip a (Permit b) \<longleftrightarrow> a = b"
| "holds_ip a (Drop b) \<longleftrightarrow> a = b"
| "holds_ip a _ \<longleftrightarrow> False"

definition holders :: "('ip thread \<Rightarrow> bool) \<Rightarrow> 'ip thread multiset \<Rightarrow> nat" where
  "holders P ts = size (filter_mset P ts)"

definition gate_inv :: "nat \<Rightarrow> nat \<Rightarrow> 'ip gate \<times> 'ip thread multiset \<Rightarrow> bool" where
  "gate_inv lcap ipcap = (\<lambda>(g, ts).
     listener_cap g = lcap \<and> per_ip_cap g = ipcap
     \<and> per_listener g = holders holds_listener ts \<and> per_listener g \<le> lcap
     \<and> (\<forall>a. current_peer_count g a = holders (holds_ip a) ts) \<and> (\<forall>a. holders (holds_ip a) ts \<le> ipcap)
     \<and> (\<forall>a. per_ip g a = Some 0 \<longrightarrow> ipcap = 0 \<or> Gc a \<in># ts))"

lemma holders_add [simp]: "holders P (add_mset t ts) = (if P t then 1 else 0) + holders P ts"
  by (simp add: holders_def)

lemma holders_empty [simp]: "holders P {#} = 0"
  by (simp add: holders_def)

lemma count_update [simp]:
  "current_peer_count (g\<lparr>per_ip := (per_ip g)(p \<mapsto> m)\<rparr>) a = (if a = p then m else current_peer_count g a)"
  "current_peer_count (g\<lparr>per_ip := (per_ip g)(p := None)\<rparr>) a = (if a = p then 0 else current_peer_count g a)"
  "current_peer_count (g\<lparr>per_listener := k\<rparr>) a = current_peer_count g a"
  by (simp_all add: current_peer_count_def)

lemma entry_step:
  "thread_step sp g (Entry p) =
     (let n = current_peer_count g p in
      if n \<ge> per_ip_cap g then (g\<lparr>per_ip := (per_ip g)(p \<mapsto> n)\<rparr>, RollBack p n)
      else (g\<lparr>per_ip := (per_ip g)(p \<mapsto> wrapping_add 32 n 1)\<rparr>, Permit p))"
  by (simp add: Let_def current_peer_count_def)

lemma drop_step:
  "0 < current_peer_count g p \<Longrightarrow> thread_step sp g (Drop p) =
     (let n = current_peer_count g p - 1 in
      (g\<lparr>per_ip := (per_ip g)(p \<mapsto> n)\<rparr>, if n = 0 then Gc p else Release p))"
  by (auto simp: current_peer_count_def Let_def split: option.splits)

lemma step_inv:
  assumes inv: "gate_inv lcap ipcap (g, add_mset t ts)" and step: "thread_step sp g t = (g', t')"
    and small: "lcap < 2 ^ 32" "ipcap < 2 ^ 32"
  shows "gate_inv lcap ipcap (g', add_mset t' ts)"
proof -
  have add: "wrapping_add 32 n 1 = n + 1" if "n < lcap \<or> n < ipcap" for n
    using that small by (intro wrapping_add_exact) (auto simp: max_of_def)
  have sub: "wrapping_sub 32 n 1 = n - 1" if "0 < n" "n \<le> lcap" for n
    using that small by (intro wrapping_sub_exact) auto
  show ?thesis
  proof (cases t)
    case (Exchange peer cur)
    with inv step add show ?thesis by (auto simp: gate_inv_def split: if_splits)
  next
    case (Entry peer)
    with inv step add show ?thesis
      by (auto simp: gate_inv_def entry_step Let_def simp del: thread_step.simps split: if_splits)
  next
    case (RollBack peer n)
    with inv step sub [of "per_listener g"] show ?thesis by (auto simp: gate_inv_def)
  next
    case (Permit peer)
    then have "g' = g" "t' = Drop peer" using step by simp_all
    with inv Permit show ?thesis by (simp add: gate_inv_def)
  next
    case (Drop peer)
    then have "current_peer_count g peer = Suc (holders (holds_ip peer) ts)" using inv by (simp add: gate_inv_def)
    moreover have "holders (holds_ip a) (add_mset t ts) \<le> ipcap" for a
      using inv by (simp add: gate_inv_def del: holders_add)
    then have "holders (holds_ip a) ts \<le> ipcap" for a by (metis holders_add add_leD2)
    ultimately show ?thesis using inv step Drop
      by (auto simp: gate_inv_def drop_step Let_def simp del: thread_step.simps split: if_splits)
  next
    case (Gc peer)
    then have "current_peer_count g peer = 0" if "per_ip g peer = Some 0" using that by (simp add: current_peer_count_def)
    with inv step Gc show ?thesis by (auto simp: gate_inv_def split: if_splits)
  next
    case (Release peer)
    with inv step sub [of "per_listener g"] show ?thesis by (auto simp: gate_inv_def)
  qed (use inv step in \<open>auto simp: gate_inv_def\<close>)
qed

lemma gate_inv_reach:
  assumes "gate_reach lcap ipcap s" and "lcap < 2 ^ 32" "ipcap < 2 ^ 32"
  shows "gate_inv lcap ipcap s"
  using assms(1)
proof (induction rule: rtranclp_induct)
  case base
  show ?case by (simp add: gate_inv_def gate_new_def current_peer_count_def)
next
  case (step s s')
  from step.hyps(2) step.IH show ?case
  proof cases
    case (accept g ts peer)
    with step.IH show ?thesis by (auto simp: gate_inv_def)
  next
    case (access sp g t g' t' ts)
    with step.IH step_inv [OF _ access(3) assms(2,3)] show ?thesis by simp
  qed
qed

section \<open>Properties\<close>

lemma holders_mono: "(\<And>t. P t \<Longrightarrow> Q t) \<Longrightarrow> holders P ts \<le> holders Q ts"
  by (induction ts) auto

text \<open>C21. The caps hold under every interleaving: however the admissions and drops of any number of
  threads interleave, and however often the weak exchange fails, never more than \<open>listener_cap\<close> permits
  are out and never more than \<open>per_ip_cap\<close> for one address; and once every thread has finished, both
  counters are back to zero and, with a non-zero cap per address, no entry is left in the map.\<close>

theorem conn_gate_caps:
  assumes "gate_reach lcap ipcap (g, ts)" and "lcap < 2 ^ 32" and "ipcap < 2 ^ 32"
  shows "holders (\<lambda>t. \<exists>p. t = Permit p) ts \<le> lcap \<and> holders (\<lambda>t. t = Permit a) ts \<le> ipcap
    \<and> ((\<forall>t \<in># ts. t = Released \<or> (\<exists>e. t = Refused e)) \<longrightarrow>
         per_listener g = 0 \<and> current_peer_count g a = 0 \<and> (0 < ipcap \<longrightarrow> per_ip g a = None))"
proof -
  from gate_inv_reach [OF assms] have inv: "gate_inv lcap ipcap (g, ts)" .
  have "holders (\<lambda>t. \<exists>p. t = Permit p) ts \<le> holders holds_listener ts"
    "holders (\<lambda>t. t = Permit a) ts \<le> holders (holds_ip a) ts"
    by (rule holders_mono, auto)+
  with inv have "holders (\<lambda>t. \<exists>p. t = Permit p) ts \<le> lcap" "holders (\<lambda>t. t = Permit a) ts \<le> ipcap"
    by (auto simp: gate_inv_def intro: le_trans)
  moreover have "per_listener g = 0 \<and> current_peer_count g a = 0 \<and> (0 < ipcap \<longrightarrow> per_ip g a = None)"
    if fin: "\<forall>t \<in># ts. t = Released \<or> (\<exists>e. t = Refused e)"
  proof -
    have none: "holders P ts = 0" if "\<And>e. \<not> P (Refused e)" "\<not> P Released" for P :: "'a thread \<Rightarrow> bool"
      using fin that by (auto simp: holders_def)
    have "Gc a \<notin># ts" using fin by auto
    with inv none show ?thesis
      by (auto simp: gate_inv_def current_peer_count_def split: option.splits) (metis not_None_eq)
  qed
  ultimately show ?thesis by blast
qed

theorem conn_gate_caps_witness:
  "gate_reach 1 1 (\<lparr>per_ip = [0 \<mapsto> 1], per_listener = 1, per_ip_cap = 1, listener_cap = 1\<rparr>, {#Permit (0 :: nat)#})
    \<and> holders (\<lambda>t. \<exists>p. t = Permit p) {#Permit (0 :: nat)#} \<le> 1"
proof -
  let ?g = "\<lambda>m n. \<lparr>per_ip = m, per_listener = n, per_ip_cap = 1, listener_cap = 1\<rparr> :: nat gate"
  have "gate_step (gate_new 1 1, {#}) (?g Map.empty 0, {#Load 0#})"
    unfolding gate_new_def by (rule accept)
  moreover have "gate_step (?g Map.empty 0, {#Load 0#}) (?g Map.empty 0, {#Exchange 0 0#})"
    by (rule access [of False]) simp
  moreover have "gate_step (?g Map.empty 0, {#Exchange 0 0#}) (?g Map.empty 1, {#Entry 0#})"
    by (rule access [of False]) (simp add: wrapping_add_def)
  moreover have "gate_step (?g Map.empty 1, {#Entry 0#}) (?g [0 \<mapsto> 1] 1, {#Permit 0#})"
    by (rule access [of False]) (simp add: wrapping_add_def)
  ultimately have "gate_reach 1 1 (?g [0 \<mapsto> 1] 1, {#Permit 0#})"
    by (meson converse_rtranclp_into_rtranclp r_into_rtranclp)
  with conn_gate_caps [OF this, of 0] show ?thesis by simp
qed

text \<open>A thread that runs while the others rest, its exchange not failing spuriously.\<close>

primrec run_alone :: "nat \<Rightarrow> 'ip gate \<Rightarrow> 'ip thread \<Rightarrow> 'ip gate \<times> 'ip thread" where
  "run_alone 0 g t = (g, t)"
| "run_alone (Suc k) g t = (let (g', t') = thread_step False g t in run_alone k g' t')"

fun settled :: "'ip thread \<Rightarrow> bool" where
  "settled (Permit _) \<longleftrightarrow> True"
| "settled (Refused _) \<longleftrightarrow> True"
| "settled _ \<longleftrightarrow> False"

lemma run_entry:
  assumes "per_ip_cap g < 2 ^ 32"
  shows "run_alone 1 g (Entry peer) =
      (let n = current_peer_count g peer in
       if n \<ge> per_ip_cap g then (g\<lparr>per_ip := (per_ip g)(peer \<mapsto> n)\<rparr>, RollBack peer n)
       else (g\<lparr>per_ip := (per_ip g)(peer \<mapsto> n + 1)\<rparr>, Permit peer))"
  using assms wrapping_add_exact [of "current_peer_count g peer" 1 32]
  by (simp add: entry_step Let_def max_of_def del: thread_step.simps)

lemma run_settles_entry: "\<exists>k \<le> 2. settled (snd (run_alone k g (Entry peer)))"
proof (cases "current_peer_count g peer \<ge> per_ip_cap g")
  case True
  then have "settled (snd (run_alone 2 g (Entry peer)))"
    by (simp add: entry_step numeral_2_eq_2 Let_def del: thread_step.simps(3))
  then show ?thesis by blast
next
  case False
  then have "settled (snd (run_alone 1 g (Entry peer)))" by (simp add: entry_step Let_def del: thread_step.simps(3))
  then show ?thesis using one_le_numeral by blast
qed

lemma run_alone_Suc: "thread_step False g t = (g', t') \<Longrightarrow> run_alone (Suc k) g t = run_alone k g' t'"
  by simp

lemma run_settles_exchange: "\<exists>k \<le> 4. settled (snd (run_alone k g (Exchange peer cur)))"
proof -
  have fresh: "\<exists>k \<le> 3. settled (snd (run_alone k g (Exchange peer (per_listener g))))"
  proof (cases "per_listener g \<ge> listener_cap g")
    case True
    then have "settled (snd (run_alone 1 g (Exchange peer (per_listener g))))" by simp
    then show ?thesis using one_le_numeral by blast
  next
    case False
    let ?g = "g\<lparr>per_listener := wrapping_add 32 (per_listener g) 1\<rparr>"
    obtain k where k: "k \<le> 2" "settled (snd (run_alone k ?g (Entry peer)))" using run_settles_entry [of ?g peer] by blast
    have "run_alone (Suc k) g (Exchange peer (per_listener g)) = run_alone k ?g (Entry peer)"
      using False by (intro run_alone_Suc) simp
    with k show ?thesis by (intro exI [of _ "Suc k"]) simp
  qed
  consider "cur \<ge> listener_cap g" | "cur = per_listener g" | "cur < listener_cap g" "cur \<noteq> per_listener g" by linarith
  then show ?thesis
  proof cases
    case 1
    then have "settled (snd (run_alone 1 g (Exchange peer cur)))" by simp
    then show ?thesis using one_le_numeral by blast
  next
    case 2
    with fresh obtain k where "k \<le> 3" "settled (snd (run_alone k g (Exchange peer cur)))" by blast
    then show ?thesis by (intro exI [of _ k]) simp
  next
    case 3
    obtain k where k: "k \<le> 3" "settled (snd (run_alone k g (Exchange peer (per_listener g))))" using fresh by blast
    have "run_alone (Suc k) g (Exchange peer cur) = run_alone k g (Exchange peer (per_listener g))"
      using 3 by (intro run_alone_Suc) simp
    with k show ?thesis by (intro exI [of _ "Suc k"]) simp
  qed
qed

lemma run_admit:
  assumes "per_listener g \<le> listener_cap g" and "listener_cap g < 2 ^ 32" and "per_ip_cap g < 2 ^ 32"
  shows "\<exists>k \<le> 4. run_alone k g (Load peer) =
    (snd (admit g peer), case fst (admit g peer) of Inr _ \<Rightarrow> Permit peer | Inl e \<Rightarrow> Refused e)"
proof (cases "per_listener g \<ge> listener_cap g")
  case True
  then have "run_alone 2 g (Load peer) = (g, Refused (Listener (per_listener g)))" by (simp add: numeral_2_eq_2)
  with True show ?thesis by (intro exI [of _ 2]) (simp add: admit_def)
next
  case False
  let ?n = "current_peer_count g peer" and ?g = "g\<lparr>per_listener := per_listener g + 1\<rparr>"
  have "wrapping_add 32 (per_listener g) 1 = per_listener g + 1"
    using False assms by (intro wrapping_add_exact) (simp add: max_of_def)
  then have two: "run_alone (k + 2) g (Load peer) = run_alone k ?g (Entry peer)" for k using False by simp
  show ?thesis
  proof (cases "?n \<ge> per_ip_cap g")
    case True
    have "wrapping_sub 32 (per_listener g + 1) 1 = per_listener g"
      using False assms wrapping_sub_exact [of 1 "per_listener g + 1" 32] by simp
    then have "run_alone 2 ?g (Entry peer) = (g\<lparr>per_ip := (per_ip g)(peer \<mapsto> ?n)\<rparr>, Refused (PerIp peer ?n))"
      using True by (simp add: entry_step numeral_2_eq_2 Let_def del: thread_step.simps(3))
    with two [of 2] False True show ?thesis by (intro exI [of _ 4]) (simp add: admit_def Let_def)
  next
    case under: False
    have "run_alone 1 ?g (Entry peer) = (?g\<lparr>per_ip := (per_ip g)(peer \<mapsto> ?n + 1)\<rparr>, Permit peer)"
      using under run_entry [of ?g peer] assms(3) by (simp add: Let_def)
    then have "run_alone (1 + 2) g (Load peer) = (?g\<lparr>per_ip := (per_ip g)(peer \<mapsto> ?n + 1)\<rparr>, Permit peer)"
      by (simp only: two)
    with False under show ?thesis by (intro exI [of _ "1 + 2"]) (simp add: admit_def Let_def)
  qed
qed

lemma run_drop:
  assumes "0 < per_listener g" and "per_listener g < 2 ^ 32" and "0 < current_peer_count g peer"
  shows "run_alone 3 g (Drop peer) = (drop_permit g peer, Released)"
  using assms wrapping_sub_exact [of 1 "per_listener g" 32]
  by (simp add: numeral_3_eq_3 drop_step drop_permit_def Let_def del: thread_step.simps(6))

text \<open>C22. The gate never blocks: whatever state the other threads left behind, a thread that runs alone
  finishes \<open>admit\<close> within four accesses and, from a fresh start, with the result and the counters of the
  sequential operation, which admits exactly when both counters are below their caps; a stale exchange
  settles as well, and dropping a permit takes three accesses and releases both slots.\<close>

theorem conn_gate_progress:
  assumes "per_listener g \<le> listener_cap g" and "listener_cap g < 2 ^ 32" and "per_ip_cap g < 2 ^ 32"
  shows "(\<exists>k \<le> 4. run_alone k g (Load peer) =
      (snd (admit g peer), case fst (admit g peer) of Inr _ \<Rightarrow> Permit peer | Inl e \<Rightarrow> Refused e))
    \<and> (fst (admit g peer) = Ok () \<longleftrightarrow> per_listener g < listener_cap g \<and> current_peer_count g peer < per_ip_cap g)
    \<and> (\<exists>k \<le> 4. settled (snd (run_alone k g (Exchange peer cur))))
    \<and> (0 < per_listener g \<and> 0 < current_peer_count g peer \<longrightarrow>
         run_alone 3 g (Drop peer) = (drop_permit g peer, Released))"
proof -
  have exact: "fst (admit g peer) = Ok () \<longleftrightarrow>
      per_listener g < listener_cap g \<and> current_peer_count g peer < per_ip_cap g"
    by (auto simp: admit_def Let_def)
  have "per_listener g < 2 ^ 32" using assms(1,2) by (rule le_less_trans)
  then have dropped: "0 < per_listener g \<and> 0 < current_peer_count g peer \<longrightarrow>
      run_alone 3 g (Drop peer) = (drop_permit g peer, Released)"
    using run_drop [of g peer] by blast
  show ?thesis by (intro conjI) (rule run_admit [OF assms], rule exact, rule run_settles_exchange, rule dropped)
qed

theorem conn_gate_progress_witness:
  "\<exists>k \<le> 4. run_alone k (gate_new 2 1) (Load (0 :: nat)) =
    (\<lparr>per_ip = [0 \<mapsto> 1], per_listener = 1, per_ip_cap = 1, listener_cap = 2\<rparr>, Permit 0)"
  using conn_gate_progress [of "gate_new 2 1 :: nat gate" 0 0]
  by (simp add: gate_new_def admit_def current_peer_count_def)

end
