(* ===== verification/Abuse_Guards.thy ===== *)
theory Abuse_Guards
  imports Prelude "HOL-Library.AList"
begin

text \<open>
  The rate and abuse guards of \<open>lb-security/src\<close>: the slowloris and slow-POST detectors, the
  consolidated HTTP/2 glitch counter and the connection watchdog. The two rate detectors satisfy one
  contract, the locale \<open>rate_floor\<close>. Instants are naturals, in milliseconds for the detectors and in
  nanoseconds where the code uses \<open>Instant\<close>.
\<close>

section \<open>Errors\<close>

datatype security_error =
    SmuggleCLTE
  | SmuggleTECL
  | SmuggleDuplicateCL
  | SmuggleH2Downgrade
  | SlowlorisTimeout nat nat
  | SlowlorisRate nat nat
  | SlowPost nat nat
  | ZeroRttReplay

section \<open>Slowloris\<close>

record slowloris_detector =
  header_timeout_ms :: nat
  sl_min_rate :: nat
  sl_last_time :: nat
  sl_last_bytes :: nat

definition slowloris_new :: "nat \<Rightarrow> nat \<Rightarrow> slowloris_detector" where
  "slowloris_new timeout rate = \<lparr>header_timeout_ms = timeout, sl_min_rate = rate, sl_last_time = 0, sl_last_bytes = 0\<rparr>"

definition record_bytes :: "slowloris_detector \<Rightarrow> nat \<Rightarrow> nat \<Rightarrow> (unit, security_error) result \<times> slowloris_detector" where
  "record_bytes d bytes_received elapsed_ms =
     (let window_ms = elapsed_ms - sl_last_time d;
          window_bytes = bytes_received - sl_last_bytes d
      in if window_ms < 1000 then (Ok (), d)
         else
           let rate_bps = saturating_mul 64 window_bytes 1000 div window_ms;
               d' = d\<lparr>sl_last_time := elapsed_ms, sl_last_bytes := bytes_received\<rparr>
           in (if rate_bps < sl_min_rate d then Err (SlowlorisRate rate_bps (sl_min_rate d)) else Ok (), d'))"

definition check_header_timeout :: "slowloris_detector \<Rightarrow> nat \<Rightarrow> (unit, security_error) result" where
  "check_header_timeout d elapsed_ms =
     (if elapsed_ms > header_timeout_ms d then Err (SlowlorisTimeout elapsed_ms (header_timeout_ms d)) else Ok ())"

section \<open>Slow POST\<close>

record slow_post_detector =
  body_timeout_ms :: nat
  sp_min_rate :: nat
  sp_last_time :: nat
  sp_last_bytes :: nat

definition slow_post_new :: "nat \<Rightarrow> nat \<Rightarrow> slow_post_detector" where
  "slow_post_new timeout rate = \<lparr>body_timeout_ms = timeout, sp_min_rate = rate, sp_last_time = 0, sp_last_bytes = 0\<rparr>"

definition record_body_bytes ::
  "slow_post_detector \<Rightarrow> nat \<Rightarrow> nat \<Rightarrow> nat \<Rightarrow> (unit, security_error) result \<times> slow_post_detector" where
  "record_body_bytes d total_body_bytes elapsed_ms content_length =
     (if elapsed_ms = 0 then (Ok (), d)
      else if elapsed_ms > body_timeout_ms d then
        (Err (SlowPost (saturating_mul 64 total_body_bytes 1000 div elapsed_ms) (sp_min_rate d)), d)
      else
        let window_ms = elapsed_ms - sp_last_time d;
            window_bytes = total_body_bytes - sp_last_bytes d
        in if window_ms < 1000 then (Ok (), d)
           else
             let rate_bps = saturating_mul 64 window_bytes 1000 div window_ms;
                 d' = d\<lparr>sp_last_time := elapsed_ms, sp_last_bytes := total_body_bytes\<rparr>
             in (if rate_bps < sp_min_rate d then Err (SlowPost rate_bps (sp_min_rate d)) else Ok (), d'))"

section \<open>Glitches\<close>

datatype glitch_kind =
    RapidReset | ContinuationFlood | SettingsFlood | PingFlood | HpackRatio | ZeroWindowStall | FrameRecvTimeout

fun weight :: "glitch_kind \<Rightarrow> nat" where
  "weight ContinuationFlood = 1"
| "weight SettingsFlood = 2"
| "weight PingFlood = 2"
| "weight RapidReset = 5"
| "weight ZeroWindowStall = 5"
| "weight FrameRecvTimeout = 8"
| "weight HpackRatio = 10"

datatype glitch_outcome = Allow | Drain

record glitches_counter =
  gl_window :: nat
  gl_threshold :: nat
  gl_events :: "(nat \<times> nat) list"
  sum_in_window :: nat

definition DEFAULT_GLITCHES_WINDOW :: nat where
  "DEFAULT_GLITCHES_WINDOW = 60 * 10 ^ 9"

definition DEFAULT_GLITCHES_THRESHOLD :: nat where
  "DEFAULT_GLITCHES_THRESHOLD = 200"

definition glitches_new :: "nat \<Rightarrow> nat \<Rightarrow> glitches_counter" where
  "glitches_new threshold window =
     \<lparr>gl_window = window, gl_threshold = threshold, gl_events = [], sum_in_window = 0\<rparr>"

definition glitches_with_defaults :: glitches_counter where
  "glitches_with_defaults = glitches_new DEFAULT_GLITCHES_THRESHOLD DEFAULT_GLITCHES_WINDOW"

fun prune_loop :: "nat \<Rightarrow> (nat \<times> nat) list \<Rightarrow> nat \<Rightarrow> (nat \<times> nat) list \<times> nat" where
  "prune_loop cutoff [] s = ([], s)"
| "prune_loop cutoff ((when', w) # es) s =
     (if when' < cutoff then prune_loop cutoff es (s - w) else ((when', w) # es, s))"

definition prune :: "glitches_counter \<Rightarrow> nat \<Rightarrow> glitches_counter" where
  "prune c now =
     (if gl_window c \<le> now then
        let (es, s) = prune_loop (now - gl_window c) (gl_events c) (sum_in_window c)
        in c\<lparr>gl_events := es, sum_in_window := s\<rparr>
      else c)"

definition glitches_record :: "glitches_counter \<Rightarrow> glitch_kind \<Rightarrow> nat \<Rightarrow> glitch_outcome \<times> glitches_counter" where
  "glitches_record c kind now =
     (let c1 = prune c now;
          c2 = c1\<lparr>gl_events := gl_events c1 @ [(now, weight kind)],
                 sum_in_window := saturating_add 32 (sum_in_window c1) (weight kind)\<rparr>
      in (if sum_in_window c2 > gl_threshold c2 then Drain else Allow, c2))"

section \<open>Watchdog\<close>

record watch_entry =
  deadline :: nat
  bytes_at_window_start :: nat
  window_started_at :: nat
  last_bytes :: nat
  last_seen :: nat

record 'ip conn_id =
  conn_peer :: 'ip
  conn_seq :: u64

datatype 'c watchdog_error = Deadline 'c | SlowRate 'c nat nat | UnknownConn 'c

record 'ip watchdog =
  min_rate_bps :: nat
  rate_window :: nat
  max_registered :: nat
  table :: "('ip conn_id \<times> watch_entry) list"

definition watchdog_new :: "nat \<Rightarrow> nat \<Rightarrow> nat \<Rightarrow> 'ip watchdog" where
  "watchdog_new rate window cap = \<lparr>min_rate_bps = rate, rate_window = window, max_registered = cap, table = []\<rparr>"

definition register :: "'ip watchdog \<Rightarrow> nat \<Rightarrow> 'ip conn_id \<Rightarrow> nat \<Rightarrow> bool \<times> 'ip watchdog" where
  "register w now i dl =
     (if length (table w) \<ge> max_registered w then (False, w)
      else (True, w\<lparr>table := AList.update i \<lparr>deadline = dl, bytes_at_window_start = 0, window_started_at = now,
              last_bytes = 0, last_seen = now\<rparr> (table w)\<rparr>))"

definition progress :: "'ip watchdog \<Rightarrow> nat \<Rightarrow> 'ip conn_id \<Rightarrow> nat \<Rightarrow> (unit, 'ip conn_id watchdog_error) result \<times> 'ip watchdog" where
  "progress w now i bytes_read =
     (case map_of (table w) i of
        None \<Rightarrow> (Err (UnknownConn i), w)
      | Some e \<Rightarrow>
          let dead = (if now > deadline e then Some (Deadline i) else None);
              elapsed = now - window_started_at e;
              checked = (dead = None \<and> min_rate_bps w > 0 \<and> elapsed \<ge> rate_window w);
              window_ms = min (as_millis elapsed) (max_of 64);
              slow = (if checked then
                        case checked_div (saturating_mul 64 (bytes_read - bytes_at_window_start e) 1000) window_ms of
                          Some observed \<Rightarrow>
                            if observed < min_rate_bps w then Some (SlowRate i observed (min_rate_bps w)) else None
                        | None \<Rightarrow> None
                      else None);
              e1 = (if checked then e\<lparr>bytes_at_window_start := bytes_read, window_started_at := now\<rparr> else e);
              e2 = e1\<lparr>last_bytes := bytes_read, last_seen := now\<rparr>
          in case (if dead = None then slow else dead) of
               Some reason \<Rightarrow> (Err reason, w\<lparr>table := AList.delete i (table w)\<rparr>)
             | None \<Rightarrow> (Ok (), w\<lparr>table := AList.update i e2 (table w)\<rparr>))"

definition deregister :: "'ip watchdog \<Rightarrow> 'ip conn_id \<Rightarrow> bool \<times> 'ip watchdog" where
  "deregister w i = (map_of (table w) i \<noteq> None, w\<lparr>table := AList.delete i (table w)\<rparr>)"

definition sweep_expired :: "'ip watchdog \<Rightarrow> nat \<Rightarrow> 'ip conn_id list \<times> 'ip watchdog" where
  "sweep_expired w now =
     (map fst (filter (\<lambda>(i, e). now > deadline e) (table w)),
      w\<lparr>table := filter (\<lambda>(i, e). \<not> now > deadline e) (table w)\<rparr>)"

section \<open>The rate contract\<close>

text \<open>A report of the cumulative byte count either falls inside the grace span after the last mark and
  is not judged, or moves the mark; an accepted move has met the floor since the last mark.\<close>

locale rate_floor =
  fixes report :: "'d \<Rightarrow> nat \<Rightarrow> nat \<Rightarrow> bool \<times> 'd" and mark_time :: "'d \<Rightarrow> nat" and mark_bytes :: "'d \<Rightarrow> nat"
    and floor_rate :: "'d \<Rightarrow> nat" and span :: nat
  assumes keeps_floor: "floor_rate (snd (report d b t)) = floor_rate d"
    and judged: "fst (report d b t) \<Longrightarrow>
        (mark_time (snd (report d b t)) = mark_time d \<and> mark_bytes (snd (report d b t)) = mark_bytes d
          \<and> t < mark_time d + span)
      \<or> (mark_time (snd (report d b t)) = t \<and> mark_bytes (snd (report d b t)) = b \<and> mark_time d \<le> t
          \<and> floor_rate d * (t - mark_time d) \<le> 1000 * (b - mark_bytes d))"
begin

fun tolerated :: "'d \<Rightarrow> (nat \<times> nat) list \<Rightarrow> bool" where
  "tolerated d [] \<longleftrightarrow> True"
| "tolerated d ((b, t) # rs) \<longleftrightarrow> fst (report d b t) \<and> tolerated (snd (report d b t)) rs"

fun state_after :: "'d \<Rightarrow> (nat \<times> nat) list \<Rightarrow> 'd" where
  "state_after d [] = d"
| "state_after d ((b, t) # rs) = state_after (snd (report d b t)) rs"

lemma tolerated_append: "tolerated d (xs @ ys) \<longleftrightarrow> tolerated d xs \<and> tolerated (state_after d xs) ys"
  by (induction d xs rule: tolerated.induct) auto

lemma state_after_append: "state_after d (xs @ ys) = state_after (state_after d xs) ys"
  by (induction d xs rule: state_after.induct) auto

lemma floor_rate_after [simp]: "floor_rate (state_after d rs) = floor_rate d"
  by (induction d rs rule: state_after.induct) (auto simp: keeps_floor)

text \<open>Wherever the floor has been met since some earlier point \<open>(b\<^sub>0, t\<^sub>0)\<close>, it stays met, but for the
  grace span after the last mark.\<close>

lemma floor_met:
  assumes "tolerated d (rs @ [(b, t)])" and "sorted (mark_bytes d # map fst rs @ [b])"
    and "floor_rate d * mark_time d + 1000 * b\<^sub>0 \<le> 1000 * mark_bytes d + floor_rate d * t\<^sub>0"
  shows "floor_rate d * t + 1000 * b\<^sub>0 \<le> 1000 * b + floor_rate d * t\<^sub>0 + floor_rate d * span"
  using assms
proof (induction rs arbitrary: d)
  case Nil
  have le: "mark_bytes d \<le> b" using Nil.prems(2) by simp
  have "fst (report d b t)" using Nil.prems(1) by simp
  from judged [OF this] show ?case
  proof (elim disjE conjE)
    assume "t < mark_time d + span"
    then have "floor_rate d * t \<le> floor_rate d * mark_time d + floor_rate d * span"
      by (metis add_mult_distrib2 less_imp_le_nat mult_le_mono2)
    with Nil.prems(3) le show ?thesis by simp
  next
    assume "mark_time d \<le> t" "floor_rate d * (t - mark_time d) \<le> 1000 * (b - mark_bytes d)"
    with Nil.prems(3) le show ?thesis by (simp add: diff_mult_distrib2)
  qed
next
  case (Cons r rs)
  obtain b' t' where r: "r = (b', t')" by fastforce
  let ?d = "snd (report d b' t')"
  have acc: "fst (report d b' t')" "tolerated ?d (rs @ [(b, t)])" using Cons.prems(1) by (simp_all add: r)
  have le: "mark_bytes d \<le> b'" "sorted (b' # map fst rs @ [b])" using Cons.prems(2) by (simp_all add: r)
  have "sorted (mark_bytes ?d # map fst rs @ [b])"
    "floor_rate ?d * mark_time ?d + 1000 * b\<^sub>0 \<le> 1000 * mark_bytes ?d + floor_rate ?d * t\<^sub>0"
    using judged [OF acc(1)] le Cons.prems(3) keeps_floor [of d b' t'] by (auto simp: diff_mult_distrib2)
  from Cons.IH [OF acc(2) this] show ?case by (simp add: keeps_floor)
qed

text \<open>The mark is a report of the past, and no report has been taken a whole span after it.\<close>

lemma mark_reported:
  "tolerated d rs \<Longrightarrow> (mark_bytes (state_after d rs), mark_time (state_after d rs)) \<in> set ((mark_bytes d, mark_time d) # rs)"
proof (induction d rs rule: tolerated.induct)
  case (2 d b t rs)
  then have acc: "fst (report d b t)" "tolerated (snd (report d b t)) rs" by simp_all
  from judged [OF acc(1)] "2.IH" [OF acc(2)] show ?case by auto
qed simp

lemma mark_recent:
  assumes "tolerated d (rs @ [(b, t)])" and "0 < span"
  shows "t < mark_time (state_after d (rs @ [(b, t)])) + span"
  using assms judged [of "state_after d rs" b t] by (auto simp: tolerated_append state_after_append)

lemma floor_met_since:
  assumes "tolerated d (rs @ [(b\<^sub>1, t\<^sub>1)] @ rs' @ [(b, t)])"
    and "sorted (mark_bytes d # map fst rs @ [b\<^sub>1] @ map fst rs' @ [b])" and "0 < span"
  shows "\<exists>(b\<^sub>0, t\<^sub>0) \<in> set ((mark_bytes d, mark_time d) # rs @ [(b\<^sub>1, t\<^sub>1)]). t\<^sub>1 < t\<^sub>0 + span
    \<and> floor_rate d * t + 1000 * b\<^sub>0 \<le> 1000 * b + floor_rate d * t\<^sub>0 + floor_rate d * span"
proof -
  let ?rs = "rs @ [(b\<^sub>1, t\<^sub>1)]"
  let ?e = "state_after d ?rs"
  have acc: "tolerated d ?rs" "tolerated ?e (rs' @ [(b, t)])"
    using assms(1) by (simp_all add: tolerated_append state_after_append)
  have mark: "(mark_bytes ?e, mark_time ?e) \<in> set ((mark_bytes d, mark_time d) # ?rs)"
    by (rule mark_reported [OF acc(1)])
  then have "mark_bytes ?e \<in> set (mark_bytes d # map fst rs @ [b\<^sub>1])" by force
  then have "sorted (mark_bytes ?e # map fst rs' @ [b])"
    using assms(2) by (fastforce simp: sorted_append)
  from floor_met [OF acc(2) this, of "mark_bytes ?e" "mark_time ?e"] mark mark_recent [OF acc(1) assms(3)]
  show ?thesis by (intro bexI [of _ "(mark_bytes ?e, mark_time ?e)"]) simp_all
qed

end

section \<open>The rate detectors meet the contract\<close>

lemma rate_met:
  assumes "(r :: nat) \<le> saturating_mul 64 b 1000 div m"
  shows "r * m \<le> 1000 * b"
proof -
  have "r * m \<le> (saturating_mul 64 b 1000 div m) * m" using assms by simp
  also have "\<dots> \<le> saturating_mul 64 b 1000" by (rule div_times_less_eq_dividend)
  also have "\<dots> \<le> 1000 * b" by (simp add: saturating_mul_def)
  finally show ?thesis .
qed

interpretation sl: rate_floor "\<lambda>d b t. (\<not> isl (fst (record_bytes d b t)), snd (record_bytes d b t))"
  sl_last_time sl_last_bytes sl_min_rate 1000
  by unfold_locales (auto simp: record_bytes_def Let_def not_less split: if_splits dest: rate_met)

interpretation sp: rate_floor
  "\<lambda>d b t. (\<not> isl (fst (record_body_bytes d b t n)), snd (record_body_bytes d b t n))"
  sp_last_time sp_last_bytes sp_min_rate 1000
  for n
  by unfold_locales (auto simp: record_body_bytes_def Let_def not_less split: if_splits dest: rate_met)

fun slowloris_accepts :: "slowloris_detector \<Rightarrow> (nat \<times> nat) list \<Rightarrow> bool" where
  "slowloris_accepts d [] = True"
| "slowloris_accepts d ((b, t) # rs) =
     (case record_bytes d b t of (Inl e, d') \<Rightarrow> False | (Inr u, d') \<Rightarrow> slowloris_accepts d' rs)"

fun slow_post_accepts :: "nat \<Rightarrow> slow_post_detector \<Rightarrow> (nat \<times> nat) list \<Rightarrow> bool" where
  "slow_post_accepts n d [] = True"
| "slow_post_accepts n d ((b, t) # rs) =
     (case record_body_bytes d b t n of (Inl e, d') \<Rightarrow> False | (Inr u, d') \<Rightarrow> slow_post_accepts n d' rs)"

lemma slowloris_accepts_tolerated: "slowloris_accepts d rs = sl.tolerated d rs"
  by (induction d rs rule: slowloris_accepts.induct) (auto split: prod.splits sum.splits)

lemma slow_post_accepts_tolerated: "slow_post_accepts n d rs = sp.tolerated n d rs"
  by (induction n d rs rule: slow_post_accepts.induct) (auto split: prod.splits sum.splits)

text \<open>C25. The slowloris and the slow-POST detector judge the recent rate, not a lifetime average. Take
  any two reports \<open>(b\<^sub>1, t\<^sub>1)\<close> and \<open>(b, t)\<close>, in this order, of a client whose reports have all been
  accepted, with a cumulative count and a time that never decrease. Some report taken at or before
  \<open>t\<^sub>1\<close> (or the start) and less than a second earlier starts a stretch in which the client, up to the later
  report, sent at least the configured rate but for one second:
  \<open>rate * (t - t\<^sub>0) \<le> 1000 * (b - b\<^sub>0) + 1000 * rate\<close>. So no amount of data sent before then pays for a later
  trickle, as it would if the checkpoint were never moved.\<close>

theorem slow_client_recent_rate:
  assumes "rs = before @ [(b\<^sub>1, t\<^sub>1)] @ between @ [(b, t)]"
    and "sorted (map fst rs)" and "sorted (map snd rs)"
    and "slowloris_accepts (slowloris_new timeout rate) rs \<or> slow_post_accepts n (slow_post_new timeout rate) rs"
  shows "\<exists>(b\<^sub>0, t\<^sub>0) \<in> set ((0, 0) # before @ [(b\<^sub>1, t\<^sub>1)]). b\<^sub>0 \<le> b \<and> t\<^sub>0 \<le> t\<^sub>1 \<and> t\<^sub>1 < t\<^sub>0 + 1000
    \<and> rate * (t - t\<^sub>0) \<le> 1000 * (b - b\<^sub>0) + 1000 * rate"
proof -
  have srt: "sorted (0 # map fst before @ [b\<^sub>1] @ map fst between @ [b])" using assms(1,2) by simp
  have "\<exists>(b\<^sub>0, t\<^sub>0) \<in> set ((0, 0) # before @ [(b\<^sub>1, t\<^sub>1)]). t\<^sub>1 < t\<^sub>0 + 1000
    \<and> rate * t + 1000 * b\<^sub>0 \<le> 1000 * b + rate * t\<^sub>0 + rate * 1000"
    using assms(4)
  proof
    assume "slowloris_accepts (slowloris_new timeout rate) rs"
    then show ?thesis
      using sl.floor_met_since [of "slowloris_new timeout rate" before b\<^sub>1 t\<^sub>1 between b t] srt assms(1)
      by (simp add: slowloris_accepts_tolerated slowloris_new_def)
  next
    assume "slow_post_accepts n (slow_post_new timeout rate) rs"
    then show ?thesis
      using sp.floor_met_since [of n "slow_post_new timeout rate" before b\<^sub>1 t\<^sub>1 between b t] srt assms(1)
      by (simp add: slow_post_accepts_tolerated slow_post_new_def)
  qed
  then obtain b\<^sub>0 t\<^sub>0 where o: "(b\<^sub>0, t\<^sub>0) \<in> set ((0, 0) # before @ [(b\<^sub>1, t\<^sub>1)])" "t\<^sub>1 < t\<^sub>0 + 1000"
    "rate * t + 1000 * b\<^sub>0 \<le> 1000 * b + rate * t\<^sub>0 + rate * 1000" by (elim bexE) (simp only: split_beta, metis prod.collapse)
  have "t\<^sub>0 \<le> t\<^sub>1" "b\<^sub>0 \<le> b" using o(1) assms(1-3) by (force simp: sorted_append)+
  with o show ?thesis by (intro bexI [OF _ o(1)]) (simp add: diff_mult_distrib2)
qed

theorem slow_client_recent_rate_witness:
  "slowloris_accepts (slowloris_new 5000 100) [(900, 1500), (910, 2400), (1100, 3000)]
   \<and> (\<exists>(b\<^sub>0, t\<^sub>0) \<in> set [(0, 0), (900, 1500), (910, 2400)]. b\<^sub>0 \<le> 1100 \<and> t\<^sub>0 \<le> 2400 \<and> 2400 < t\<^sub>0 + 1000
        \<and> 100 * (3000 - t\<^sub>0) \<le> 1000 * (1100 - b\<^sub>0) + (1000 :: nat) * 100)"
proof
  show *: "slowloris_accepts (slowloris_new 5000 100) [(900, 1500), (910, 2400), (1100, 3000)]"
    by (simp add: slowloris_new_def record_bytes_def saturating_mul_def max_of_def)
  show "\<exists>(b\<^sub>0, t\<^sub>0) \<in> set [(0, 0), (900, 1500), (910, 2400)]. b\<^sub>0 \<le> 1100 \<and> t\<^sub>0 \<le> 2400 \<and> 2400 < t\<^sub>0 + 1000
      \<and> 100 * (3000 - t\<^sub>0) \<le> 1000 * (1100 - b\<^sub>0) + (1000 :: nat) * 100"
    using slow_client_recent_rate [OF refl, of "[(900, 1500)]" 910 2400 "[]" 1100 3000 5000 100 0] * by simp
qed

section \<open>The glitch counter is an exact sliding window\<close>

fun glitches_run :: "glitches_counter \<Rightarrow> (glitch_kind \<times> nat) list \<Rightarrow> glitches_counter" where
  "glitches_run c [] = c"
| "glitches_run c ((k, t) # es) = glitches_run (snd (glitches_record c k t)) es"

definition total_weight :: "(nat \<times> nat) list \<Rightarrow> nat" where
  "total_weight es = sum_list (map snd es)"

definition stamped :: "(glitch_kind \<times> nat) list \<Rightarrow> (nat \<times> nat) list" where
  "stamped es = map (\<lambda>(k, t). (t, weight k)) es"

definition in_window :: "nat \<Rightarrow> nat \<Rightarrow> (nat \<times> nat) list \<Rightarrow> (nat \<times> nat) list" where
  "in_window w now es = filter (\<lambda>(t, x). now \<le> t + w) es"

definition tracks :: "glitches_counter \<Rightarrow> nat \<Rightarrow> (nat \<times> nat) list \<Rightarrow> bool" where
  "tracks c now es \<longleftrightarrow> gl_events c = in_window (gl_window c) now es
     \<and> sum_in_window c = total_weight (in_window (gl_window c) now es)"

lemma prune_loop_filter:
  assumes "sorted (map fst es)" and "s = total_weight es"
  shows "prune_loop cutoff es s = (filter (\<lambda>(t, x). cutoff \<le> t) es, total_weight (filter (\<lambda>(t, x). cutoff \<le> t) es))"
  using assms
proof (induction cutoff es s rule: prune_loop.induct)
  case (2 cutoff when' w es s)
  show ?case
  proof (cases "when' < cutoff")
    case True
    with 2 show ?thesis by (simp add: total_weight_def)
  next
    case False
    then have "filter (\<lambda>(t, x). cutoff \<le> t) ((when', w) # es) = (when', w) # es"
      using "2.prems"(1) by (subst filter_id_conv) force
    with False "2.prems"(2) show ?thesis by simp
  qed
qed (simp add: total_weight_def)

lemma in_window_later:
  "now \<le> now' \<Longrightarrow> in_window w now' (in_window w now es) = in_window w now' es"
  by (auto simp: in_window_def intro!: filter_cong)

lemma prune_tracks:
  assumes "tracks c now es" and "now \<le> now'" and "sorted (map fst es)"
  shows "tracks (prune c now') now' es \<and> gl_window (prune c now') = gl_window c \<and> gl_threshold (prune c now') = gl_threshold c"
proof (cases "gl_window c \<le> now'")
  case True
  have srt: "sorted (map fst (gl_events c))"
    using assms(1,3) by (simp add: tracks_def in_window_def sorted_filter)
  have "filter (\<lambda>(t, x). now' - gl_window c \<le> t) (gl_events c) = in_window (gl_window c) now' (gl_events c)"
    unfolding in_window_def using True by (intro filter_cong) auto
  then have "filter (\<lambda>(t, x). now' - gl_window c \<le> t) (gl_events c) = in_window (gl_window c) now' es"
    using assms(1) in_window_later [OF assms(2)] by (simp add: tracks_def)
  with prune_loop_filter [OF srt, of "sum_in_window c" "now' - gl_window c"] True assms(1) show ?thesis
    by (simp add: prune_def tracks_def)
next
  case False
  then have "in_window (gl_window c) now' es = es" "in_window (gl_window c) now es = es"
    using assms(2) by (auto simp: in_window_def filter_id_conv)
  with False assms(1) show ?thesis by (simp add: prune_def tracks_def)
qed

lemma record_tracks:
  assumes "tracks c now es" and "now \<le> now'" and "sorted (map fst es)"
    and "total_weight es + weight k < 2 ^ 32"
  shows "tracks (snd (glitches_record c k now')) now' (es @ [(now', weight k)])
    \<and> gl_window (snd (glitches_record c k now')) = gl_window c
    \<and> gl_threshold (snd (glitches_record c k now')) = gl_threshold c"
proof -
  let ?in = "in_window (gl_window c) now' es"
  note p = prune_tracks [OF assms(1-3)]
  have "total_weight ?in \<le> total_weight es"
    by (induction es) (auto simp: in_window_def total_weight_def)
  then have "saturating_add 32 (total_weight ?in) (weight k) = total_weight ?in + weight k"
    using assms(4) by (simp add: saturating_add_def max_of_def)
  with p show ?thesis
    by (simp add: glitches_record_def tracks_def Let_def in_window_def total_weight_def)
qed

lemma run_tracks:
  assumes "tracks c now es" and "sorted (map fst es)" and "sorted (now # map snd ks)"
    and "\<forall>e \<in> set es. fst e \<le> now"
    and "total_weight es + total_weight (stamped ks) < 2 ^ 32"
  shows "tracks (glitches_run c ks) (if ks = [] then now else snd (List.last ks)) (es @ stamped ks)
    \<and> gl_window (glitches_run c ks) = gl_window c \<and> gl_threshold (glitches_run c ks) = gl_threshold c"
  using assms
proof (induction c ks arbitrary: now es rule: glitches_run.induct)
  case (2 c k t ks)
  let ?es = "es @ [(t, weight k)]"
  have t: "now \<le> t" using "2.prems"(3) by simp
  have step: "tracks (snd (glitches_record c k t)) t ?es"
    "gl_window (snd (glitches_record c k t)) = gl_window c"
    "gl_threshold (snd (glitches_record c k t)) = gl_threshold c"
    using record_tracks [OF "2.prems"(1) t "2.prems"(2), of k] "2.prems"(5)
    by (simp_all add: stamped_def total_weight_def)
  have "sorted (map fst ?es)" "sorted (t # map snd ks)" "\<forall>e \<in> set ?es. fst e \<le> t"
    "total_weight ?es + total_weight (stamped ks) < 2 ^ 32"
    using "2.prems" t by (fastforce simp: sorted_append stamped_def total_weight_def)+
  from "2.IH" [OF step(1) this] show ?case by (auto simp: step stamped_def split: if_splits)
qed (simp add: stamped_def)

text \<open>C26. The glitch counter is an exact sliding window. For events at non-decreasing times whose weights
  stay below \<open>2^32\<close> in total, recording one more event says \<open>Drain\<close> exactly when the weights of the
  events not older than the window, the new one included, sum to more than the threshold: the
  incremental sum, the deque and the pruning never lose or double-count an event.\<close>

theorem glitches_exact:
  assumes "sorted (map snd ks @ [now])"
    and "total_weight (stamped (ks @ [(k, now)])) < 2 ^ 32"
  shows "fst (glitches_record (glitches_run (glitches_new threshold window) ks) k now) = Drain
    \<longleftrightarrow> threshold < total_weight (in_window window now (stamped (ks @ [(k, now)])))"
proof -
  let ?c = "glitches_new threshold window"
  have c: "tracks (glitches_run ?c (ks @ [(k, now)])) now (stamped (ks @ [(k, now)]))"
    "gl_window (glitches_run ?c (ks @ [(k, now)])) = window"
    "gl_threshold (glitches_run ?c (ks @ [(k, now)])) = threshold"
    using run_tracks [of ?c 0 "[]" "ks @ [(k, now)]"] assms
    by (auto simp: tracks_def glitches_new_def in_window_def total_weight_def sorted_append)
  have run: "glitches_run d (ks @ [(k, now)]) = snd (glitches_record (glitches_run d ks) k now)" for d
    by (induction d ks rule: glitches_run.induct) simp_all
  have "fst (glitches_record d k now) = Drain
      \<longleftrightarrow> gl_threshold (snd (glitches_record d k now)) < sum_in_window (snd (glitches_record d k now))" for d
    by (simp add: glitches_record_def Let_def)
  with c show ?thesis by (simp add: run tracks_def)
qed

theorem glitches_exact_witness:
  "fst (glitches_record (glitches_run (glitches_new 12 10) [(HpackRatio, 0), (RapidReset, 15)]) RapidReset 16) = Allow
   \<and> fst (glitches_record (glitches_run (glitches_new 12 10) [(HpackRatio, 6), (RapidReset, 15)]) RapidReset 16) = Drain"
  using glitches_exact [of "[(HpackRatio, 0), (RapidReset, 15)]" 16 RapidReset 12 10]
    glitches_exact [of "[(HpackRatio, 6), (RapidReset, 15)]" 16 RapidReset 12 10]
  by (cases "fst (glitches_record (glitches_run (glitches_new 12 10) [(HpackRatio, 0), (RapidReset, 15)]) RapidReset 16)")
    (simp_all add: stamped_def total_weight_def in_window_def)

section \<open>The watchdog table\<close>

definition watchdog_ok :: "'ip watchdog \<Rightarrow> bool" where
  "watchdog_ok w \<longleftrightarrow> distinct (map fst (table w)) \<and> length (table w) \<le> max_registered w"

datatype 'c watch_op = Register nat 'c nat | Progress nat 'c nat | Deregister 'c | Sweep nat

fun watch_step :: "'ip watchdog \<Rightarrow> 'ip conn_id watch_op \<Rightarrow> 'ip watchdog" where
  "watch_step w (Register now i dl) = snd (register w now i dl)"
| "watch_step w (Progress now i b) = snd (progress w now i b)"
| "watch_step w (Deregister i) = snd (deregister w i)"
| "watch_step w (Sweep now) = snd (sweep_expired w now)"

lemma length_update: "length (AList.update k v xs) = (if k \<in> fst ` set xs then length xs else Suc (length xs))"
  by (induction xs) auto

lemma length_delete_le: "length (AList.delete k xs) \<le> length xs"
  by (simp add: AList.delete_eq)

lemma watch_step_ok: "watchdog_ok w \<Longrightarrow> watchdog_ok (watch_step w a)"
proof (induction w a rule: watch_step.induct)
  case (2 w now i b)
  have "length (AList.update i e (table w)) = length (table w)" if "map_of (table w) i = Some e'" for e e'
    using that by (auto simp: length_update dest: map_of_SomeD intro: rev_image_eqI)
  with 2 show ?case
    by (auto simp: watchdog_ok_def progress_def Let_def distinct_update distinct_delete
        intro: order.trans [OF length_delete_le] split: option.splits)
qed (auto simp: watchdog_ok_def register_def deregister_def sweep_expired_def Let_def distinct_update distinct_delete
      length_update distinct_map_filter intro: order.trans [OF length_delete_le] order.trans [OF length_filter_le])

lemma watch_step_config: "max_registered (watch_step w a) = max_registered w"
  by (cases a) (auto simp: register_def progress_def deregister_def sweep_expired_def Let_def split: option.splits)

definition watch_run :: "nat \<Rightarrow> nat \<Rightarrow> nat \<Rightarrow> 'ip conn_id watch_op list \<Rightarrow> 'ip watchdog" where
  "watch_run rate window cap ops = foldl watch_step (watchdog_new rate window cap) ops"

text \<open>Over every sequence of watchdog operations from a fresh watchdog the table holds each
  connection once and never more than \<open>max_registered\<close> connections; and a sweep at any later point
  reports exactly the connections past their deadline, removes them, and keeps every other entry as it
  was.\<close>

lemma watchdog_invariant:
  fixes ops :: "'ip conn_id watch_op list"
  shows "distinct (map fst (table (watch_run rate window cap ops)))
    \<and> length (table (watch_run rate window cap ops)) \<le> cap
    \<and> set (fst (sweep_expired (watch_run rate window cap ops) now))
        = {i. \<exists>e. map_of (table (watch_run rate window cap ops)) i = Some e \<and> deadline e < now}
    \<and> map_of (table (snd (sweep_expired (watch_run rate window cap ops) now))) i
        = (case map_of (table (watch_run rate window cap ops)) i of Some e \<Rightarrow> if deadline e < now then None else Some e | None \<Rightarrow> None)"
proof -
  have "watchdog_ok (foldl watch_step v ops) \<and> max_registered (foldl watch_step v ops) = max_registered v"
    if "watchdog_ok v" for v :: "'ip watchdog"
    using that by (induction ops arbitrary: v) (simp_all add: watch_step_ok watch_step_config)
  from this [of "watchdog_new rate window cap"]
  have ok: "distinct (map fst (table (watch_run rate window cap ops)))" "length (table (watch_run rate window cap ops)) \<le> cap"
    by (simp_all add: watch_run_def watchdog_ok_def watchdog_new_def)
  have "map_of (filter (\<lambda>(i, e). \<not> deadline e < now) xs) i
      = (case map_of xs i of Some e \<Rightarrow> if deadline e < now then None else Some e | None \<Rightarrow> None)"
    if "distinct (map fst xs)" for xs :: "('ip conn_id \<times> watch_entry) list"
    using that by (induction xs) (force split: option.splits dest: map_of_SomeD)+
  with ok show ?thesis by (force simp: sweep_expired_def)
qed

end
