(* ===== verification/Zero_Rtt.thy ===== *)
theory Zero_Rtt
  imports Abuse_Guards
begin

text \<open>
  The 0-RTT replay guard (\<open>lb-security/src/zero_rtt.rs\<close>): a least-recently-used window of token digests
  kept as a doubly linked list threaded through an arena, with a free list and a hash index. It is
  refined to the plain list of digests it stands for. The keyed hash belongs to the \<open>ring\<close> crate and is
  an argument; a \<open>HashMap\<close> is an association list with distinct keys.
\<close>

section \<open>The arena\<close>

record 'd node =
  digest :: 'd
  prev :: nat
  nxt :: nat

definition NIL :: nat where
  "NIL = max_of 64"

record 'd guard =
  max_tokens :: nat
  arena :: "'d node list"
  free_head :: nat
  lru_front :: nat
  lru_back :: nat
  index :: "('d \<times> nat) list"

definition guard_new :: "nat \<Rightarrow> 'd guard" where
  "guard_new n = \<lparr>max_tokens = (if n = 0 then 1 else n), arena = [], free_head = NIL, lru_front = NIL, lru_back = NIL, index = []\<rparr>"

text \<open>\<open>get_mut\<close>: the closure runs when the index is in range.\<close>

definition at :: "'d node list \<Rightarrow> nat \<Rightarrow> ('d node \<Rightarrow> 'd node) \<Rightarrow> 'd node list" where
  "at ar i f = (if i < length ar then ar[i := f (ar ! i)] else ar)"

definition alloc_node :: "'d guard \<Rightarrow> 'd \<Rightarrow> nat \<times> 'd guard" where
  "alloc_node g d =
     (let fresh = (length (arena g), g\<lparr>arena := arena g @ [\<lparr>digest = d, prev = NIL, nxt = NIL\<rparr>], free_head := NIL\<rparr>) in
      if free_head g = NIL then fresh
      else case get (arena g) (free_head g) of
        Some n \<Rightarrow>
          (free_head g,
           g\<lparr>free_head := nxt n, arena := (arena g)[free_head g := \<lparr>digest = d, prev = NIL, nxt = NIL\<rparr>]\<rparr>)
      | None \<Rightarrow> fresh)"

definition free_node :: "'d guard \<Rightarrow> nat \<Rightarrow> 'd guard" where
  "free_node g idx =
     (if idx < length (arena g) then
        g\<lparr>arena := at (arena g) idx (\<lambda>n. n\<lparr>prev := NIL, nxt := free_head g\<rparr>), free_head := idx\<rparr>
      else g)"

definition push_back :: "'d guard \<Rightarrow> nat \<Rightarrow> 'd guard" where
  "push_back g idx =
     (let prev_back = lru_back g;
          ar = at (arena g) idx (\<lambda>n. n\<lparr>prev := prev_back, nxt := NIL\<rparr>)
      in if prev_back = NIL then g\<lparr>arena := ar, lru_front := idx, lru_back := idx\<rparr>
         else g\<lparr>arena := at ar prev_back (\<lambda>n. n\<lparr>nxt := idx\<rparr>), lru_back := idx\<rparr>)"

definition unlink :: "'d guard \<Rightarrow> nat \<Rightarrow> 'd guard" where
  "unlink g idx =
     (let (p, n) = (case get (arena g) idx of None \<Rightarrow> (NIL, NIL) | Some nd \<Rightarrow> (prev nd, nxt nd));
          g1 = (if p = NIL then g\<lparr>lru_front := n\<rparr> else g\<lparr>arena := at (arena g) p (\<lambda>x. x\<lparr>nxt := n\<rparr>)\<rparr>)
      in if n = NIL then g1\<lparr>lru_back := p\<rparr> else g1\<lparr>arena := at (arena g1) n (\<lambda>x. x\<lparr>prev := p\<rparr>)\<rparr>)"

definition move_to_back :: "'d guard \<Rightarrow> nat \<Rightarrow> 'd guard" where
  "move_to_back g idx = (if lru_back g = idx then g else push_back (unlink g idx) idx)"

definition evict_lru :: "'d guard \<Rightarrow> 'd guard" where
  "evict_lru g =
     (let idx = lru_front g in
      if idx = NIL then g
      else
        let d = map_option digest (get (arena g) idx);
            g1 = unlink g idx;
            g2 = (case d of Some x \<Rightarrow> g1\<lparr>index := AList.delete x (index g1)\<rparr> | None \<Rightarrow> g1)
        in free_node g2 idx)"

definition check_and_record :: "(bytes \<Rightarrow> 'd) \<Rightarrow> 'd guard \<Rightarrow> bytes \<Rightarrow> (unit, security_error) result \<times> 'd guard" where
  "check_and_record hash_token g token =
     (let d = hash_token token in
      case map_of (index g) d of
        Some idx \<Rightarrow> (Err ZeroRttReplay, move_to_back g idx)
      | None \<Rightarrow>
          let g1 = (if length (index g) \<ge> max_tokens g then evict_lru g else g);
              (idx, g2) = alloc_node g1 d;
              g3 = push_back g2 idx
          in (Ok (), g3\<lparr>index := AList.update d idx (index g3)\<rparr>))"

section \<open>The window as a list\<close>

definition lru_check :: "nat \<Rightarrow> 'd list \<Rightarrow> 'd \<Rightarrow> (unit, security_error) result \<times> 'd list" where
  "lru_check cap ds d =
     (if d \<in> set ds then (Err ZeroRttReplay, remove1 d ds @ [d])
      else (Ok (), (if length ds \<ge> cap then tl ds else ds) @ [d]))"

section \<open>Linked segments\<close>

text \<open>The nodes of a list of indices, linked in that order between a node before and a node after.\<close>

definition hd_or :: "nat \<Rightarrow> nat list \<Rightarrow> nat" where
  "hd_or n is = (case is of [] \<Rightarrow> n | i # _ \<Rightarrow> i)"

definition last_or :: "nat \<Rightarrow> nat list \<Rightarrow> nat" where
  "last_or p is = (if is = [] then p else last is)"

fun seg :: "'d node list \<Rightarrow> nat \<Rightarrow> nat list \<Rightarrow> nat \<Rightarrow> bool" where
  "seg ar p [] n \<longleftrightarrow> True"
| "seg ar p (i # is) n \<longleftrightarrow> i < length ar \<and> prev (ar ! i) = p \<and> nxt (ar ! i) = hd_or n is \<and> seg ar i is n"

fun free_seg :: "'d node list \<Rightarrow> nat \<Rightarrow> nat list \<Rightarrow> bool" where
  "free_seg ar h [] \<longleftrightarrow> h = NIL"
| "free_seg ar h (i # is) \<longleftrightarrow> h = i \<and> i < length ar \<and> free_seg ar (nxt (ar ! i)) is"

lemma hd_or_simps [simp]: "hd_or n [] = n" "hd_or n (i # is) = i" "hd_or n (xs @ ys) = hd_or (hd_or n ys) xs"
  by (simp_all add: hd_or_def split: list.split)

lemma last_or_simps [simp]: "last_or p [] = p" "last_or p (i # is) = last_or i is" "last_or p (xs @ ys) = last_or (last_or p xs) ys"
  by (simp_all add: last_or_def)

lemma seg_append: "seg ar p (us @ vs) n \<longleftrightarrow> seg ar p us (hd_or n vs) \<and> seg ar (last_or p us) vs n"
  by (induction us arbitrary: p) auto

lemma length_at [simp]: "length (at ar i f) = length ar"
  by (simp add: at_def)

lemma nth_at: "j < length ar \<Longrightarrow> at ar i f ! j = (if i = j then f (ar ! j) else ar ! j)"
  by (simp add: at_def)

lemma seg_cong:
  "length ar' = length ar \<Longrightarrow> (\<And>i. i \<in> set is \<Longrightarrow> prev (ar' ! i) = prev (ar ! i) \<and> nxt (ar' ! i) = nxt (ar ! i)) \<Longrightarrow>
     seg ar' p is n = seg ar p is n"
  by (induction "is" arbitrary: p) auto

lemma seg_bound: "seg ar p is n \<Longrightarrow> i \<in> set is \<Longrightarrow> i < length ar"
  by (induction "is" arbitrary: p) auto

lemma seg_at_other: "i \<notin> set is \<Longrightarrow> seg (at ar i f) p is n = seg ar p is n"
  by (induction "is" arbitrary: p) (auto simp: nth_at)

lemma free_seg_at_other: "i \<notin> set is \<Longrightarrow> free_seg (at ar i f) h is = free_seg ar h is"
  by (induction "is" arbitrary: h) (simp_all add: nth_at cong: conj_cong)

text \<open>Redirecting the last link and the first lru_back link of a segment.\<close>

lemma seg_set_next:
  assumes "seg ar p us n" and "distinct us" and "us \<noteq> []"
  shows "seg (at ar (last us) (\<lambda>x. x\<lparr>nxt := m\<rparr>)) p us m"
  using assms
proof (induction us arbitrary: p)
  case (Cons i us)
  then show ?case by (cases us) (auto simp: nth_at)
qed simp

lemma seg_set_prev:
  assumes "seg ar p vs n" and "distinct vs" and "vs \<noteq> []"
  shows "seg (at ar (hd vs) (\<lambda>x. x\<lparr>prev := q\<rparr>)) q vs n"
proof (cases vs)
  case (Cons i vs')
  with assms have "seg (at ar i (\<lambda>x. x\<lparr>prev := q\<rparr>)) i vs' n" by (simp add: seg_at_other)
  with assms Cons show ?thesis by (simp add: nth_at)
qed (use assms in simp)

section \<open>The linked list\<close>

definition lru_list :: "'d guard \<Rightarrow> nat list \<Rightarrow> bool" where
  "lru_list g is \<longleftrightarrow> seg (arena g) NIL is NIL \<and> distinct is \<and> length (arena g) \<le> NIL
     \<and> lru_front g = hd_or NIL is \<and> lru_back g = last_or NIL is"

text \<open>What relinking keeps: everything but the links, and the nodes that are not in the list.\<close>

definition relinked :: "'d guard \<Rightarrow> 'd guard \<Rightarrow> nat set \<Rightarrow> bool" where
  "relinked g g' I \<longleftrightarrow> map digest (arena g') = map digest (arena g) \<and> index g' = index g
     \<and> max_tokens g' = max_tokens g \<and> free_head g' = free_head g
     \<and> (\<forall>j < length (arena g). j \<notin> I \<longrightarrow> arena g' ! j = arena g ! j)"

lemma relinked_trans: "relinked g g' I \<Longrightarrow> relinked g' g'' J \<Longrightarrow> relinked g g'' (I \<union> J)"
  unfolding relinked_def by (metis Un_iff length_map)

lemma relinked_length: "relinked g g' I \<Longrightarrow> length (arena g') = length (arena g)"
  unfolding relinked_def by (metis length_map)

lemma relinked_digest: "relinked g g' I \<Longrightarrow> i < length (arena g) \<Longrightarrow> digest (arena g' ! i) = digest (arena g ! i)"
  unfolding relinked_def by (metis length_map nth_map)

lemma digest_at: "(\<And>n. digest (f n) = digest n) \<Longrightarrow> map digest (at ar i f) = map digest ar"
  by (rule nth_equalityI) (auto simp: nth_at)

lemma last_or_eq: "last_or p is \<in> insert p (set is)" "is \<noteq> [] \<Longrightarrow> last_or p is = last is"
  by (auto simp: last_or_def)

lemma hd_or_eq: "hd_or n is \<in> insert n (set is)" "is \<noteq> [] \<Longrightarrow> hd_or n is = hd is"
  by (auto simp: hd_or_def split: list.split)

lemma lru_not_NIL: "lru_list g is \<Longrightarrow> i \<in> set is \<Longrightarrow> i \<noteq> NIL \<and> i < length (arena g)"
  using seg_bound by (fastforce simp: lru_list_def)

lemma unlink_list:
  assumes "lru_list g (us @ i # vs)"
  shows "lru_list (unlink g i) (us @ vs) \<and> relinked g (unlink g i) (set us \<union> set vs)"
proof -
  let ?p = "last_or NIL us" and ?n = "hd_or NIL vs"
  have segs: "seg (arena g) NIL us i" "seg (arena g) i vs NIL" "i < length (arena g)" "prev (arena g ! i) = ?p"
    "nxt (arena g ! i) = ?n" and dist: "distinct us" "distinct vs" "set us \<inter> set vs = {}" "i \<notin> set us" "i \<notin> set vs"
    and ends: "lru_front g = hd_or i us" "lru_back g = last_or i vs" "length (arena g) \<le> NIL"
    using assms by (auto simp: lru_list_def seg_append)
  have nil: "?p = NIL \<longleftrightarrow> us = []" "?n = NIL \<longleftrightarrow> vs = []"
    using lru_not_NIL [OF assms] by (auto simp: last_or_def hd_or_def split: list.splits)
  have apart: "us \<noteq> [] \<Longrightarrow> last us \<notin> set vs" "vs \<noteq> [] \<Longrightarrow> hd vs \<notin> set us"
    using dist(3) last_in_set hd_in_set by blast+
  define g1 where "g1 = (if ?p = NIL then g\<lparr>lru_front := ?n\<rparr> else g\<lparr>arena := at (arena g) ?p (\<lambda>x. x\<lparr>nxt := ?n\<rparr>)\<rparr>)"
  define g2 where "g2 = (if ?n = NIL then g1\<lparr>lru_back := ?p\<rparr> else g1\<lparr>arena := at (arena g1) ?n (\<lambda>x. x\<lparr>prev := ?p\<rparr>)\<rparr>)"
  have g2: "unlink g i = g2" using segs by (simp add: unlink_def get_def g1_def g2_def Let_def)
  have us1: "seg (arena g1) NIL us ?n"
    using seg_set_next [OF segs(1) dist(1), of ?n] nil by (auto simp: g1_def last_or_eq(2))
  have vs1: "seg (arena g1) i vs NIL"
    using segs(2) apart(1) nil by (auto simp: g1_def last_or_def seg_at_other)
  have "seg (arena g2) NIL us ?n"
    using us1 apart(2) nil by (auto simp: g2_def hd_or_eq(2) seg_at_other)
  moreover have "seg (arena g2) ?p vs NIL"
    using vs1 seg_set_prev [OF vs1 dist(2), of ?p] nil by (auto simp: g2_def hd_or_eq(2))
  moreover have "lru_front g2 = hd_or NIL (us @ vs)" "lru_back g2 = last_or NIL (us @ vs)"
    using ends nil by (cases us; cases vs; simp add: g1_def g2_def)+
  moreover have rel: "relinked g g2 (set us \<union> set vs)"
    using nil by (auto simp: relinked_def g1_def g2_def digest_at nth_at last_or_def hd_or_eq(2))
  moreover from rel have "length (arena g2) = length (arena g)" by (rule relinked_length)
  ultimately show ?thesis using dist ends by (auto simp: g2 lru_list_def seg_append)
qed

lemma push_back_list:
  assumes "lru_list g is" and "i \<notin> set is" and "i < length (arena g)"
  shows "lru_list (push_back g i) (is @ [i]) \<and> relinked g (push_back g i) (insert i (set is))"
proof -
  let ?p = "last_or NIL is"
  define ar where "ar = at (arena g) i (\<lambda>n. n\<lparr>prev := ?p, nxt := NIL\<rparr>)"
  have nil: "?p = NIL \<longleftrightarrow> is = []" using lru_not_NIL [OF assms(1)] by (auto simp: last_or_def)
  have seg: "seg ar NIL is NIL" "distinct is" "length (arena g) \<le> NIL" "lru_front g = hd_or NIL is" "lru_back g = ?p"
    using assms by (auto simp: lru_list_def ar_def seg_at_other)
  have node: "prev (ar ! i) = ?p" "nxt (ar ! i) = NIL" using assms(3) by (simp_all add: ar_def nth_at)
  show ?thesis
  proof (cases "is = []")
    case True
    with node seg assms show ?thesis
      by (simp add: push_back_def Let_def lru_list_def relinked_def nth_at digest_at ar_def [symmetric])
  next
    case False
    let ?ar = "at ar (last is) (\<lambda>x. x\<lparr>nxt := i\<rparr>)"
    have push: "push_back g i = g\<lparr>arena := ?ar, lru_back := i\<rparr>"
      using False nil seg(5) by (simp add: push_back_def ar_def last_or_eq(2) Let_def)
    have "seg ?ar NIL is i" using seg_set_next [OF seg(1,2) False] .
    moreover have "last is \<noteq> i" using False assms(2) last_in_set by blast
    then have "seg ?ar (last is) [i] NIL"
      using node assms(3) False by (simp add: ar_def nth_at last_or_eq(2))
    moreover have "relinked g (push_back g i) (insert i (set is))"
      using False by (auto simp: push relinked_def ar_def nth_at digest_at)
    ultimately show ?thesis using False seg assms by (simp add: push lru_list_def seg_append last_or_eq(2) ar_def hd_or_eq(2))
  qed
qed

section \<open>The representation\<close>

definition lru_rel :: "'d guard \<Rightarrow> 'd list \<Rightarrow> nat list \<Rightarrow> nat list \<Rightarrow> bool" where
  "lru_rel g ds is fs \<longleftrightarrow>
     lru_list g is \<and> free_seg (arena g) (free_head g) fs \<and> distinct (is @ fs)
     \<and> length (arena g) = length is + length fs \<and> length (arena g) \<le> max_tokens g \<and> max_tokens g \<le> NIL
     \<and> ds = map (\<lambda>i. digest (arena g ! i)) is \<and> distinct ds
     \<and> distinct (map fst (index g)) \<and> (\<forall>d i. map_of (index g) d = Some i \<longleftrightarrow> i \<in> set is \<and> digest (arena g ! i) = d)"

lemma free_seg_bound: "free_seg ar h fs \<Longrightarrow> i \<in> set fs \<Longrightarrow> i < length ar"
  by (induction fs arbitrary: h) auto

lemma free_seg_cong:
  "length ar' = length ar \<Longrightarrow> (\<And>i. i \<in> set fs \<Longrightarrow> ar' ! i = ar ! i) \<Longrightarrow> free_seg ar' h fs = free_seg ar h fs"
  by (induction fs arbitrary: h) auto

lemma lru_rel_index:
  assumes "lru_rel g ds is fs"
  shows "map_of (index g) d = None \<longleftrightarrow> d \<notin> set ds" and "length (index g) = length ds"
proof -
  have iff: "map_of (index g) d = Some i \<longleftrightarrow> i \<in> set is \<and> digest (arena g ! i) = d" for d i
    using assms by (auto simp: lru_rel_def)
  have ds: "ds = map (\<lambda>i. digest (arena g ! i)) is" "distinct ds" and keys: "distinct (map fst (index g))"
    using assms by (auto simp: lru_rel_def)
  have dom: "dom (map_of (index g)) = set ds" by (auto simp: dom_def iff ds(1))
  then show "map_of (index g) d = None \<longleftrightarrow> d \<notin> set ds" by (metis domIff)
  have "length (index g) = card (fst ` set (index g))" using distinct_card [OF keys] by simp
  also have "\<dots> = length ds" using dom distinct_card [OF ds(2)] by (simp add: dom_map_of_conv_image_fst)
  finally show "length (index g) = length ds" .
qed

text \<open>Relinking changes neither the digests nor the free list.\<close>

lemma lru_rel_relink:
  assumes "lru_rel g ds is fs" and "relinked g g' I" and "I \<inter> set fs = {}" and "lru_list g' js" and "set js = set is"
    and "ds' = map (\<lambda>i. digest (arena g ! i)) js" and "distinct ds'"
  shows "lru_rel g' ds' js fs"
proof -
  have len: "length (arena g') = length (arena g)" by (rule relinked_length [OF assms(2)])
  have free: "free_seg (arena g) (free_head g) fs" and lst: "lru_list g is" using assms(1) by (simp_all add: lru_rel_def)
  have "free_seg (arena g') (free_head g) fs"
    using free assms(2,3) free_seg_bound [OF free] by (subst free_seg_cong [OF len]) (auto simp: relinked_def)
  moreover have "digest (arena g' ! i) = digest (arena g ! i)" if "i \<in> set is" for i
    using relinked_digest [OF assms(2)] lru_not_NIL [OF lst that] by blast
  moreover have js: "distinct js" "distinct is" using assms(4) lst by (simp_all add: lru_list_def)
  moreover have "length js = length is" using distinct_card [OF js(1)] distinct_card [OF js(2)] assms(5) by simp
  ultimately show ?thesis using assms len by (simp add: lru_rel_def relinked_def cong: conj_cong)
qed

lemma hit_refines:
  assumes rel: "lru_rel g ds is fs" and "map_of (index g) d = Some i"
  shows "\<exists>js. lru_rel (move_to_back g i) (remove1 d ds @ [d]) js fs \<and> max_tokens (move_to_back g i) = max_tokens g"
proof -
  have i: "i \<in> set is" "digest (arena g ! i) = d" and lst: "lru_list g is" and ds: "ds = map (\<lambda>i. digest (arena g ! i)) is" "distinct ds"
    and dist: "distinct is" "set is \<inter> set fs = {}"
    using assms by (auto simp: lru_rel_def)
  obtain us vs where is': "is = us @ i # vs" using i(1) split_list by metis
  have rem: "remove1 d ds @ [d] = map (\<lambda>i. digest (arena g ! i)) (us @ vs @ [i])"
    using ds i(2) by (auto simp: is' remove1_append)
  then have dist': "distinct (remove1 d ds @ [d])" using ds(2) i(2) by (auto simp: ds(1) is')
  show ?thesis
  proof (cases "lru_back g = i")
    case True
    then have "last is = i" using lst i(1) by (auto simp: lru_list_def last_or_def)
    then have "vs = []" using dist(1) by (cases vs rule: rev_cases) (auto simp: is')
    then show ?thesis using rel rem True ds(1) by (auto simp: move_to_back_def is')
  next
    case False
    have un: "lru_list (unlink g i) (us @ vs)" "relinked g (unlink g i) (set us \<union> set vs)"
      using unlink_list lst by (auto simp: is')
    have "i < length (arena (unlink g i))" using lru_not_NIL [OF lst i(1)] relinked_length [OF un(2)] by simp
    then have push: "lru_list (push_back (unlink g i) i) (us @ vs @ [i])"
      "relinked (unlink g i) (push_back (unlink g i) i) (insert i (set us \<union> set vs))"
      using push_back_list [OF un(1), of i] dist(1) by (auto simp: is')
    from relinked_trans [OF un(2) push(2)]
    have "relinked g (push_back (unlink g i) i) (set is)" by (auto simp: is' insert_commute)
    with lru_rel_relink [OF rel this dist(2) push(1) _ rem dist'] False show ?thesis
      by (auto simp: move_to_back_def is' relinked_def)
  qed
qed

lemma evict_refines:
  assumes rel: "lru_rel g ds (i # vs) fs"
  shows "lru_rel (evict_lru g) (tl ds) vs (i # fs) \<and> max_tokens (evict_lru g) = max_tokens g"
proof -
  let ?d = "digest (arena g ! i)"
  have lst: "lru_list g ([] @ i # vs)" and fr: "free_seg (arena g) (free_head g) fs" and ds: "ds = ?d # map (\<lambda>i. digest (arena g ! i)) vs" "distinct ds"
    and dist: "i \<notin> set vs" "i \<notin> set fs" "distinct vs" "distinct fs" "set vs \<inter> set fs = {}"
    and len: "length (arena g) = Suc (length vs + length fs)" "length (arena g) \<le> max_tokens g" "max_tokens g \<le> NIL"
    and keys: "distinct (map fst (index g))"
    using rel by (auto simp: lru_rel_def)
  have idx: "map_of (index g) d = Some j \<longleftrightarrow> j \<in> set (i # vs) \<and> digest (arena g ! j) = d" for d j
    using rel by (simp add: lru_rel_def)
  have i: "i \<noteq> NIL" "i < length (arena g)" using lru_not_NIL [OF lst] by auto
  define g1 where "g1 = unlink g i"
  have un: "lru_list g1 vs" "relinked g g1 (set vs)" using unlink_list [OF lst] by (simp_all add: g1_def)
  have len1: "length (arena g1) = length (arena g)" by (rule relinked_length [OF un(2)])
  have front: "lru_front g = i" using lst by (simp add: lru_list_def)
  define ar where "ar = at (arena g1) i (\<lambda>n. n\<lparr>prev := NIL, nxt := free_head g1\<rparr>)"
  have ev: "evict_lru g = g1\<lparr>index := AList.delete ?d (index g1), arena := ar, free_head := i\<rparr>"
    using i len1 front by (simp add: evict_lru_def get_def g1_def [symmetric] free_node_def ar_def)
  have dig: "digest (ar ! j) = digest (arena g ! j)" if "j < length (arena g)" for j
    using that relinked_digest [OF un(2)] len1 by (simp add: ar_def nth_at)
  have bound: "j < length (arena g)" if "j \<in> set vs" for j using lru_not_NIL [OF lst] that by simp
  have fresh: "?d \<notin> (\<lambda>i. digest (arena g ! i)) ` set vs" using ds by simp
  have neq: "digest (arena g ! j) \<noteq> ?d" if "j \<in> set vs" for j
  proof
    assume "digest (arena g ! j) = ?d"
    with fresh imageI [OF that, of "\<lambda>i. digest (arena g ! i)"] show False by simp
  qed
  have "lru_list (evict_lru g) vs" using un(1) dist(1) by (simp add: lru_list_def ev ar_def seg_at_other)
  moreover have "free_seg ar (free_head g) fs"
    unfolding ar_def using fr un(2) dist free_seg_bound [OF fr]
    by (subst free_seg_at_other, simp, subst free_seg_cong [OF len1]) (auto simp: relinked_def)
  then have "free_seg ar i (i # fs)" using i un(2) len1 by (simp add: ar_def nth_at relinked_def)
  moreover have "(map_of (AList.delete ?d (index g))) d = Some j \<longleftrightarrow> j \<in> set vs \<and> digest (ar ! j) = d" for d j
    using neq dig bound by (auto simp: AList.delete_conv' idx)
  moreover have "map (\<lambda>j. digest (ar ! j)) vs = tl ds" using ds(1) dig bound by simp
  ultimately show ?thesis
    using dist len len1 ds(2) keys un(2) by (simp add: lru_rel_def ev relinked_def ar_def [symmetric] AList.distinct_delete distinct_tl) (simp add: ar_def)
qed

lemma seg_extend: "seg ar p is n \<Longrightarrow> seg (ar @ [x]) p is n"
  by (induction "is" arbitrary: p) (auto simp: nth_append)

text \<open>An allocated node is outside the list, whether it is new or comes off the free list.\<close>

definition allocated :: "'d guard \<Rightarrow> 'd guard \<Rightarrow> 'd \<Rightarrow> nat \<Rightarrow> nat list \<Rightarrow> nat list \<Rightarrow> bool" where
  "allocated g g' d i is fs \<longleftrightarrow>
     lru_list g' is \<and> free_seg (arena g') (free_head g') fs \<and> distinct (i # is @ fs) \<and> i < length (arena g')
     \<and> digest (arena g' ! i) = d \<and> (\<forall>j \<in> set is. digest (arena g' ! j) = digest (arena g ! j))
     \<and> length (arena g') = Suc (length is + length fs) \<and> length (arena g') \<le> max_tokens g
     \<and> index g' = index g \<and> max_tokens g' = max_tokens g"

lemma alloc_spec:
  assumes rel: "lru_rel g ds is fs" and room: "length ds < max_tokens g"
  shows "\<exists>i g' fs'. alloc_node g d = (i, g') \<and> allocated g g' d i is fs'"
proof (cases fs)
  case Nil
  let ?n = "\<lparr>digest = d, prev = NIL, nxt = NIL\<rparr>"
  have lst: "lru_list g is" "free_head g = NIL" "length (arena g) = length is" "length is < max_tokens g" "max_tokens g \<le> NIL" "distinct is"
    using rel room Nil by (auto simp: lru_rel_def)
  then have out: "length (arena g) \<notin> set is" "\<forall>j \<in> set is. j < length (arena g)" using lru_not_NIL [OF lst(1)] by blast+
  then have "lru_list (g\<lparr>arena := arena g @ [?n], free_head := NIL\<rparr>) is"
    using lst by (simp add: lru_list_def seg_extend)
  with lst out show ?thesis
    by (intro exI [of _ "length (arena g)"] exI [of _ "g\<lparr>arena := arena g @ [?n], free_head := NIL\<rparr>"] exI [of _ "[]"])
      (auto simp: alloc_node_def allocated_def nth_append)
next
  case (Cons j fs')
  let ?n = "\<lparr>digest = d, prev = NIL, nxt = NIL\<rparr>"
  have lst: "lru_list g is" "free_head g = j" "j < length (arena g)" "free_seg (arena g) (nxt (arena g ! j)) fs'" "distinct (is @ j # fs')"
    "length (arena g) = Suc (length is + length fs')" "length (arena g) \<le> max_tokens g" "max_tokens g \<le> NIL"
    using rel Cons by (auto simp: lru_rel_def)
  have upd: "(arena g)[j := ?n] = at (arena g) j (\<lambda>_. ?n)" using lst(3) by (simp add: at_def)
  have keep: "(arena g)[j := ?n] ! k = arena g ! k" if "k \<in> set is" for k
    using lst(5) that by (cases "k = j") auto
  have alloc: "alloc_node g d = (j, g\<lparr>free_head := nxt (arena g ! j), arena := (arena g)[j := ?n]\<rparr>)"
    using lst by (simp add: alloc_node_def get_def)
  have "lru_list (g\<lparr>free_head := nxt (arena g ! j), arena := (arena g)[j := ?n]\<rparr>) is"
    using lst(1,5) by (simp add: lru_list_def upd seg_at_other)
  moreover have "free_seg ((arena g)[j := ?n]) (nxt (arena g ! j)) fs'" using lst(4,5) by (simp add: upd free_seg_at_other)
  ultimately have "allocated g (g\<lparr>free_head := nxt (arena g ! j), arena := (arena g)[j := ?n]\<rparr>) d j is fs'"
    using lst by (simp add: allocated_def keep)
  with alloc show ?thesis by blast
qed

lemma insert_refines:
  assumes rel: "lru_rel g ds is fs" and room: "length ds < max_tokens g" and new: "d \<notin> set ds"
    and alloc: "alloc_node g d = (i, g2)"
  shows "\<exists>js fs'. lru_rel ((push_back g2 i)\<lparr>index := AList.update d i (index (push_back g2 i))\<rparr>) (ds @ [d]) js fs'
    \<and> max_tokens (push_back g2 i) = max_tokens g"
proof -
  obtain fs' where a: "allocated g g2 d i is fs'" using alloc_spec [OF rel room, of d] alloc by auto
  let ?g = "push_back g2 i"
  have push: "lru_list ?g (is @ [i])" "relinked g2 ?g (insert i (set is))"
    using push_back_list [of g2 "is" i] a by (auto simp: allocated_def)
  have len: "length (arena ?g) = length (arena g2)" by (rule relinked_length [OF push(2)])
  have dig: "digest (arena ?g ! i) = d" "\<forall>j \<in> set is. digest (arena ?g ! j) = digest (arena g ! j)"
    using relinked_digest [OF push(2)] lru_not_NIL [of g2 "is"] a by (auto simp: allocated_def)
  have free: "free_seg (arena g2) (free_head g2) fs'" using a by (simp add: allocated_def)
  have "free_seg (arena ?g) (free_head ?g) fs'"
    using push(2) a free free_seg_bound [OF free]
    by (subst free_seg_cong [OF len]) (auto simp: relinked_def allocated_def)
  moreover have "map_of (AList.update d i (index g)) e = Some j \<longleftrightarrow> j \<in> set (is @ [i]) \<and> digest (arena ?g ! j) = e" for e j
  proof -
    have idx: "map_of (index g) e = Some j \<longleftrightarrow> j \<in> set is \<and> digest (arena g ! j) = e" using rel by (simp add: lru_rel_def)
    have "digest (arena g ! j) \<noteq> d" if "j \<in> set is" using new that rel by (auto simp: lru_rel_def)
    then show ?thesis using idx dig a by (auto simp: AList.update_conv' allocated_def)
  qed
  moreover have "ds @ [d] = map (\<lambda>j. digest (arena ?g ! j)) (is @ [i])" using dig rel by (simp add: lru_rel_def)
  ultimately have "lru_rel (?g\<lparr>index := AList.update d i (index ?g)\<rparr>) (ds @ [d]) (is @ [i]) fs'"
    using a push len rel new by (auto simp: lru_rel_def allocated_def relinked_def lru_list_def AList.distinct_update)
  then show ?thesis using push(2) a by (auto simp: relinked_def allocated_def)
qed

lemma check_refines:
  assumes rel: "lru_rel g ds is fs" and "0 < max_tokens g"
  shows "\<exists>ds' js fs'. lru_check (max_tokens g) ds (hash token) = (fst (check_and_record hash g token), ds')
    \<and> lru_rel (snd (check_and_record hash g token)) ds' js fs'
    \<and> max_tokens (snd (check_and_record hash g token)) = max_tokens g"
proof (cases "map_of (index g) (hash token)")
  case (Some i)
  with hit_refines [OF rel this] lru_rel_index(1) [OF rel, of "hash token"] show ?thesis
    by (auto simp: lru_check_def check_and_record_def)
next
  case None
  then have new: "hash token \<notin> set ds" using lru_rel_index(1) [OF rel] by blast
  let ?g = "if length (index g) \<ge> max_tokens g then evict_lru g else g"
  let ?ds = "if length ds \<ge> max_tokens g then tl ds else ds"
  obtain js fs' where g1: "lru_rel ?g ?ds js fs'" "max_tokens ?g = max_tokens g"
  proof (cases "length ds \<ge> max_tokens g")
    case True
    then have "is \<noteq> []" using rel assms(2) by (auto simp: lru_rel_def)
    then obtain i vs where "is = i # vs" by (cases "is") auto
    with evict_refines [of g ds i vs fs] rel True lru_rel_index(2) [OF rel] that show ?thesis by auto
  qed (use rel lru_rel_index(2) [OF rel] that in auto)
  have "length ds \<le> max_tokens g" using rel by (auto simp: lru_rel_def)
  then have room: "length ?ds < max_tokens ?g" "hash token \<notin> set ?ds"
    using assms(2) g1(2) new by (cases ds; auto)+
  obtain i g2 where alloc: "alloc_node ?g (hash token) = (i, g2)" by fastforce
  from insert_refines [OF g1(1) room alloc] g1(2) new None alloc show ?thesis
    by (auto simp: lru_check_def check_and_record_def Let_def)
qed

section \<open>Sequences of tokens\<close>

fun check_run :: "(bytes \<Rightarrow> 'd) \<Rightarrow> 'd guard \<Rightarrow> bytes list \<Rightarrow> (unit, security_error) result list" where
  "check_run hash g [] = []"
| "check_run hash g (t # ts) = (let (r, g') = check_and_record hash g t in r # check_run hash g' ts)"

fun lru_run :: "nat \<Rightarrow> 'd list \<Rightarrow> 'd list \<Rightarrow> (unit, security_error) result list" where
  "lru_run cap ds [] = []"
| "lru_run cap ds (e # es) = (let (r, ds') = lru_check cap ds e in r # lru_run cap ds' es)"

lemma run_refines:
  "lru_rel g ds is fs \<Longrightarrow> 0 < max_tokens g \<Longrightarrow> check_run hash g ts = lru_run (max_tokens g) ds (map hash ts)"
proof (induction ts arbitrary: g ds "is" fs)
  case (Cons t ts)
  from check_refines [OF Cons.prems, of hash t] obtain ds' js fs' where
    "lru_check (max_tokens g) ds (hash t) = (fst (check_and_record hash g t), ds')"
    "lru_rel (snd (check_and_record hash g t)) ds' js fs'" "max_tokens (snd (check_and_record hash g t)) = max_tokens g"
    by blast
  with Cons show ?case by (simp add: split_beta Let_def)
qed simp

lemma guard_new_rel: "n \<le> NIL \<Longrightarrow> lru_rel (guard_new n) [] [] []"
  by (simp add: lru_rel_def guard_new_def lru_list_def NIL_def max_of_def)

section \<open>How long a token is remembered\<close>

definition remembered :: "'d \<Rightarrow> 'd set \<Rightarrow> 'd list \<Rightarrow> bool" where
  "remembered d S ds \<longleftrightarrow> distinct ds \<and> (\<exists>xs ys. ds = xs @ d # ys \<and> set ys \<subseteq> S)"

lemma rememberedI: "ds = xs @ d # ys \<Longrightarrow> distinct ds \<Longrightarrow> set ys \<subseteq> S \<Longrightarrow> remembered d S ds"
  by (auto simp: remembered_def)

lemma remembered_step:
  assumes "remembered d S ds" and "finite S" and "card (insert e S - {d}) < cap"
  shows "remembered d (insert e S) (snd (lru_check cap ds e))"
proof -
  obtain xs ys where ds: "ds = xs @ d # ys" "set ys \<subseteq> S" "distinct ds" using assms(1) by (auto simp: remembered_def)
  consider "e = d" | "e \<in> set xs" "e \<noteq> d" | "e \<in> set ys" "e \<noteq> d" "e \<notin> set xs" | "e \<notin> set ds" using ds(1) by auto
  then show ?thesis
  proof cases
    case 1
    with ds show ?thesis
      by (intro rememberedI [of _ "xs @ ys" _ "[]"]) (auto simp: lru_check_def remove1_append)
  next
    case 2
    with ds show ?thesis
      by (intro rememberedI [of _ "remove1 e xs" _ "ys @ [e]"]) (auto simp: lru_check_def remove1_append distinct_remove1)
  next
    case 3
    with ds show ?thesis
      by (intro rememberedI [of _ xs _ "remove1 e ys @ [e]"])
        (auto simp: lru_check_def remove1_append distinct_remove1)
  next
    case 4
    have "xs \<noteq> []" if full: "length ds \<ge> cap"
    proof
      assume "xs = []"
      have "insert e (set ys) \<subseteq> insert e S - {d}" using 4 ds by auto
      then have "card (insert e (set ys)) < cap" using assms(2,3) by (meson card_mono finite_Diff finite_insert le_less_trans)
      moreover have "card (insert e (set ys)) = length ds" using 4 ds \<open>xs = []\<close> by (simp add: distinct_card)
      ultimately show False using full by simp
    qed
    then show ?thesis
      using 4 ds by (intro rememberedI [of _ "if length ds \<ge> cap then tl xs else xs" _ "ys @ [e]"])
        (auto simp: lru_check_def distinct_tl dest: list.set_sel(2))
  qed
qed

lemma lru_run_remembers:
  assumes "remembered d S ds" and "finite S" and "card (set es \<union> S - {d}) < cap"
  shows "last (lru_run cap ds (es @ [d])) = Err ZeroRttReplay"
  using assms
proof (induction es arbitrary: ds S)
  case Nil
  then show ?case by (auto simp: remembered_def lru_check_def)
next
  case (Cons e es)
  have "card (insert e S - {d}) < cap"
    using Cons.prems(2,3) by (auto intro: le_less_trans [OF card_mono, rotated 2])
  then have "remembered d (insert e S) (snd (lru_check cap ds e))" using Cons.prems by (intro remembered_step)
  moreover have "set es \<union> insert e S - {d} = set (e # es) \<union> S - {d}" by auto
  ultimately have "last (lru_run cap (snd (lru_check cap ds e)) (es @ [d])) = Err ZeroRttReplay"
    using Cons by simp
  moreover have "lru_run cap ds' (es @ [d]) \<noteq> []" for ds' by (cases es) (simp_all add: split_beta Let_def)
  ultimately show ?case by (simp add: split_beta Let_def)
qed

lemma lru_run_append:
  "lru_run cap ds (xs @ ys) = lru_run cap ds xs @ lru_run cap (foldl (\<lambda>ds e. snd (lru_check cap ds e)) ds xs) ys"
  by (induction xs arbitrary: ds) (simp_all add: split_beta Let_def)

lemma lru_check_distinct: "distinct ds \<Longrightarrow> distinct (snd (lru_check cap ds e))"
  by (auto simp: lru_check_def distinct_tl distinct_remove1 dest: list.set_sel(2) [rotated]) (metis list.set_sel(2) list.sel(2))

lemma lru_after_distinct: "distinct ds \<Longrightarrow> distinct (foldl (\<lambda>ds e. snd (lru_check cap ds e)) ds xs)"
  by (induction xs arbitrary: ds) (simp_all add: lru_check_distinct)

lemma lru_check_remembers: "distinct ds \<Longrightarrow> remembered d {} (snd (lru_check cap ds d))"
  using lru_check_distinct [of ds cap d] by (auto simp: remembered_def lru_check_def)

section \<open>Properties\<close>

text \<open>C19. The linked arena is a least-recently-used list: on every sequence of tokens the guard gives the
  verdicts of the plain list of digests that moves a digest to its end when it is seen and drops its
  first element when it is full. A capacity of zero counts as one.\<close>

theorem zero_rtt_refines_lru:
  assumes "cap \<le> max_of 64"
  shows "check_run hash (guard_new cap) ts = lru_run (max 1 cap) [] (map hash ts)"
  using run_refines [OF guard_new_rel, of cap hash ts] assms by (simp add: guard_new_def NIL_def max_def)

theorem zero_rtt_refines_lru_witness:
  "check_run hd (guard_new 2) [[1], [2], [1], [3], [2]]
    = [Ok (), Ok (), Err ZeroRttReplay, Ok (), Ok ()]"
  using zero_rtt_refines_lru [of 2 hd "[[1], [2], [1], [3], [2]]"]
  by (simp add: lru_check_def max_of_def)

text \<open>C20. Replays within the window are caught: a token presented again is refused unless, since its last
  presentation, at least \<open>cap\<close> other digests have been presented.\<close>

theorem zero_rtt_replay_caught:
  assumes "cap \<le> max_of 64" and "card (hash ` set mid - {hash t}) < cap"
  shows "last (check_run hash (guard_new cap) (pre @ t # mid @ [t])) = Err ZeroRttReplay"
proof -
  let ?ds = "foldl (\<lambda>ds e. snd (lru_check cap ds e)) [] (map hash pre)"
  have cap: "max 1 cap = cap" using assms(2) by simp
  have "remembered (hash t) {} (snd (lru_check cap ?ds (hash t)))"
    by (intro lru_check_remembers lru_after_distinct) simp
  from lru_run_remembers [OF this, of "map hash mid" cap] assms(2)
  have last: "last (lru_run cap (snd (lru_check cap ?ds (hash t))) (map hash mid @ [hash t])) = Err ZeroRttReplay" by simp
  have "lru_run cap ds (map hash mid @ [hash t]) \<noteq> []" for ds by (cases mid) (simp_all add: split_beta Let_def)
  moreover have "check_run hash (guard_new cap) (pre @ t # mid @ [t])
      = lru_run cap [] (map hash pre @ hash t # map hash mid @ [hash t])"
    using run_refines [OF guard_new_rel, of cap hash "pre @ t # mid @ [t]"] assms cap by (simp add: guard_new_def NIL_def)
  ultimately show ?thesis using last by (simp add: lru_run_append split_beta Let_def)
qed

theorem zero_rtt_replay_caught_witness:
  "last (check_run hd (guard_new 2) ([[9]] @ [1] # [[2], [2]] @ [[1]])) = Err ZeroRttReplay"
proof (rule zero_rtt_replay_caught)
  have "hd ` set [[2], [2 :: u8]] - {hd [1]} = {2}" by auto
  then show "card (hd ` set [[2], [2 :: u8]] - {hd [1]}) < 2" by simp
qed (simp add: max_of_def)

end
