(* ===== verification/Smuggle.thy ===== *)
theory Smuggle
  imports Rust_Str Abuse_Guards
begin

text \<open>
  Request-smuggling detection (\<open>lb-security/src/smuggle.rs\<close>): the checks on the headers that frame a
  message body, and the exact meaning of an accepted header list.
\<close>

section \<open>ASCII case\<close>

definition to_ascii_lowercase :: "string \<Rightarrow> string" where
  "to_ascii_lowercase s = map (\<lambda>c. if 65 \<le> (of_char c :: int) \<and> (of_char c :: int) \<le> 90
     then char_of ((of_char c :: int) + 32) else c) s"

definition eq_ignore_ascii_case :: "string \<Rightarrow> string \<Rightarrow> bool" where
  "eq_ignore_ascii_case s t \<longleftrightarrow> to_ascii_lowercase s = to_ascii_lowercase t"

section \<open>The checks\<close>

datatype smuggle_mode = H1 | H1Strict | H2

fun duplicate_cl_loop :: "string option \<Rightarrow> header list \<Rightarrow> (unit, security_error) result" where
  "duplicate_cl_loop first_value [] = Ok ()"
| "duplicate_cl_loop first_value ((name, v) # hs) =
     (if eq_ignore_ascii_case name ''content-length'' then
        case first_value of
          None \<Rightarrow> duplicate_cl_loop (Some (trim v)) hs
        | Some prev \<Rightarrow> if prev \<noteq> trim v then Err SmuggleDuplicateCL else duplicate_cl_loop first_value hs
      else duplicate_cl_loop first_value hs)"

definition check_duplicate_cl :: "header list \<Rightarrow> (unit, security_error) result" where
  "check_duplicate_cl hs = duplicate_cl_loop None hs"

definition check_cl_te :: "header list \<Rightarrow> (unit, security_error) result" where
  "check_cl_te hs =
     (let has_cl = list_ex (\<lambda>(name, _). eq_ignore_ascii_case name ''content-length'') hs;
          has_te = list_ex (\<lambda>(name, _). eq_ignore_ascii_case name ''transfer-encoding'') hs
      in if has_cl \<and> has_te then Err SmuggleCLTE else Ok ())"

fun check_te_cl :: "header list \<Rightarrow> (unit, security_error) result" where
  "check_te_cl [] = Ok ()"
| "check_te_cl ((name, v) # hs) =
     (if eq_ignore_ascii_case name ''transfer-encoding''
         \<and> \<not> eq_ignore_ascii_case (trim (List.last (split_char (CHR '','') v))) ''chunked''
      then Err SmuggleTECL else check_te_cl hs)"

fun codecs_strict :: "string list \<Rightarrow> (unit, security_error) result" where
  "codecs_strict [] = Ok ()"
| "codecs_strict (c # cs) =
     (let codec = trim c in
      if codec = [] then Err SmuggleTECL
      else if \<not> eq_ignore_ascii_case codec ''chunked'' then Err SmuggleTECL
      else codecs_strict cs)"

fun check_te_strict :: "header list \<Rightarrow> (unit, security_error) result" where
  "check_te_strict [] = Ok ()"
| "check_te_strict ((name, v) # hs) =
     (if eq_ignore_ascii_case name ''transfer-encoding''
      then and_then (codecs_strict (split_char (CHR '','') v)) (\<lambda>_. check_te_strict hs)
      else check_te_strict hs)"

definition PROHIBITED :: "string list" where
  "PROHIBITED = [''connection'', ''transfer-encoding'', ''keep-alive'', ''upgrade'', ''proxy-connection'']"

fun h2_downgrade_loop :: "header list \<Rightarrow> (unit, security_error) result" where
  "h2_downgrade_loop [] = Ok ()"
| "h2_downgrade_loop ((name, v) # hs) =
     (let lower = to_ascii_lowercase name in
      if list_ex (\<lambda>p. p = lower) PROHIBITED then Err SmuggleH2Downgrade
      else if lower = ''te'' \<and> \<not> eq_ignore_ascii_case (trim v) ''trailers'' then Err SmuggleH2Downgrade
      else if take 1 lower = '':'' then Err SmuggleH2Downgrade
      else h2_downgrade_loop hs)"

definition check_h2_downgrade :: "header list \<Rightarrow> bool \<Rightarrow> (unit, security_error) result" where
  "check_h2_downgrade hs is_from_h2 = (if \<not> is_from_h2 then Ok () else h2_downgrade_loop hs)"

definition check_all :: "header list \<Rightarrow> bool \<Rightarrow> (unit, security_error) result" where
  "check_all hs is_h2_origin =
     and_then (check_cl_te hs) (\<lambda>_.
     and_then (check_te_cl hs) (\<lambda>_.
     and_then (check_duplicate_cl hs) (\<lambda>_.
     if is_h2_origin then check_h2_downgrade hs True else Ok ())))"

definition check_all_mode :: "header list \<Rightarrow> smuggle_mode \<Rightarrow> (unit, security_error) result" where
  "check_all_mode hs mode =
     and_then (check_cl_te hs) (\<lambda>_.
     and_then (check_te_cl hs) (\<lambda>_.
     and_then (check_duplicate_cl hs) (\<lambda>_.
     case mode of
       H1 \<Rightarrow> Ok ()
     | H1Strict \<Rightarrow> check_te_strict hs
     | H2 \<Rightarrow> check_h2_downgrade hs True)))"

section \<open>What the headers say about the body\<close>

text \<open>Each header that frames a body, read by itself: a recipient that looks at one of them only decides
  on that reading. A message is ambiguous when two of the readings differ.\<close>

datatype framing = Coded string | Length string

fun framings :: "header list \<Rightarrow> framing list" where
  "framings [] = []"
| "framings ((name, v) # hs) =
     (if eq_ignore_ascii_case name ''content-length'' then [Length (trim v)] else [])
     @ (if eq_ignore_ascii_case name ''transfer-encoding''
        then [Coded (to_ascii_lowercase (trim (List.last (split_char (CHR '','') v))))] else [])
     @ framings hs"

definition unambiguous :: "header list \<Rightarrow> bool" where
  "unambiguous hs \<longleftrightarrow> (\<forall>f \<in> set (framings hs). \<forall>g \<in> set (framings hs). f = g)
     \<and> (\<forall>c. Coded c \<in> set (framings hs) \<longrightarrow> c = ''chunked'')"

text \<open>All the transfer codings a header list names, in order.\<close>

fun codings :: "header list \<Rightarrow> string list" where
  "codings [] = []"
| "codings ((name, v) # hs) =
     (if eq_ignore_ascii_case name ''transfer-encoding''
      then map (\<lambda>c. to_ascii_lowercase (trim c)) (split_char (CHR '','') v) else []) @ codings hs"

lemma lower_literals [simp]:
  "to_ascii_lowercase ''content-length'' = ''content-length''"
  "to_ascii_lowercase ''transfer-encoding'' = ''transfer-encoding''"
  "to_ascii_lowercase ''chunked'' = ''chunked''"
  by (simp_all add: to_ascii_lowercase_def)

lemma cl_te_exact:
  "check_cl_te hs = Ok () \<longleftrightarrow> \<not> ((\<exists>n. Length n \<in> set (framings hs)) \<and> (\<exists>c. Coded c \<in> set (framings hs)))"
proof -
  have "list_ex (\<lambda>(name, _). eq_ignore_ascii_case name ''content-length'') hs \<longleftrightarrow> (\<exists>n. Length n \<in> set (framings hs))"
    "list_ex (\<lambda>(name, _). eq_ignore_ascii_case name ''transfer-encoding'') hs \<longleftrightarrow> (\<exists>c. Coded c \<in> set (framings hs))"
    by (induction hs rule: framings.induct) auto
  then show ?thesis by (simp add: check_cl_te_def)
qed

lemma te_cl_exact: "check_te_cl hs = Ok () \<longleftrightarrow> (\<forall>c. Coded c \<in> set (framings hs) \<longrightarrow> c = ''chunked'')"
  by (induction hs rule: framings.induct) (auto simp: eq_ignore_ascii_case_def)

lemma duplicate_cl_exact:
  "duplicate_cl_loop fv hs = Ok () \<longleftrightarrow>
     (\<forall>n m. (fv = Some n \<or> fv = None \<and> Length n \<in> set (framings hs)) \<longrightarrow> Length m \<in> set (framings hs) \<longrightarrow> m = n)"
  by (induction hs arbitrary: fv rule: framings.induct) (auto split: option.splits)

lemma framing_checks:
  "check_cl_te hs = Ok () \<and> check_te_cl hs = Ok () \<and> check_duplicate_cl hs = Ok () \<longleftrightarrow> unambiguous hs"
  unfolding cl_te_exact te_cl_exact check_duplicate_cl_def duplicate_cl_exact unambiguous_def
  by (auto; metis framing.exhaust)

lemma check_all_mode_Ok:
  "check_all_mode hs mode = Ok () \<longleftrightarrow> unambiguous hs \<and>
     (case mode of H1 \<Rightarrow> True | H1Strict \<Rightarrow> check_te_strict hs = Ok () | H2 \<Rightarrow> check_h2_downgrade hs True = Ok ())"
  unfolding framing_checks [symmetric] check_all_mode_def by (auto simp: and_then_Ok split: smuggle_mode.splits)

lemma h2_downgrade_exact:
  "check_h2_downgrade hs True = Ok () \<longleftrightarrow>
     (\<forall>(n, v) \<in> set hs. to_ascii_lowercase n \<notin> set PROHIBITED \<and> take 1 (to_ascii_lowercase n) \<noteq> '':''
        \<and> (to_ascii_lowercase n = ''te'' \<longrightarrow> eq_ignore_ascii_case (trim v) ''trailers''))"
proof -
  have "h2_downgrade_loop hs = Ok () \<longleftrightarrow> (\<forall>(n, v) \<in> set hs. to_ascii_lowercase n \<notin> set PROHIBITED
      \<and> take 1 (to_ascii_lowercase n) \<noteq> '':''
      \<and> (to_ascii_lowercase n = ''te'' \<longrightarrow> eq_ignore_ascii_case (trim v) ''trailers''))"
    by (induction hs rule: h2_downgrade_loop.induct) (auto simp: Let_def list_ex_iff)
  then show ?thesis by (simp add: check_h2_downgrade_def)
qed

lemma te_strict_exact: "check_te_strict hs = Ok () \<longleftrightarrow> set (codings hs) \<subseteq> {''chunked''}"
proof -
  have "codecs_strict cs = Ok () \<longleftrightarrow> (\<forall>c \<in> set cs. to_ascii_lowercase (trim c) = ''chunked'')" for cs
    by (induction cs) (auto simp: Let_def eq_ignore_ascii_case_def to_ascii_lowercase_def)
  then show ?thesis by (induction hs rule: check_te_strict.induct) (auto simp: and_then_Ok)
qed

lemma distinct_singleton: "distinct xs \<Longrightarrow> set xs \<subseteq> {x} \<longleftrightarrow> xs = [] \<or> xs = [x]"
  by (cases xs rule: list.exhaust [case_names Nil Cons]; cases "tl xs") auto

lemma no_coding:
  assumes "\<forall>(n, v) \<in> set hs. to_ascii_lowercase n \<notin> set PROHIBITED"
  shows "Coded c \<notin> set (framings hs)"
  using assms by (induction hs rule: framings.induct) (auto simp: eq_ignore_ascii_case_def PROHIBITED_def)

text \<open>C24. The smuggling checks are exact. In HTTP/1 mode a header list is accepted exactly when all the headers that
  frame the body agree on one reading, which is a chunked body or one content length. Strict mode accepts
  a list that names no transfer coding twice exactly when, in addition, it names none at all or the single
  token \<open>chunked\<close>. HTTP/2 mode accepts, in addition, only without connection headers, leaked
  pseudo-headers and \<open>te\<close> values other than \<open>trailers\<close>, so that there the body is never framed by a
  transfer coding.\<close>

theorem smuggle_exact:
  "(check_all_mode hs H1 = Ok () \<longleftrightarrow> unambiguous hs)
   \<and> (distinct (codings hs) \<longrightarrow>
        (check_all_mode hs H1Strict = Ok () \<longleftrightarrow> unambiguous hs \<and> (codings hs = [] \<or> codings hs = [''chunked''])))
   \<and> (check_all_mode hs H2 = Ok () \<longleftrightarrow> unambiguous hs
        \<and> (\<forall>(n, v) \<in> set hs. to_ascii_lowercase n \<notin> set PROHIBITED \<and> take 1 (to_ascii_lowercase n) \<noteq> '':''
             \<and> (to_ascii_lowercase n = ''te'' \<longrightarrow> eq_ignore_ascii_case (trim v) ''trailers'')))
   \<and> (check_all_mode hs H2 = Ok () \<longrightarrow> Coded c \<notin> set (framings hs))"
  using no_coding [of hs c] distinct_singleton [of "codings hs" "''chunked''"]
  unfolding check_all_mode_Ok te_strict_exact h2_downgrade_exact by auto

theorem smuggle_exact_witness:
  "unambiguous [(''Transfer-Encoding'', ''gzip, Chunked'')]
   \<and> \<not> unambiguous [(''Content-Length'', ''5''), (''content-length'', ''6'')]
   \<and> check_all_mode [(''Transfer-Encoding'', ''gzip, Chunked'')] H1Strict \<noteq> Ok ()
   \<and> Coded ''gzip'' \<notin> set (framings [(''Host'', ''a''), (''TE'', '' trailers'')])"
proof -
  have "check_all_mode [(''Transfer-Encoding'', ''gzip, Chunked'')] H1 = Ok ()"
    "check_all_mode [(''Content-Length'', ''5''), (''content-length'', ''6'')] H1 \<noteq> Ok ()"
    "check_all_mode [(''Host'', ''a''), (''TE'', '' trailers'')] H2 = Ok ()"
    "distinct (codings [(''Transfer-Encoding'', ''gzip, Chunked'')])"
    "\<not> (codings [(''Transfer-Encoding'', ''gzip, Chunked'')] = []
      \<or> codings [(''Transfer-Encoding'', ''gzip, Chunked'')] = [''chunked''])" by code_simp+
  then show ?thesis
    using smuggle_exact [of "[(''Transfer-Encoding'', ''gzip, Chunked'')]"]
      smuggle_exact [of "[(''Content-Length'', ''5''), (''content-length'', ''6'')]"]
      smuggle_exact [of "[(''Host'', ''a''), (''TE'', '' trailers'')]" "''gzip''"] by blast
qed

text \<open>\<open>check_all\<close> is the two modes without strictness.\<close>

lemma check_all_modes: "check_all hs False = check_all_mode hs H1" "check_all hs True = check_all_mode hs H2"
  by (simp_all add: check_all_def check_all_mode_def)

text \<open>Strict mode lets a repeated coding through, although its comment announces the single element
  \<open>chunked\<close> as the only accepted form.\<close>

lemma strict_accepts_repeated_chunked:
  "check_all_mode [(''transfer-encoding'', ''chunked, chunked'')] H1Strict = Ok ()"
  by code_simp

end
