(* ===== verification/Retry.thy ===== *)
theory Retry
  imports Byte_Codec
begin

text \<open>
  Stateless QUIC retry tokens (\<open>lb-security/src/retry.rs\<close>): minting, parsing and verification. The MAC
  is HMAC-SHA256 of the \<open>ring\<close> crate and is the argument \<open>sign\<close>; of it the code relies on the tag
  being 32 bytes long. Instants and durations are nanoseconds. A \<open>SocketAddr\<close> has the fields the
  standard library compares: an IPv6 address also carries a flow label and a scope.
\<close>

section \<open>Tokens\<close>

datatype socket_addr = V4 bytes u16 | V6 bytes u16 u32 u32

definition RETRY_MAX_ODCID :: nat where "RETRY_MAX_ODCID = 255"
definition RETRY_TOKEN_VERSION :: u8 where "RETRY_TOKEN_VERSION = 0x01"
definition MAC_LEN :: nat where "MAC_LEN = 32"
definition DEFAULT_RETRY_MAX_AGE :: nat where "DEFAULT_RETRY_MAX_AGE = 10 * 10 ^ 9"

datatype retry_error =
    Truncated
  | VersionMismatch u8 u8
  | InvalidPeerKind u8
  | InvalidOdcidLen
  | MacMismatch
  | PeerMismatch
  | Expired

record 'k retry_signer =
  key :: 'k
  origin :: nat
  max_age :: nat

definition with_max_age :: "'k retry_signer \<Rightarrow> nat \<Rightarrow> 'k retry_signer" where
  "with_max_age s age = s\<lparr>max_age := age\<rparr>"

fun encode_peer :: "socket_addr \<Rightarrow> bytes" where
  "encode_peer (V4 octets port) = 4 # octets @ to_be_bytes 2 (unat port)"
| "encode_peer (V6 octets port flowinfo scope_id) = 6 # octets @ to_be_bytes 2 (unat port)"

definition decode_peer :: "bytes \<Rightarrow> nat \<Rightarrow> (socket_addr \<times> nat, retry_error) result" where
  "decode_peer body start =
     and_then (ok_or (get body start) Truncated) (\<lambda>kind.
     and_then (if kind = 4 then Ok (4, start + 1) else if kind = 6 then Ok (16, start + 1) else Err (InvalidPeerKind kind))
       (\<lambda>(ip_len, cursor).
     and_then (ok_or (get_range body cursor (cursor + ip_len)) Truncated) (\<lambda>ip_bytes.
     and_then (ok_or (get_range body (cursor + ip_len) (cursor + ip_len + 2)) Truncated) (\<lambda>port_bytes.
     let port = of_nat (from_be_bytes port_bytes)
     in Ok (if kind = 4 then V4 ip_bytes port else V6 ip_bytes port 0 0, cursor + ip_len + 2)))))"

definition mint_at :: "('k \<Rightarrow> bytes \<Rightarrow> bytes) \<Rightarrow> 'k retry_signer \<Rightarrow> socket_addr \<Rightarrow> bytes \<Rightarrow> nat \<Rightarrow> bytes" where
  "mint_at sign s peer odcid now =
     (let truncated_odcid = take (min (length odcid) RETRY_MAX_ODCID) odcid;
          issued_ms = min (as_millis (now - origin s)) (max_of 64);
          token = [RETRY_TOKEN_VERSION] @ to_be_bytes 8 issued_ms @ encode_peer peer
                  @ [of_nat (length truncated_odcid)] @ truncated_odcid
      in token @ sign (key s) token)"

definition verify :: "('k \<Rightarrow> bytes \<Rightarrow> bytes) \<Rightarrow> 'k retry_signer \<Rightarrow> bytes \<Rightarrow> socket_addr \<Rightarrow> nat \<Rightarrow> (bytes, retry_error) result" where
  "verify sign s token peer now =
     (if length token < 1 + 8 + 1 + 4 + 2 + 1 + MAC_LEN then Err Truncated
      else if get token 0 \<noteq> Some RETRY_TOKEN_VERSION then
        Err (VersionMismatch (case get token 0 of Some b \<Rightarrow> b | None \<Rightarrow> 0) RETRY_TOKEN_VERSION)
      else
        let mac_start = length token - MAC_LEN in
        and_then (ok_or (get_range token 0 mac_start) Truncated) (\<lambda>body.
        and_then (ok_or (get_from token mac_start) Truncated) (\<lambda>mac.
        if sign (key s) body \<noteq> mac then Err MacMismatch
        else
        and_then (ok_or (get_range body 1 (1 + 8)) Truncated) (\<lambda>issued_ms_bytes.
        let issued_ms = from_be_bytes issued_ms_bytes in
        and_then (decode_peer body (1 + 8)) (\<lambda>(token_peer, cursor).
        and_then (ok_or (get body cursor) Truncated) (\<lambda>b.
        let odcid_len = unat b in
        and_then (ok_or (get_range body (cursor + 1) (cursor + 1 + odcid_len)) InvalidOdcidLen) (\<lambda>odcid.
        if token_peer \<noteq> peer then Err PeerMismatch
        else if now - (origin s + issued_ms * 1000000) > max_age s then Err Expired
        else Ok odcid)))))))"

section \<open>The layout of a token\<close>

text \<open>Addresses a token can name: the length fits the kind, and flow label and scope are zero, as they are
  not part of the token.\<close>

fun plain_peer :: "socket_addr \<Rightarrow> bool" where
  "plain_peer (V4 octets port) = (length octets = 4)"
| "plain_peer (V6 octets port flowinfo scope_id) = (length octets = 16 \<and> flowinfo = 0 \<and> scope_id = 0)"

definition retry_body :: "nat \<Rightarrow> socket_addr \<Rightarrow> bytes \<Rightarrow> bytes" where
  "retry_body issued_ms peer odcid =
     RETRY_TOKEN_VERSION # to_be_bytes 8 issued_ms @ encode_peer peer @ of_nat (length odcid) # odcid"

lemma to_be_port: "of_nat (from_be_bytes (to_be_bytes 2 (unat port))) = (port :: u16)"
proof -
  have "unat port < 2 ^ LENGTH(16)" by (rule unsigned_less)
  then show ?thesis using from_to_be_bytes [of "unat port" 2] by simp
qed

lemma decode_encode_peer:
  assumes "plain_peer peer"
  shows "decode_peer (pre @ encode_peer peer @ post) (length pre) = Ok (peer, length pre + length (encode_peer peer))"
  using assms
  by (cases peer) (auto simp: decode_peer_def get_def get_range_def nth_append Let_def to_be_port)

lemma drop_split: "length ys = n \<Longrightarrow> take n (drop a xs) = ys \<Longrightarrow> drop a xs = ys @ drop (a + n) xs"
  by (metis add.commute append_take_drop_id drop_drop)

lemma decode_peer_sound:
  assumes "decode_peer body start = Ok (peer, cursor)"
  shows "plain_peer peer \<and> cursor = start + length (encode_peer peer) \<and> cursor \<le> length body
    \<and> drop start body = encode_peer peer @ drop cursor body"
proof -
  from assms obtain kind ip_len ips ports where k: "get body start = Some kind"
    "kind = 4 \<and> ip_len = 4 \<or> kind = 6 \<and> ip_len = 16"
    and ips: "get_range body (start + 1) (start + 1 + ip_len) = Some ips"
    and ports: "get_range body (start + 1 + ip_len) (start + 1 + ip_len + 2) = Some ports"
    and peer: "peer = (if kind = 4 then V4 ips (of_nat (from_be_bytes ports)) else V6 ips (of_nat (from_be_bytes ports)) 0 0)"
    and cur: "cursor = start + 1 + ip_len + 2"
    by (auto simp: decode_peer_def and_then_Ok ok_or_Ok Let_def split: if_splits)
  have len: "length ips = ip_len" "length ports = 2" using ips ports by (auto simp: get_range_eq_Some)
  have "to_be_bytes 2 (unat (of_nat (from_be_bytes ports) :: u16)) = ports"
    using to_from_be_bytes [of ports] from_be_bytes_bound [of ports] len(2) by (simp add: unat_of_nat)
  then have enc: "encode_peer peer = kind # ips @ ports" using peer k(2) by auto
  have "drop start body = kind # drop (start + 1) body"
    using k(1) by (simp add: get_eq_Some Cons_nth_drop_Suc [symmetric])
  also have "drop (start + 1) body = ips @ drop (start + 1 + ip_len) body"
    using drop_split [of ips ip_len "start + 1" body] ips len by (simp add: get_range_eq_Some)
  also have "drop (start + 1 + ip_len) body = ports @ drop cursor body"
    using drop_split [of ports 2 "start + 1 + ip_len" body] ports len cur by (simp add: get_range_eq_Some)
  finally show ?thesis using enc peer k(2) cur len ports by (auto simp: get_range_eq_Some)
qed

section \<open>Verification is exact\<close>

lemma encode_peer_length: "plain_peer peer \<Longrightarrow> 7 \<le> length (encode_peer peer)"
  by (cases peer) auto

lemma split_tag:
  assumes "length tag = n"
  shows "get_range (body @ tag) 0 (length (body @ tag) - n) = Some body"
    and "get_from (body @ tag) (length (body @ tag) - n) = Some tag"
  using assms by (simp_all add: get_range_def get_from_def)

lemma verify_signed:
  assumes mac: "length (sign (key s) (retry_body ms p odcid @ extra)) = MAC_LEN"
    and p: "plain_peer p" and ms: "ms < 2 ^ 64" and odcid: "length odcid \<le> RETRY_MAX_ODCID"
  shows "verify sign s ((retry_body ms p odcid @ extra) @ sign (key s) (retry_body ms p odcid @ extra)) peer now =
    (if p \<noteq> peer then Err PeerMismatch
     else if now - (origin s + ms * 1000000) > max_age s then Err Expired else Ok odcid)"
proof -
  let ?pre = "RETRY_TOKEN_VERSION # to_be_bytes 8 ms"
  let ?mid = "of_nat (length odcid) # odcid @ extra"
  let ?body = "?pre @ encode_peer p @ ?mid"
  let ?n = "length (encode_peer p)"
  have body: "retry_body ms p odcid @ extra = ?body" by (simp add: retry_body_def)
  define tag where "tag = sign (key s) ?body"
  have mac': "length tag = 32" using mac unfolding body tag_def by (simp add: MAC_LEN_def)
  have issued: "get_range ?body 1 (1 + 8) = Some (to_be_bytes 8 ms)" by (simp add: get_range_def)
  have "from_be_bytes (to_be_bytes 8 ms) = ms" using ms by (intro from_to_be_bytes) simp
  moreover have "decode_peer ?body (1 + 8) = Ok (p, 9 + ?n)"
    using decode_encode_peer [OF p, of ?pre ?mid] by simp
  moreover have "get ?body (9 + ?n) = Some (of_nat (length odcid))"
    by (simp add: get_def nth_append)
  moreover have "unat (of_nat (length odcid) :: u8) = length odcid"
    using odcid by (simp add: unat_of_nat RETRY_MAX_ODCID_def)
  moreover have "get_range ?body (9 + ?n + 1) (9 + ?n + 1 + length odcid) = Some odcid"
    using range_append [of "?pre @ encode_peer p @ [of_nat (length odcid)]" odcid extra] by (simp add: ac_simps)
  moreover have "get_range (?body @ tag) 0 (length (?body @ tag) - MAC_LEN) = Some ?body"
    "get_from (?body @ tag) (length (?body @ tag) - MAC_LEN) = Some (tag)"
    using mac' by (simp_all only: split_tag MAC_LEN_def)
  moreover have "\<not> length (?body @ tag) < 1 + 8 + 1 + 4 + 2 + 1 + MAC_LEN"
    "get (?body @ tag) 0 = Some RETRY_TOKEN_VERSION"
    using encode_peer_length [OF p] by (simp_all add: mac' MAC_LEN_def)
  ultimately show ?thesis unfolding body tag_def [symmetric] verify_def Let_def by (simp only: issued tag_def [symmetric] ok_or_simps and_then_simps if_False
      prod.case not_not not_True_eq_False simp_thms)
qed

lemma verify_sound:
  assumes "verify sign s token peer now = Ok odcid"
  obtains ms extra where "ms < 2 ^ 64" and "plain_peer peer" and "length odcid \<le> RETRY_MAX_ODCID"
    and "token = (retry_body ms peer odcid @ extra) @ sign (key s) (retry_body ms peer odcid @ extra)"
    and "now - (origin s + ms * 1000000) \<le> max_age s"
proof -
  let ?m = "length token - MAC_LEN"
  let ?body = "take ?m token"
  from assms obtain iss cursor b where v: "get token 0 = Some RETRY_TOKEN_VERSION" "\<not> length token < 49"
    and mac: "sign (key s) ?body = drop ?m token"
    and issued: "get_range ?body 1 9 = Some iss"
    and dp: "decode_peer ?body 9 = Ok (peer, cursor)"
    and b: "get ?body cursor = Some b"
    and od: "get_range ?body (cursor + 1) (cursor + 1 + unat b) = Some odcid"
    and age: "now - (origin s + from_be_bytes iss * 1000000) \<le> max_age s"
    by (auto simp: verify_def Let_def and_then_Ok ok_or_Ok get_range_eq_Some get_from_Some MAC_LEN_def split: if_splits)
  note peer = decode_peer_sound [OF dp]
  have iss8: "length iss = 8" "length odcid = unat b" using issued od by (auto simp: get_range_eq_Some)
  have be: "to_be_bytes 8 (from_be_bytes iss) = iss" "from_be_bytes iss < 2 ^ 64"
    using to_from_be_bytes [of "iss"] from_be_bytes_bound [of "iss"] iss8(1) by simp_all
  have len: "length odcid \<le> RETRY_MAX_ODCID" unfolding RETRY_MAX_ODCID_def iss8(2) by (rule u8_le)
  have "?body = RETRY_TOKEN_VERSION # drop 1 ?body"
    using v by (cases token) (auto simp: MAC_LEN_def take_Cons' get_def)
  also have "drop 1 ?body = iss @ drop 9 ?body"
    using drop_split [of "iss" 8 1 ?body] issued iss8 by (simp add: get_range_eq_Some)
  also have "drop 9 ?body = encode_peer peer @ drop cursor ?body" using peer by blast
  also have "drop cursor ?body = b # drop (cursor + 1) ?body"
    using b by (simp add: get_eq_Some Cons_nth_drop_Suc [symmetric])
  also have "drop (cursor + 1) ?body = odcid @ drop (cursor + 1 + unat b) ?body"
    using drop_split [of odcid "unat b" "cursor + 1" ?body] od iss8 by (simp add: get_range_eq_Some)
  finally have body: "?body = retry_body (from_be_bytes iss) peer odcid @ drop (cursor + 1 + unat b) ?body"
    using be(1) iss8(2) by (simp add: retry_body_def)
  have "token = ?body @ sign (key s) ?body" unfolding mac by simp
  then show ?thesis using that be(2) peer len age body by metis
qed

lemma mint_body:
  assumes "as_millis (issued - origin s) < 2 ^ 64" and "encode_peer p = encode_peer q"
  shows "mint_at sign s p odcid issued
    = (retry_body (as_millis (issued - origin s)) q (take RETRY_MAX_ODCID odcid) @ [])
      @ sign (key s) (retry_body (as_millis (issued - origin s)) q (take RETRY_MAX_ODCID odcid) @ [])"
proof -
  have "take (min (length odcid) RETRY_MAX_ODCID) odcid = take RETRY_MAX_ODCID odcid" by (simp add: min_def)
  moreover have "min (as_millis (issued - origin s)) (max_of 64) = as_millis (issued - origin s)"
    using assms(1) by (simp add: max_of_def)
  ultimately show ?thesis using assms(2) by (simp add: mint_at_def Let_def retry_body_def)
qed

text \<open>A minted token verifies for the peer it was minted for until its age exceeds \<open>max_age\<close>, and
  gives back the connection id it binds, cut to 255 bytes; presented by any other peer it is refused
  with \<open>PeerMismatch\<close>, and later with \<open>Expired\<close>. Of the MAC only its length is used.\<close>

lemma retry_roundtrip:
  assumes "\<And>b. length (sign (key s) b) = MAC_LEN" and "plain_peer p"
    and "as_millis (issued - origin s) < 2 ^ 64"
  shows "verify sign s (mint_at sign s p odcid issued) peer now =
    (if peer \<noteq> p then Err PeerMismatch
     else if now - (origin s + as_millis (issued - origin s) * 1000000) > max_age s then Err Expired
     else Ok (take RETRY_MAX_ODCID odcid))"
  using verify_signed [of sign s _ p "take RETRY_MAX_ODCID odcid" "[]" peer now] mint_body [of issued s p p] assms
  by auto

lemma retry_roundtrip_witness:
  "verify (\<lambda>k b. replicate 32 k) \<lparr>key = 7, origin = 5, max_age = DEFAULT_RETRY_MAX_AGE\<rparr>
     (mint_at (\<lambda>k b. replicate 32 k) \<lparr>key = 7, origin = 5, max_age = DEFAULT_RETRY_MAX_AGE\<rparr>
        (V4 [127, 0, 0, 1] 4242) [1, 2, 3] 2000005) (V4 [127, 0, 0, 1] 4242) 9000005 = Ok [1, 2, 3]"
  using retry_roundtrip [of "\<lambda>k b. replicate 32 k" "\<lparr>key = 7, origin = 5, max_age = DEFAULT_RETRY_MAX_AGE\<rparr>"
      "V4 [127, 0, 0, 1] 4242" 2000005 "[1, 2, 3]" "V4 [127, 0, 0, 1] 4242" 9000005]
  by (simp add: MAC_LEN_def as_millis_def DEFAULT_RETRY_MAX_AGE_def RETRY_MAX_ODCID_def)

text \<open>C23. Verification accepts nothing else: a token is accepted for a peer and gives a connection id exactly
  when it is a body followed by the body's own MAC under the signer's key, the body names this peer and
  this connection id, and the issue time it names is not older than \<open>max_age\<close>. So acceptance needs a
  valid MAC over the peer, the time and the connection id together.\<close>

theorem retry_accepts_exactly:
  assumes "\<And>b. length (sign (key s) b) = MAC_LEN"
  shows "verify sign s token peer now = Ok odcid \<longleftrightarrow>
    (\<exists>ms extra. ms < 2 ^ 64 \<and> plain_peer peer \<and> length odcid \<le> RETRY_MAX_ODCID
      \<and> token = (retry_body ms peer odcid @ extra) @ sign (key s) (retry_body ms peer odcid @ extra)
      \<and> now - (origin s + ms * 1000000) \<le> max_age s)"
  using verify_sound [of sign s token peer now odcid] verify_signed [of sign s _ peer odcid _ peer now] assms
  by (metis leD)

theorem retry_accepts_exactly_witness:
  "\<exists>ms extra. retry_body 2 (V4 [127, 0, 0, 1] 4242) [1] @ replicate 32 7
     = (retry_body ms (V4 [127, 0, 0, 1] 4242) [1] @ extra) @ replicate 32 7"
proof -
  let ?s = "\<lparr>key = 7, origin = 5, max_age = DEFAULT_RETRY_MAX_AGE\<rparr>"
  have law: "\<And>b. length ((\<lambda>k b. replicate 32 k) (key ?s) b) = MAC_LEN" by (simp add: MAC_LEN_def)
  have "verify (\<lambda>k b. replicate 32 k) ?s (retry_body 2 (V4 [127, 0, 0, 1] 4242) [1] @ replicate 32 7)
      (V4 [127, 0, 0, 1] 4242) 9000005 = Ok [1]"
    using verify_signed [of "\<lambda>k b. replicate 32 k" ?s 2 "V4 [127, 0, 0, 1] 4242" "[1]" "[]" "V4 [127, 0, 0, 1] 4242" 9000005]
    by (simp add: MAC_LEN_def DEFAULT_RETRY_MAX_AGE_def RETRY_MAX_ODCID_def)
  then show ?thesis using retry_accepts_exactly [of "\<lambda>k b. replicate 32 k" ?s, OF law] by auto
qed

text \<open>The token drops the scope of an IPv6 address, and verification compares whole socket addresses: a
  peer with a scope (a link-local address) is refused with its own fresh token.\<close>

lemma scoped_peer_refused:
  assumes "\<And>b. length (sign (key s) b) = MAC_LEN" and "length octets = 16" and "scope_id \<noteq> 0"
    and "as_millis (issued - origin s) < 2 ^ 64"
  shows "verify sign s (mint_at sign s (V6 octets port flowinfo scope_id) odcid issued) (V6 octets port flowinfo scope_id) now
    = Err PeerMismatch"
  using verify_signed [of sign s _ "V6 octets port 0 0" "take RETRY_MAX_ODCID odcid" "[]" "V6 octets port flowinfo scope_id" now]
    mint_body [of issued s "V6 octets port flowinfo scope_id" "V6 octets port 0 0"] assms
  by auto

end
