(* ===== verification/Checksum.thy ===== *)
theory Checksum
  imports Byte_Codec
begin

text \<open>
  The Internet checksum as the L4 data plane computes it: the incremental updates of RFC 1624
  (\<open>lb-l4-xdp/ebpf/src/main.rs\<close>) and the full sum of the simulation (\<open>lb-l4-xdp/src/sim.rs\<close>). Sums
  are taken modulo 65535; zero and 65535 are told apart by the sum being nonzero.
\<close>

section \<open>The code\<close>

definition fold_once :: "u32 \<Rightarrow> u32" where
  "fold_once acc = (acc AND 0xFFFF) + drop_bit 16 acc"

definition fold32 :: "u32 \<Rightarrow> u16" where
  "fold32 acc = ucast (fold_once (fold_once acc))"

definition csum16_update :: "u16 \<Rightarrow> u16 \<Rightarrow> u16 \<Rightarrow> u16" where
  "csum16_update old_csum old_field new_field =
     (let acc = ucast (NOT old_csum) + ucast (NOT old_field) + ucast new_field in NOT (fold32 acc))"

definition csum16_update_u32 :: "u16 \<Rightarrow> u32 \<Rightarrow> u32 \<Rightarrow> u16" where
  "csum16_update_u32 old_csum old_field new_field =
     (let c1 = csum16_update old_csum (ucast (drop_bit 16 old_field)) (ucast (drop_bit 16 new_field))
      in csum16_update c1 (ucast old_field) (ucast new_field))"

text \<open>The loop over the eight lanes of an IPv6 address, two bytes at a time.\<close>

fun csum16_update_v6 :: "u16 \<Rightarrow> bytes \<Rightarrow> bytes \<Rightarrow> u16" where
  "csum16_update_v6 c (o1 # o2 # os) (n1 # n2 # ns) =
     csum16_update_v6 (csum16_update c (be_u16 o1 o2) (be_u16 n1 n2)) os ns"
| "csum16_update_v6 c os ns = c"

fun sum_words :: "bytes \<Rightarrow> u32 \<Rightarrow> u32" where
  "sum_words (hi # lo # bs) s = sum_words bs (s + ucast (be_u16 hi lo))"
| "sum_words [b] s = s + push_bit 8 (ucast b)"
| "sum_words [] s = s"

definition full_checksum :: "bytes \<Rightarrow> u16" where
  "full_checksum bs = NOT (fold32 (sum_words bs 0))"

section \<open>Folding\<close>

lemma fold_bound: "n < 2 ^ 32 \<Longrightarrow> n mod 65536 + n div 65536 \<le> (131070 :: nat)"
  by simp

lemma fold_again:
  assumes "n \<le> 131070"
  shows "n mod 65536 + n div 65536 \<le> (65535 :: nat)"
proof (cases "n < 65536")
  case False
  then obtain r where "n = 65536 + r" by (metis le_Suc_ex not_less)
  with assms show ?thesis by simp
qed simp

lemma fold_zero: "n mod 65536 + n div 65536 = 0 \<longleftrightarrow> n = (0 :: nat)"
  using div_mult_mod_eq [of n 65536] by auto

lemma unat_fold_once: "unat (fold_once s) = unat s mod 65536 + unat s div 65536"
proof -
  have s: "unat s < 2 ^ LENGTH(32)" by (rule unsigned_less)
  have m: "unat (s AND 0xFFFF) = unat s mod 65536"
  proof -
    have "s AND 0xFFFF = take_bit 16 s" by (simp add: take_bit_eq_mask mask_eq_exp_minus_1)
    then show ?thesis by (simp only: unsigned_take_bit_eq) (simp add: take_bit_eq_mod)
  qed
  have d: "unat (drop_bit 16 s) = unat s div 65536"
    by (simp add: drop_bit_eq_div unat_div_distrib)
  have "unat s mod 65536 + unat s div 65536 < 2 ^ 32"
    by (rule order.strict_trans1 [OF fold_bound]) (use s in simp_all)
  then show ?thesis unfolding fold_once_def by (subst unat_word_ariths) (simp add: m d)
qed

lemma fold_mod: "(n mod 65536 + n div 65536) mod 65535 = n mod (65535 :: nat)"
proof -
  have "n = n mod 65536 + n div 65536 + 65535 * (n div 65536)" by simp
  then show ?thesis by (metis mod_mult_self2)
qed

lemma unat_fold32:
  shows "unat (fold32 s) mod 65535 = unat s mod 65535" and "fold32 s = 0 \<longleftrightarrow> s = 0" and "unat (fold32 s) \<le> 65535"
proof -
  define a b where "a = unat (fold_once s)" and "b = unat (fold_once (fold_once s))"
  have s: "unat s < 2 ^ LENGTH(32)" by (rule unsigned_less)
  have a: "a = unat s mod 65536 + unat s div 65536" by (simp add: a_def unat_fold_once)
  have b: "b = a mod 65536 + a div 65536" by (simp add: b_def a_def unat_fold_once)
  have al: "a \<le> 131070" unfolding a using fold_bound [of "unat s"] s by simp
  have bl: "b \<le> 65535" unfolding b using al by (rule fold_again)
  have f: "unat (fold32 s) = b"
    unfolding fold32_def b_def [symmetric] using bl by (simp add: unsigned_ucast_eq b_def take_bit_nat_eq_self)
  show "unat (fold32 s) \<le> 65535" using bl f by simp
  show "unat (fold32 s) mod 65535 = unat s mod 65535" unfolding f b a by (simp only: fold_mod)
  have "b = 0 \<longleftrightarrow> unat s = 0" unfolding b a by (simp only: fold_zero)
  then show "fold32 s = 0 \<longleftrightarrow> s = 0" using f by (metis unat_eq_zero)
qed

section \<open>Incremental updates\<close>

lemma unat_not16: "unat (NOT (x :: u16)) = 65535 - unat x"
proof -
  have "NOT x = - 1 - x" by (simp add: not_eq_complement)
  moreover have "unat (- 1 - x) = unat (- 1 :: u16) - unat x" by (rule unat_sub) simp
  moreover have "unat (- 1 :: u16) = 65535" by (simp add: unsigned_minus_1_eq_mask mask_eq_exp_minus_1)
  ultimately show ?thesis by simp
qed

lemma u16_le: "unat (x :: u16) \<le> 65535"
proof -
  have "unat x < Suc 65535" by (rule order.strict_trans2 [OF unsigned_less]) simp
  then show ?thesis by (simp only: less_Suc_eq_le)
qed

lemma csum16_update_mod:
  "(unat (csum16_update c m m') + unat m') mod 65535 = (unat c + unat m) mod 65535"
proof -
  define a where "a = ucast (NOT c) + ucast (NOT m) + (ucast m' :: u32)"
  have a: "unat a = (65535 - unat c) + (65535 - unat m) + unat m'"
    using u16_le [of m'] by (simp add: a_def unat_word_ariths unat_not16 unsigned_ucast_eq take_bit_nat_eq_self)
  define f where "f = unat (fold32 a)"
  have f: "f mod 65535 = unat a mod 65535" "f \<le> 65535" using unat_fold32 by (simp_all add: f_def)
  have u: "unat (csum16_update c m m') = 65535 - f" by (simp add: csum16_update_def a_def f_def unat_not16 Let_def)
  obtain x y z where xyz: "unat c = x" "unat m = y" "unat m' = z" "x \<le> 65535" "y \<le> 65535" "z \<le> 65535"
    using u16_le [of c] u16_le [of m] u16_le [of m'] by blast
  from f(1) obtain p q where "f + 65535 * p = (65535 - x) + (65535 - y) + z + 65535 * q"
    unfolding a xyz nat_mod_eq_iff by blast
  then have "65535 - f + z + 65535 * (q + 1) = x + y + 65535 * p" using xyz f(2) by simp
  then have "(65535 - f + z) mod 65535 = (x + y) mod 65535" unfolding nat_mod_eq_iff by blast
  then show ?thesis by (simp add: u xyz)
qed

fun word_sum :: "bytes \<Rightarrow> nat" where
  "word_sum (hi # lo # bs) = unat (be_u16 hi lo) + word_sum bs"
| "word_sum [b] = 256 * unat b"
| "word_sum [] = 0"

lemma mod_chain:
  assumes "(b + y) mod k = (a + x) mod (k :: nat)" and "(c + y') mod k = (b + x') mod k"
  shows "(c + (y + y')) mod k = (a + (x + x')) mod k"
proof -
  have "(c + (y + y')) mod k = ((c + y') mod k + y) mod k" by (simp add: mod_simps ac_simps)
  also have "\<dots> = ((b + y) mod k + x') mod k" unfolding assms(2) by (simp add: mod_simps ac_simps)
  also have "\<dots> = (a + (x + x')) mod k" unfolding assms(1) by (simp add: mod_simps ac_simps)
  finally show ?thesis .
qed

lemma csum16_update_u32_mod:
  "(unat (csum16_update_u32 c m m') + word_sum (put_u32 m')) mod 65535 = (unat c + word_sum (put_u32 m)) mod 65535"
proof -
  have halves: "word_sum (put_u32 v) = unat (ucast (drop_bit 16 v) :: u16) + unat (ucast v :: u16)" for v
  proof -
    have "be_u16 (ucast (drop_bit 24 v)) (ucast (drop_bit 16 v)) = ucast (drop_bit 16 v)"
      "be_u16 (ucast (drop_bit 8 v)) (ucast v) = ucast v"
      unfolding be_u16_def by (rule bit_word_eqI; auto simp: bit_simps)+
    then show ?thesis by (simp add: put_u32_def)
  qed
  define c1 where "c1 = csum16_update c (ucast (drop_bit 16 m)) (ucast (drop_bit 16 m'))"
  have 1: "(unat c1 + unat (ucast (drop_bit 16 m') :: u16)) mod 65535 = (unat c + unat (ucast (drop_bit 16 m) :: u16)) mod 65535"
    unfolding c1_def by (rule csum16_update_mod)
  have 2: "(unat (csum16_update_u32 c m m') + unat (ucast m' :: u16)) mod 65535 = (unat c1 + unat (ucast m :: u16)) mod 65535"
    unfolding csum16_update_u32_def Let_def c1_def by (rule csum16_update_mod)
  show ?thesis unfolding halves by (rule mod_chain [OF 1 2])
qed

lemma csum16_update_v6_mod:
  assumes "length os = length ns" and "even (length os)"
  shows "(unat (csum16_update_v6 c os ns) + word_sum ns) mod 65535 = (unat c + word_sum os) mod 65535"
  using assms
proof (induction c os ns rule: csum16_update_v6.induct)
  case (1 c o1 o2 os n1 n2 ns)
  then have "(unat (csum16_update_v6 (csum16_update c (be_u16 o1 o2) (be_u16 n1 n2)) os ns) + word_sum ns) mod 65535
      = (unat (csum16_update c (be_u16 o1 o2) (be_u16 n1 n2)) + word_sum os) mod 65535" by simp
  from mod_chain [OF csum16_update_mod this] show ?case by simp
qed auto

section \<open>The full sum\<close>

lemma word_sum_append: "even (length xs) \<Longrightarrow> word_sum (xs @ ys) = word_sum xs + word_sum ys"
  by (induction xs rule: word_sum.induct) auto

lemma sum_words_unat: "unat s + word_sum bs < 2 ^ 32 \<Longrightarrow> unat (sum_words bs s) = unat s + word_sum bs"
proof (induction bs s rule: sum_words.induct)
  case (1 hi lo bs s)
  then have "unat (s + ucast (be_u16 hi lo)) = unat s + unat (be_u16 hi lo)"
    using u16_le [of "be_u16 hi lo"] by (simp add: unat_word_ariths unsigned_ucast_eq take_bit_nat_eq_self)
  with 1 show ?case by simp
next
  case (2 b s)
  have "unat (ucast b :: u32) = unat b" by (simp add: unsigned_ucast_eq take_bit_nat_eq_self le_less_trans [OF u8_le])
  moreover have "unat b * 256 < 2 ^ 32" using u8_le [of b] by simp
  ultimately have "unat (push_bit 8 (ucast b) :: u32) = 256 * unat b"
    by (simp add: push_bit_eq_mult unat_word_ariths)
  with 2 show ?case by (simp add: unat_word_ariths)
qed simp

lemma full_checksum_valid:
  assumes "word_sum bs < 2 ^ 32"
  shows "full_checksum bs = 0 \<longleftrightarrow> word_sum bs mod 65535 = 0 \<and> word_sum bs \<noteq> 0"
proof -
  define f where "f = fold32 (sum_words bs 0)"
  have s: "unat (sum_words bs 0) = word_sum bs" using sum_words_unat [of 0 bs] assms by simp
  have f: "unat f mod 65535 = word_sum bs mod 65535" "f = 0 \<longleftrightarrow> word_sum bs = 0" "unat f \<le> 65535"
    using unat_fold32 [of "sum_words bs 0"] s by (auto simp: f_def unat_eq_zero)
  have "full_checksum bs = 0 \<longleftrightarrow> unat (NOT f) = 0" unfolding full_checksum_def f_def [symmetric] by (rule unat_eq_zero [symmetric])
  also have "\<dots> \<longleftrightarrow> unat f = 65535" using f(3) by (simp add: unat_not16)
  also have "\<dots> \<longleftrightarrow> unat f mod 65535 = 0 \<and> unat f \<noteq> 0"
  proof
    assume "unat f mod 65535 = 0 \<and> unat f \<noteq> 0"
    with f(3) show "unat f = 65535" by (metis le_neq_implies_less mod_less)
  qed simp
  finally show ?thesis using f by (simp add: unat_eq_zero)
qed

text \<open>Replacing the checksum field and other fields of a message in step keeps the message valid: what matters is
  the sum modulo 65535.\<close>

lemma valid_preserved:
  assumes "full_checksum bs = 0" and "word_sum bs < 2 ^ 32" and "word_sum bs' < 2 ^ 32" and "word_sum bs' \<noteq> 0"
    and "word_sum bs' mod 65535 = word_sum bs mod 65535"
  shows "full_checksum bs' = 0"
  using full_checksum_valid assms by simp

lemma word_sum_bound: "word_sum bs \<le> 65535 * ((length bs + 1) div 2)"
proof (induction bs rule: word_sum.induct)
  case (1 hi lo bs)
  then show ?case using u16_le [of "be_u16 hi lo"] by simp
next
  case (2 b)
  show ?case using u8_le [of b] by simp
qed simp

lemma word_sum_small: "length bs \<le> 131000 \<Longrightarrow> word_sum bs < 2 ^ 32"
  using word_sum_bound [of bs] by simp

end
