(* ===== verification/Xdp.thy ===== *)
theory Xdp
  imports Checksum
begin

text \<open>
  The XDP program (\<open>lb-l4-xdp/ebpf/src/main.rs\<close>): parsing, the deny list, connection tracking, the new-flow rate
  cap, and the rewrite of a packet with its checksums. A packet is the list of its bytes; a field in network
  byte order is the list of its bytes, so \<open>from_be\<close> reads and \<open>to_be\<close> writes it big-endian
  (\<open>swap_bytes\<close> is the same on the little-endian BPF target). The kernel's maps are fields of the
  state: a lookup in the longest-prefix-match trie is the value of \<open>acl_deny\<close>, insertion and eviction of
  connections belong to user space and the kernel. The read of the backend table on a miss has no effect and is left out.
\<close>

section \<open>Maps\<close>

definition ETH_P_IP :: u16 where "ETH_P_IP = 0x0800"
definition ETH_P_IPV6 :: u16 where "ETH_P_IPV6 = 0x86DD"
definition ETH_P_8021Q :: u16 where "ETH_P_8021Q = 0x8100"
definition IPPROTO_TCP :: u8 where "IPPROTO_TCP = 6"
definition IPPROTO_UDP :: u8 where "IPPROTO_UDP = 17"
definition IPPROTO_HOPOPTS :: u8 where "IPPROTO_HOPOPTS = 0"
definition IPPROTO_ROUTING :: u8 where "IPPROTO_ROUTING = 43"
definition IPPROTO_FRAGMENT :: u8 where "IPPROTO_FRAGMENT = 44"
definition ETH_HDR_LEN :: nat where "ETH_HDR_LEN = 14"
definition VLAN_HDR_LEN :: nat where "VLAN_HDR_LEN = 4"
definition IPV6_HDR_LEN :: nat where "IPV6_HDR_LEN = 40"
definition TCP_FLAG_FIN :: u8 where "TCP_FLAG_FIN = 0x01"
definition TCP_FLAG_RST :: u8 where "TCP_FLAG_RST = 0x04"
definition TCP_FLAG_ACK :: u8 where "TCP_FLAG_ACK = 0x10"

lemmas xdp_consts = ETH_P_IP_def ETH_P_IPV6_def ETH_P_8021Q_def IPPROTO_TCP_def IPPROTO_UDP_def IPPROTO_HOPOPTS_def
  IPPROTO_ROUTING_def IPPROTO_FRAGMENT_def ETH_HDR_LEN_def VLAN_HDR_LEN_def IPV6_HDR_LEN_def
  TCP_FLAG_FIN_def TCP_FLAG_RST_def TCP_FLAG_ACK_def

record xdp_flow_key =
  xk_src_addr :: bytes
  xk_dst_addr :: bytes
  xk_src_port :: bytes
  xk_dst_port :: bytes
  xk_protocol :: u8

record xdp_entry =
  xe_backend_idx :: u32
  xe_backend_ip :: bytes
  xe_backend_port :: bytes
  xe_backend_mac :: bytes
  xe_src_mac :: bytes

datatype stat =
    STAT_PASS | STAT_DROP | STAT_CT_HIT_V4 | STAT_L7 | STAT_PARSE_FAIL | STAT_TX_V4 | STAT_CT_HIT_V6 | STAT_TX_V6 | STAT_VLAN
  | STAT_V6_EXT_UNSUPPORTED | STAT_BACKEND_UNPOPULATED | STAT_V4_FRAGMENT | STAT_V6_FRAGMENT | STAT_CT_RST_PRUNE
  | STAT_CT_FIN_PRUNE | STAT_NEW_FLOW_RATE_CAP

record flow_window =
  window_start_ns :: u64
  flows_this_window :: nat

record xdp_maps =
  conntrack :: "xdp_flow_key \<rightharpoonup> xdp_entry"
  conntrack_v6 :: "xdp_flow_key \<rightharpoonup> xdp_entry"
  l7_ports :: "u16 \<rightharpoonup> u8"
  acl_deny :: "bytes \<rightharpoonup> u32"
  stats :: "stat \<Rightarrow> u64"
  new_flow_rate :: "flow_window option"
  new_flow_cap_cfg :: "nat option"

definition DEFAULT_NEW_FLOW_CAP_PER_CPU :: nat where "DEFAULT_NEW_FLOW_CAP_PER_CPU = 125000"
definition RATE_WINDOW_NS :: u64 where "RATE_WINDOW_NS = 1000000000"

definition incr_stat :: "stat \<Rightarrow> xdp_maps \<Rightarrow> xdp_maps" where
  "incr_stat i m = m\<lparr>stats := (stats m)(i := stats m i + 1)\<rparr>"

definition is_under_flood :: "u64 \<Rightarrow> xdp_maps \<Rightarrow> bool \<times> xdp_maps" where
  "is_under_flood now m =
     (let cap = (case new_flow_cap_cfg m of Some c \<Rightarrow> c | None \<Rightarrow> DEFAULT_NEW_FLOW_CAP_PER_CPU) in
      if cap = 0 then (False, m)
      else case new_flow_rate m of
        None \<Rightarrow> (False, m)
      | Some w \<Rightarrow>
          let w1 = (if now - window_start_ns w > RATE_WINDOW_NS
                    then w\<lparr>window_start_ns := now, flows_this_window := 0\<rparr> else w);
              w2 = w1\<lparr>flows_this_window := saturating_add 32 (flows_this_window w1) 1\<rparr>
          in (flows_this_window w2 > cap, m\<lparr>new_flow_rate := Some w2\<rparr>))"

section \<open>Packet access\<close>

text \<open>\<open>ptr_at pkt off len\<close> is the bounds check of \<open>ptr_at\<close> and \<open>ptr_at_mut\<close> for a header of \<open>len\<close>
  bytes; \<open>rd\<close> and \<open>wr\<close> read and write a field inside a checked header.\<close>

definition ptr_at :: "bytes \<Rightarrow> nat \<Rightarrow> nat \<Rightarrow> bool" where
  "ptr_at pkt off len \<longleftrightarrow> off + len \<le> length pkt"

definition rd :: "bytes \<Rightarrow> nat \<Rightarrow> nat \<Rightarrow> bytes" where
  "rd pkt off n = take n (drop off pkt)"

definition wr :: "bytes \<Rightarrow> nat \<Rightarrow> bytes \<Rightarrow> bytes" where
  "wr pkt off bs = take off pkt @ bs @ drop (off + length bs) pkt"

definition rd8 :: "bytes \<Rightarrow> nat \<Rightarrow> u8" where
  "rd8 pkt off = pkt ! off"

definition be16 :: "bytes \<Rightarrow> u16" where
  "be16 bs = be_u16 (bs ! 0) (bs ! 1)"

definition be32 :: "bytes \<Rightarrow> u32" where
  "be32 bs = be_u32 (bs ! 0) (bs ! 1) (bs ! 2) (bs ! 3)"

section \<open>Rewriting\<close>

text \<open>The rewrite of port and checksum behind the IP header; \<open>upd\<close> updates the checksum for the new address
  in the pseudo header. The result is \<^const>\<open>False\<close> where the code returns \<open>Err\<close>.\<close>

definition rewrite_l4 :: "bytes \<Rightarrow> nat \<Rightarrow> u8 \<Rightarrow> (u16 \<Rightarrow> u16) \<Rightarrow> bytes \<Rightarrow> bool \<times> bytes" where
  "rewrite_l4 pkt l4_offset protocol upd port =
     (if protocol = IPPROTO_TCP then
        if \<not> ptr_at pkt l4_offset 20 then (False, pkt)
        else
          let old_dst_port = rd pkt (l4_offset + 2) 2;
              c = csum16_update (upd (be16 (rd pkt (l4_offset + 16) 2))) (be16 old_dst_port) (be16 port)
          in (True, wr (wr pkt (l4_offset + 2) port) (l4_offset + 16) (put_u16 c))
      else if protocol = IPPROTO_UDP then
        if \<not> ptr_at pkt l4_offset 8 then (False, pkt)
        else
          let old_dst_port = rd pkt (l4_offset + 2) 2;
              old_check = rd pkt (l4_offset + 6) 2;
              p = (if be16 old_check \<noteq> 0
                   then wr pkt (l4_offset + 6) (put_u16 (csum16_update (upd (be16 old_check)) (be16 old_dst_port) (be16 port)))
                   else pkt)
          in (True, wr p (l4_offset + 2) port)
      else (False, pkt))"

definition rewrite_mac :: "bytes \<Rightarrow> xdp_entry \<Rightarrow> bytes" where
  "rewrite_mac pkt entry = wr (wr pkt 0 (xe_backend_mac entry)) 6 (xe_src_mac entry)"

definition rewrite_v4 :: "bytes \<Rightarrow> nat \<Rightarrow> nat \<Rightarrow> u8 \<Rightarrow> bytes \<Rightarrow> xdp_entry \<Rightarrow> bool \<times> bytes" where
  "rewrite_v4 pkt l3_offset ip_hdr_len protocol old_dst_ip entry =
     (if \<not> ptr_at pkt 0 14 then (False, pkt)
      else
        let p1 = rewrite_mac pkt entry in
        if \<not> ptr_at p1 l3_offset 20 then (False, p1)
        else
          let upd = (\<lambda>c. csum16_update_u32 c (be32 old_dst_ip) (be32 (xe_backend_ip entry)));
              new_check = upd (be16 (rd p1 (l3_offset + 10) 2));
              p2 = wr (wr p1 (l3_offset + 16) (xe_backend_ip entry)) (l3_offset + 10) (put_u16 new_check)
          in rewrite_l4 p2 (l3_offset + ip_hdr_len) protocol upd (xe_backend_port entry))"

definition rewrite_v6 :: "bytes \<Rightarrow> nat \<Rightarrow> nat \<Rightarrow> u8 \<Rightarrow> bytes \<Rightarrow> xdp_entry \<Rightarrow> bool \<times> bytes" where
  "rewrite_v6 pkt l3_offset l4_offset protocol old_dst_ip entry =
     (if \<not> ptr_at pkt 0 14 then (False, pkt)
      else
        let p1 = rewrite_mac pkt entry in
        if \<not> ptr_at p1 l3_offset 40 then (False, p1)
        else
          let p2 = wr p1 (l3_offset + 24) (xe_backend_ip entry)
          in rewrite_l4 p2 l4_offset protocol
               (\<lambda>c. csum16_update_v6 c old_dst_ip (xe_backend_ip entry)) (xe_backend_port entry))"

section \<open>The program\<close>

datatype xdp_action = XDP_PASS | XDP_DROP | XDP_TX

type_synonym xdp_result = "xdp_action option \<times> xdp_maps \<times> bytes"

text \<open>Ports and TCP flags: \<open>Err\<close> is a truncated header, \<open>Ok None\<close> a protocol that is not handled.\<close>

definition parse_l4 :: "bytes \<Rightarrow> nat \<Rightarrow> u8 \<Rightarrow> ((u16 \<times> u16 \<times> u8) option, unit) result" where
  "parse_l4 pkt l4_offset protocol =
     (if protocol = IPPROTO_TCP then
        if ptr_at pkt l4_offset 16
        then Ok (Some (be16 (rd pkt l4_offset 2), be16 (rd pkt (l4_offset + 2) 2), rd8 pkt (l4_offset + 13)))
        else Err ()
      else if protocol = IPPROTO_UDP then
        if ptr_at pkt l4_offset 8
        then Ok (Some (be16 (rd pkt l4_offset 2), be16 (rd pkt (l4_offset + 2) 2), 0))
        else Err ()
      else Ok None)"

definition handle_ipv4 :: "u64 \<Rightarrow> xdp_maps \<Rightarrow> bytes \<Rightarrow> nat \<Rightarrow> xdp_result" where
  "handle_ipv4 now m pkt l3_offset =
     (if \<not> ptr_at pkt l3_offset 20 then (None, m, pkt) else
      let ihl_words = unat (rd8 pkt l3_offset AND 0x0F) in
      if ihl_words < 5 then (None, m, pkt) else
      let ip_hdr_len = ihl_words * 4;
          protocol = rd8 pkt (l3_offset + 9);
          src_addr = rd pkt (l3_offset + 12) 4;
          dst_addr = rd pkt (l3_offset + 16) 4;
          frag_off = be16 (rd pkt (l3_offset + 6) 2)
      in
      if frag_off AND 0x3FFF \<noteq> 0 then (Some XDP_PASS, incr_stat STAT_V4_FRAGMENT m, pkt)
      else if acl_deny m src_addr \<noteq> None then (Some XDP_DROP, incr_stat STAT_DROP m, pkt)
      else
      case parse_l4 pkt (l3_offset + ip_hdr_len) protocol of
        Inl _ \<Rightarrow> (None, m, pkt)
      | Inr None \<Rightarrow> (Some XDP_PASS, incr_stat STAT_PASS m, pkt)
      | Inr (Some (src_port, dst_port, tcp_flags)) \<Rightarrow>
          if l7_ports m dst_port \<noteq> None then (Some XDP_PASS, incr_stat STAT_L7 m, pkt)
          else
          let key = \<lparr>xk_src_addr = src_addr, xk_dst_addr = dst_addr, xk_src_port = put_u16 src_port,
                     xk_dst_port = put_u16 dst_port, xk_protocol = protocol\<rparr> in
          if protocol = IPPROTO_TCP \<and> tcp_flags AND TCP_FLAG_RST \<noteq> 0 then
            (Some XDP_PASS,
             incr_stat STAT_PASS (incr_stat STAT_CT_RST_PRUNE (m\<lparr>conntrack := (conntrack m)(key := None)\<rparr>)), pkt)
          else
          case conntrack m key of
            None \<Rightarrow>
              let (flood, m1) = is_under_flood now m in
              if flood then (Some XDP_PASS, incr_stat STAT_NEW_FLOW_RATE_CAP m1, pkt)
              else (Some XDP_PASS, incr_stat STAT_PASS m1, pkt)
          | Some entry \<Rightarrow>
              let m1 = incr_stat STAT_CT_HIT_V4 m in
              if xe_backend_ip entry = replicate 4 0 \<or> xe_backend_port entry = replicate 2 0 then
                (Some XDP_PASS, incr_stat STAT_BACKEND_UNPOPULATED m1, pkt)
              else
                let (ok, p) = rewrite_v4 pkt l3_offset ip_hdr_len protocol dst_addr entry in
                if \<not> ok then (None, m1, p)
                else
                  let m2 = incr_stat STAT_TX_V4 m1;
                      m3 = (if protocol = IPPROTO_TCP \<and> tcp_flags AND TCP_FLAG_FIN \<noteq> 0 \<and> tcp_flags AND TCP_FLAG_ACK \<noteq> 0
                            then incr_stat STAT_CT_FIN_PRUNE (m2\<lparr>conntrack := (conntrack m2)(key := None)\<rparr>) else m2)
                  in (Some XDP_TX, m3, p))"

text \<open>The loop over at most two extension headers: the offset behind them and the next header, or \<^const>\<open>None\<close>
  where the code returns \<open>Err\<close>.\<close>

definition is_skipped :: "u8 \<Rightarrow> bool" where
  "is_skipped next_hdr \<longleftrightarrow> next_hdr = IPPROTO_HOPOPTS \<or> next_hdr = IPPROTO_ROUTING"

fun skip_ext :: "nat \<Rightarrow> bytes \<Rightarrow> nat \<Rightarrow> u8 \<Rightarrow> (nat \<times> u8) option" where
  "skip_ext 0 pkt off next_hdr = Some (off, next_hdr)"
| "skip_ext (Suc n) pkt off next_hdr =
     (if is_skipped next_hdr then
        if \<not> ptr_at pkt off 2 then None
        else skip_ext n pkt (off + (unat (rd8 pkt (off + 1)) + 1) * 8) (rd8 pkt off)
      else Some (off, next_hdr))"

definition handle_ipv6 :: "u64 \<Rightarrow> xdp_maps \<Rightarrow> bytes \<Rightarrow> nat \<Rightarrow> xdp_result" where
  "handle_ipv6 now m pkt l3_offset =
     (if \<not> ptr_at pkt l3_offset 40 then (None, m, pkt) else
      let src_addr = rd pkt (l3_offset + 8) 16;
          dst_addr = rd pkt (l3_offset + 24) 16
      in
      case skip_ext 2 pkt (l3_offset + IPV6_HDR_LEN) (rd8 pkt (l3_offset + 6)) of
        None \<Rightarrow> (None, m, pkt)
      | Some (off, next_hdr) \<Rightarrow>
      if is_skipped next_hdr then (Some XDP_PASS, incr_stat STAT_V6_EXT_UNSUPPORTED m, pkt)
      else if next_hdr = IPPROTO_FRAGMENT then (Some XDP_PASS, incr_stat STAT_V6_FRAGMENT m, pkt)
      else
      case parse_l4 pkt off next_hdr of
        Inl _ \<Rightarrow> (None, m, pkt)
      | Inr None \<Rightarrow> (Some XDP_PASS, incr_stat STAT_PASS m, pkt)
      | Inr (Some (src_port, dst_port, tcp_flags)) \<Rightarrow>
          if l7_ports m dst_port \<noteq> None then (Some XDP_PASS, incr_stat STAT_L7 m, pkt)
          else
          let key = \<lparr>xk_src_addr = src_addr, xk_dst_addr = dst_addr, xk_src_port = put_u16 src_port,
                     xk_dst_port = put_u16 dst_port, xk_protocol = next_hdr\<rparr> in
          if next_hdr = IPPROTO_TCP \<and> tcp_flags AND TCP_FLAG_RST \<noteq> 0 then
            (Some XDP_PASS,
             incr_stat STAT_PASS (incr_stat STAT_CT_RST_PRUNE (m\<lparr>conntrack_v6 := (conntrack_v6 m)(key := None)\<rparr>)), pkt)
          else
          case conntrack_v6 m key of
            None \<Rightarrow>
              let (flood, m1) = is_under_flood now m in
              if flood then (Some XDP_PASS, incr_stat STAT_NEW_FLOW_RATE_CAP m1, pkt)
              else (Some XDP_PASS, incr_stat STAT_PASS m1, pkt)
          | Some entry \<Rightarrow>
              let m1 = incr_stat STAT_CT_HIT_V6 m in
              if xe_backend_ip entry = replicate 16 0 \<or> xe_backend_port entry = replicate 2 0 then
                (Some XDP_PASS, incr_stat STAT_BACKEND_UNPOPULATED m1, pkt)
              else
                let (ok, p) = rewrite_v6 pkt l3_offset off next_hdr dst_addr entry in
                if \<not> ok then (None, m1, p)
                else
                  let m2 = incr_stat STAT_TX_V6 m1;
                      m3 = (if next_hdr = IPPROTO_TCP \<and> tcp_flags AND TCP_FLAG_FIN \<noteq> 0 \<and> tcp_flags AND TCP_FLAG_ACK \<noteq> 0
                            then incr_stat STAT_CT_FIN_PRUNE (m2\<lparr>conntrack_v6 := (conntrack_v6 m2)(key := None)\<rparr>) else m2)
                  in (Some XDP_TX, m3, p))"

definition l3_start :: "bytes \<Rightarrow> (nat \<times> u16) option" where
  "l3_start pkt =
     (if \<not> ptr_at pkt 0 14 then None
      else if be16 (rd pkt 12 2) = ETH_P_8021Q then
        if ptr_at pkt ETH_HDR_LEN 4 then Some (ETH_HDR_LEN + VLAN_HDR_LEN, be16 (rd pkt 16 2)) else None
      else Some (ETH_HDR_LEN, be16 (rd pkt 12 2)))"

definition vlan_counted :: "xdp_maps \<Rightarrow> bytes \<Rightarrow> xdp_maps" where
  "vlan_counted m pkt = (if ptr_at pkt 0 14 \<and> be16 (rd pkt 12 2) = ETH_P_8021Q then incr_stat STAT_VLAN m else m)"

definition try_lb_xdp :: "u64 \<Rightarrow> xdp_maps \<Rightarrow> bytes \<Rightarrow> xdp_result" where
  "try_lb_xdp now m pkt =
     (case l3_start pkt of
        None \<Rightarrow> (None, vlan_counted m pkt, pkt)
      | Some (l3_offset, ether_type) \<Rightarrow>
          if ether_type = ETH_P_IP then handle_ipv4 now (vlan_counted m pkt) pkt l3_offset
          else if ether_type = ETH_P_IPV6 then handle_ipv6 now (vlan_counted m pkt) pkt l3_offset
          else (Some XDP_PASS, incr_stat STAT_PASS (vlan_counted m pkt), pkt))"

definition lb_xdp :: "u64 \<Rightarrow> xdp_maps \<Rightarrow> bytes \<Rightarrow> xdp_action \<times> xdp_maps \<times> bytes" where
  "lb_xdp now m pkt =
     (case try_lb_xdp now m pkt of
        (Some action, r) \<Rightarrow> (action, r)
      | (None, m1, p) \<Rightarrow> (XDP_PASS, incr_stat STAT_PARSE_FAIL m1, p))"

section \<open>Fields\<close>

lemma length_wr: "off + length bs \<le> length pkt \<Longrightarrow> length (wr pkt off bs) = length pkt"
  by (simp add: wr_def)

lemma rd_wr_before: "a + n \<le> off \<Longrightarrow> off \<le> length pkt \<Longrightarrow> rd (wr pkt off bs) a n = rd pkt a n"
  by (simp add: rd_def wr_def drop_take)

lemma rd_wr_after: "off + length bs \<le> a \<Longrightarrow> off \<le> length pkt \<Longrightarrow> rd (wr pkt off bs) a n = rd pkt a n"
  by (simp add: rd_def wr_def)

lemma rd_wr_same: "off \<le> length pkt \<Longrightarrow> n = length bs \<Longrightarrow> rd (wr pkt off bs) off n = bs"
  by (simp add: rd_def wr_def)

lemma rd_split: "rd pkt a (m + n) = rd pkt a m @ rd pkt (a + m) n"
  by (simp add: rd_def take_add add.commute)

lemma rd_split_at: "m \<le> n \<Longrightarrow> a + m = b \<Longrightarrow> n - m = k \<Longrightarrow> rd pkt a n = rd pkt a m @ rd pkt b k"
  using rd_split [of pkt a m "n - m"] by auto

lemma length_rd: "a + n \<le> length pkt \<Longrightarrow> length (rd pkt a n) = n"
  by (simp add: rd_def)

lemma ptr_at_iff: "ptr_at pkt off n \<longleftrightarrow> off + n \<le> length pkt"
  by (simp add: ptr_at_def)

definition entry_ok :: "nat \<Rightarrow> xdp_entry \<Rightarrow> bool" where
  "entry_ok n e \<longleftrightarrow> length (xe_backend_ip e) = n \<and> length (xe_backend_port e) = 2
     \<and> length (xe_backend_mac e) = 6 \<and> length (xe_src_mac e) = 6"

definition maps_ok :: "xdp_maps \<Rightarrow> bool" where
  "maps_ok m \<longleftrightarrow> (\<forall>k e. conntrack m k = Some e \<longrightarrow> entry_ok 4 e) \<and> (\<forall>k e. conntrack_v6 m k = Some e \<longrightarrow> entry_ok 16 e)"

lemma maps_okD:
  assumes "maps_ok m"
  shows "conntrack m k = Some e \<Longrightarrow> entry_ok 4 e" and "conntrack_v6 m k = Some e \<Longrightarrow> entry_ok 16 e"
  using assms by (auto simp: maps_ok_def)

lemma rewrite_mac_facts:
  assumes "ptr_at pkt 0 14" and "entry_ok k e"
  shows "length (rewrite_mac pkt e) = length pkt" and "12 \<le> a \<Longrightarrow> rd (rewrite_mac pkt e) a n = rd pkt a n"
    and "rd (rewrite_mac pkt e) 0 12 = xe_backend_mac e @ xe_src_mac e"
proof -
  show l: "length (rewrite_mac pkt e) = length pkt"
    using assms by (simp add: rewrite_mac_def ptr_at_iff entry_ok_def length_wr)
  show "rd (rewrite_mac pkt e) a n = rd pkt a n" if "12 \<le> a"
    using assms that by (simp add: rewrite_mac_def ptr_at_iff entry_ok_def length_wr rd_wr_after)
  have "rd (rewrite_mac pkt e) 0 12 = rd (rewrite_mac pkt e) 0 6 @ rd (rewrite_mac pkt e) 6 6"
    using rd_split [of "rewrite_mac pkt e" 0 6 6] by simp
  then show "rd (rewrite_mac pkt e) 0 12 = xe_backend_mac e @ xe_src_mac e"
    using assms by (simp add: rewrite_mac_def ptr_at_iff entry_ok_def length_wr rd_wr_before rd_wr_same)
qed

section \<open>Checksums of a rewritten packet\<close>

lemma word_sum_field: "length bs = 2 \<Longrightarrow> word_sum bs = unat (be16 bs)"
  by (auto simp: be16_def length_Suc_conv numeral_2_eq_2)

lemma word_sum_put_u16: "word_sum (put_u16 c) = unat c"
  by (simp add: put_u16_def be_u16_put)

lemma put_be32: "length bs = 4 \<Longrightarrow> put_u32 (be32 bs) = bs"
  by (auto simp: be32_def put_be_u32 length_Suc_conv numeral_eq_Suc)

lemma be_u16_unat: "unat (be_u16 hi lo) = 256 * unat hi + unat lo"
proof -
  have "push_bit 8 (ucast hi) AND ucast lo = (0 :: u16)"
    by (rule bit_word_eqI) (auto simp: bit_simps dest: bit_imp_le_length)
  then have "be_u16 hi lo = push_bit 8 (ucast hi) + ucast lo"
    unfolding be_u16_def by (rule disjunctive_add_eq_or [symmetric])
  moreover have "unat (ucast b :: u16) = unat b" for b :: u8
    by (simp add: unsigned_ucast_eq take_bit_nat_eq_self le_less_trans [OF u8_le])
  moreover have "unat hi * 256 + unat lo < 65536" using u8_le [of hi] u8_le [of lo] by simp
  ultimately show ?thesis by (simp add: push_bit_eq_mult unat_word_ariths)
qed

text \<open>A rewritten segment: everything before it stays, the port is the backend's, and the words of the segment change
  by the port and the checksum only.\<close>

lemma rewrite_l4_facts:
  assumes "rewrite_l4 pkt off protocol upd port = (True, p)" and "length port = 2"
  shows "length p = length pkt" and "a + n \<le> off \<Longrightarrow> rd p a n = rd pkt a n" and "rd p (off + 2) 2 = port"
    and "protocol = IPPROTO_TCP \<and> off + 20 \<le> length pkt \<or> protocol = IPPROTO_UDP \<and> off + 8 \<le> length pkt"
proof -
  have proto: "IPPROTO_UDP \<noteq> IPPROTO_TCP" by (simp add: xdp_consts)
  show "length p = length pkt" "protocol = IPPROTO_TCP \<and> off + 20 \<le> length pkt \<or> protocol = IPPROTO_UDP \<and> off + 8 \<le> length pkt"
    using assms by (auto simp: rewrite_l4_def Let_def ptr_at_iff length_wr split: if_splits)
  show "rd p a n = rd pkt a n" if "a + n \<le> off"
    using assms that by (auto simp: rewrite_l4_def Let_def ptr_at_iff length_wr rd_wr_before split: if_splits)
  show "rd p (off + 2) 2 = port"
    using assms by (auto simp: rewrite_l4_def Let_def ptr_at_iff length_wr rd_wr_before rd_wr_same split: if_splits)
qed

lemma segment_sum:
  assumes "length p = length pkt" and "a + L \<le> length pkt" and "4 \<le> k" and "k + 2 \<le> L" and "even k"
    and "rd p a 2 = rd pkt a 2" and "rd p (a + 4) (k - 4) = rd pkt (a + 4) (k - 4)"
    and "rd p (a + k + 2) (L - k - 2) = rd pkt (a + k + 2) (L - k - 2)"
  obtains r where "word_sum (rd pkt a L) = word_sum (rd pkt (a + 2) 2) + word_sum (rd pkt (a + k) 2) + r"
    and "word_sum (rd p a L) = word_sum (rd p (a + 2) 2) + word_sum (rd p (a + k) 2) + r"
proof -
  have "word_sum (rd q a L) = word_sum (rd q a 2) + word_sum (rd q (a + 2) 2) + word_sum (rd q (a + 4) (k - 4))
      + word_sum (rd q (a + k) 2) + word_sum (rd q (a + k + 2) (L - k - 2))" if "length q = length pkt" for q
  proof -
    have "rd q a L = rd q a 2 @ rd q (a + 2) 2 @ rd q (a + 4) (k - 4) @ rd q (a + k) 2 @ rd q (a + k + 2) (L - k - 2)"
      using rd_split_at [of 2 L a "a + 2" "L - 2" q] rd_split_at [of 2 "L - 2" "a + 2" "a + 4" "L - 4" q]
        rd_split_at [of "k - 4" "L - 4" "a + 4" "a + k" "L - k" q] rd_split_at [of 2 "L - k" "a + k" "a + k + 2" "L - k - 2" q]
        assms(3,4) by simp
    then show ?thesis using that assms by (simp add: word_sum_append length_rd)
  qed
  from this [of pkt] this [of p] assms that show ?thesis by (auto simp: ac_simps)
qed

text \<open>What a checksum update must do for a pseudo header in which \<open>old\<close> is replaced by \<open>new\<close>.\<close>

definition tracks_sum :: "(u16 \<Rightarrow> u16) \<Rightarrow> bytes \<Rightarrow> bytes \<Rightarrow> bool" where
  "tracks_sum upd old new \<longleftrightarrow> (\<forall>c. (unat (upd c) + word_sum new) mod 65535 = (unat c + word_sum old) mod 65535)"

lemma tracks_sum_v4:
  "length old = 4 \<Longrightarrow> length new = 4 \<Longrightarrow> tracks_sum (\<lambda>c. csum16_update_u32 c (be32 old) (be32 new)) old new"
  unfolding tracks_sum_def using csum16_update_u32_mod by (metis put_be32)

lemma tracks_sum_v6:
  "length old = 16 \<Longrightarrow> length new = 16 \<Longrightarrow> tracks_sum (\<lambda>c. csum16_update_v6 c old new) old new"
  unfolding tracks_sum_def by (simp add: csum16_update_v6_mod)

lemma rewrite_l4_sum:
  assumes rw: "rewrite_l4 pkt off protocol upd port = (True, p)" and port: "length port = 2"
    and upd: "tracks_sum upd old new" and L: "off + L \<le> length pkt" "protocol = IPPROTO_TCP \<Longrightarrow> 20 \<le> L" "8 \<le> L"
    and udp: "protocol = IPPROTO_UDP \<Longrightarrow> be16 (rd pkt (off + 6) 2) \<noteq> 0"
  shows "(word_sum (rd p off L) + word_sum new) mod 65535 = (word_sum (rd pkt off L) + word_sum old) mod 65535"
proof -
  have proto: "IPPROTO_UDP \<noteq> IPPROTO_TCP" by (simp add: xdp_consts)
  define k :: nat where "k = (if protocol = IPPROTO_TCP then 16 else 6)"
  define c where "c = be16 (rd pkt (off + k) 2)"
  define q where "q = be16 (rd pkt (off + 2) 2)"
  have k: "4 \<le> k" "k + 2 \<le> L" "even k" using L by (auto simp: k_def)
  have p: "p = wr (wr pkt (off + 2) port) (off + k) (put_u16 (csum16_update (upd c) q (be16 port)))
      \<or> p = wr (wr pkt (off + k) (put_u16 (csum16_update (upd c) q (be16 port)))) (off + 2) port"
    using rw udp by (auto simp: rewrite_l4_def Let_def c_def q_def k_def ptr_at_iff split: if_splits)
  have fields: "length p = length pkt" "rd p (off + 2) 2 = port" "rd p (off + k) 2 = put_u16 (csum16_update (upd c) q (be16 port))"
    "rd p off 2 = rd pkt off 2" "rd p (off + 4) (k - 4) = rd pkt (off + 4) (k - 4)"
    "rd p (off + k + 2) (L - k - 2) = rd pkt (off + k + 2) (L - k - 2)"
    using p k L(1) port by (auto simp: length_wr rd_wr_before rd_wr_after rd_wr_same)
  from segment_sum [OF fields(1) L(1) k fields(4,5,6)] obtain r
    where r: "word_sum (rd pkt off L) = word_sum (rd pkt (off + 2) 2) + word_sum (rd pkt (off + k) 2) + r"
      "word_sum (rd p off L) = word_sum (rd p (off + 2) 2) + word_sum (rd p (off + k) 2) + r" by blast
  have old: "word_sum (rd pkt (off + 2) 2) = unat q" "word_sum (rd pkt (off + k) 2) = unat c"
    using k L(1) by (auto simp: q_def c_def length_rd intro!: word_sum_field)
  have "(unat (csum16_update (upd c) q (be16 port)) + (word_sum new + unat (be16 port))) mod 65535
      = (unat c + (word_sum old + unat q)) mod 65535"
    by (rule mod_chain [OF _ csum16_update_mod]) (use upd in \<open>simp add: tracks_sum_def\<close>)
  from mod_add_cong [OF this refl, of r] show ?thesis
    unfolding r old fields word_sum_put_u16 word_sum_field [OF port] by (simp only: ac_simps)
qed

lemma ip_header_sum:
  assumes "l3 + hl \<le> length q" and "20 \<le> hl"
  shows "word_sum (rd q l3 hl) = word_sum (rd q l3 10) + word_sum (rd q (l3 + 10) 2) + word_sum (rd q (l3 + 12) 4)
    + word_sum (rd q (l3 + 16) 4) + word_sum (rd q (l3 + 20) (hl - 20))"
proof -
  have "rd q l3 hl = rd q l3 10 @ rd q (l3 + 10) 2 @ rd q (l3 + 12) 4 @ rd q (l3 + 16) 4 @ rd q (l3 + 20) (hl - 20)"
    using rd_split_at [of 10 hl l3 "l3 + 10" "hl - 10" q] rd_split_at [of 2 "hl - 10" "l3 + 10" "l3 + 12" "hl - 12" q]
      rd_split_at [of 4 "hl - 12" "l3 + 12" "l3 + 16" "hl - 16" q] rd_split_at [of 4 "hl - 16" "l3 + 16" "l3 + 20" "hl - 20" q]
      assms(2) by simp
  then show ?thesis using assms by (simp add: word_sum_append length_rd)
qed

lemma rewrite_v4_facts:
  assumes rw: "rewrite_v4 pkt l3 hl protocol dst e = (True, p)" and e: "entry_ok 4 e" and l3: "14 \<le> l3" and hl: "20 \<le> hl" "even hl"
    and dst: "dst = rd pkt (l3 + 16) 4" and hdr: "l3 + hl \<le> length pkt"
  shows "length p = length pkt" and "rd p 0 12 = xe_backend_mac e @ xe_src_mac e"
    and "12 \<le> a \<Longrightarrow> a + n \<le> l3 + 10 \<Longrightarrow> rd p a n = rd pkt a n" and "rd p (l3 + 12) 4 = rd pkt (l3 + 12) 4"
    and "rd p (l3 + 16) 4 = xe_backend_ip e" and "rd p (l3 + hl + 2) 2 = xe_backend_port e"
    and "word_sum (rd p l3 hl) mod 65535 = word_sum (rd pkt l3 hl) mod 65535"
    and "l3 + hl + L \<le> length pkt \<Longrightarrow> (protocol = IPPROTO_TCP \<Longrightarrow> 20 \<le> L) \<Longrightarrow> 8 \<le> L \<Longrightarrow>
      (protocol = IPPROTO_UDP \<Longrightarrow> be16 (rd pkt (l3 + hl + 6) 2) \<noteq> 0) \<Longrightarrow>
      (word_sum (rd p (l3 + hl) L) + word_sum (xe_backend_ip e)) mod 65535
        = (word_sum (rd pkt (l3 + hl) L) + word_sum dst) mod 65535"
proof -
  define upd where "upd = (\<lambda>c. csum16_update_u32 c (be32 dst) (be32 (xe_backend_ip e)))"
  define p1 where "p1 = rewrite_mac pkt e"
  define c where "c = upd (be16 (rd p1 (l3 + 10) 2))"
  define p2 where "p2 = wr (wr p1 (l3 + 16) (xe_backend_ip e)) (l3 + 10) (put_u16 c)"
  have mac: "ptr_at pkt 0 14" and rl: "rewrite_l4 p2 (l3 + hl) protocol upd (xe_backend_port e) = (True, p)"
    using rw by (auto simp: rewrite_v4_def Let_def p1_def p2_def c_def upd_def split: if_splits)
  note m = rewrite_mac_facts [OF mac e, folded p1_def]
  have ip: "length (xe_backend_ip e) = 4" "length (xe_backend_port e) = 2" "length dst = 4"
    using e hdr hl by (auto simp: entry_ok_def dst length_rd)
  have u: "tracks_sum upd dst (xe_backend_ip e)" unfolding upd_def using ip by (intro tracks_sum_v4)
  have len2: "length p2 = length pkt" using m(1) hdr hl ip by (simp add: p2_def length_wr)
  have keep: "rd p2 a n = rd pkt a n" if "12 \<le> a" "a + n \<le> l3 + 10 \<or> l3 + 20 \<le> a" for a n
    using that m hdr hl ip by (auto simp: p2_def length_wr rd_wr_before rd_wr_after)
  have fields: "rd p2 (l3 + 10) 2 = put_u16 c" "rd p2 (l3 + 12) 4 = rd pkt (l3 + 12) 4" "rd p2 (l3 + 16) 4 = xe_backend_ip e"
    "rd p2 0 12 = xe_backend_mac e @ xe_src_mac e"
    using m l3 hdr hl ip by (auto simp: p2_def length_wr rd_wr_before rd_wr_after rd_wr_same)
  note f = rewrite_l4_facts [OF rl ip(2)]
  show "length p = length pkt" "rd p 0 12 = xe_backend_mac e @ xe_src_mac e" "rd p (l3 + 12) 4 = rd pkt (l3 + 12) 4"
    "rd p (l3 + 16) 4 = xe_backend_ip e" "rd p (l3 + hl + 2) 2 = xe_backend_port e"
    using f(1) f(2) [of 0 12] f(2) [of "l3 + 12" 4] f(2) [of "l3 + 16" 4] f(3) fields len2 l3 hl by simp_all
  show before: "rd p a n = rd pkt a n" if "12 \<le> a" "a + n \<le> l3 + 10" for a n
    using f(2) [of a n] keep [of a n] that hl by simp
  have "rd p l3 hl = rd p2 l3 hl" using f(2) by simp
  moreover have "word_sum (rd pkt (l3 + 10) 2) = unat (be16 (rd p1 (l3 + 10) 2))"
    using m(2) [of "l3 + 10" 2] l3 hdr hl by (simp add: word_sum_field length_rd)
  moreover have "(unat c + word_sum (xe_backend_ip e)) mod 65535
      = (unat (be16 (rd p1 (l3 + 10) 2)) + word_sum (rd pkt (l3 + 16) 4)) mod 65535"
    using u by (simp add: tracks_sum_def c_def dst)
  from mod_add_cong [OF this refl, of "word_sum (rd pkt l3 10) + word_sum (rd pkt (l3 + 12) 4) + word_sum (rd pkt (l3 + 20) (hl - 20))"]
  have "(word_sum (rd pkt l3 10) + unat c + word_sum (rd pkt (l3 + 12) 4) + word_sum (xe_backend_ip e) + word_sum (rd pkt (l3 + 20) (hl - 20))) mod 65535
      = (word_sum (rd pkt l3 10) + unat (be16 (rd p1 (l3 + 10) 2)) + word_sum (rd pkt (l3 + 12) 4) + word_sum (rd pkt (l3 + 16) 4)
        + word_sum (rd pkt (l3 + 20) (hl - 20))) mod 65535" by (simp only: ac_simps)
  ultimately show "word_sum (rd p l3 hl) mod 65535 = word_sum (rd pkt l3 hl) mod 65535"
    using ip_header_sum [of l3 hl pkt] ip_header_sum [of l3 hl p2] hdr hl len2 fields keep [of l3 10] keep [of "l3 + 20" "hl - 20"] l3
    by (simp add: word_sum_put_u16)
  assume L: "l3 + hl + L \<le> length pkt" "protocol = IPPROTO_TCP \<Longrightarrow> 20 \<le> L" "8 \<le> L"
    and udp: "protocol = IPPROTO_UDP \<Longrightarrow> be16 (rd pkt (l3 + hl + 6) 2) \<noteq> 0"
  show "(word_sum (rd p (l3 + hl) L) + word_sum (xe_backend_ip e)) mod 65535
      = (word_sum (rd pkt (l3 + hl) L) + word_sum dst) mod 65535"
    using rewrite_l4_sum [OF rl ip(2) u, of L] keep [of "l3 + hl" L] keep [of "l3 + hl + 6" 2] L udp len2 l3 hl by simp
qed

lemma rewrite_v6_facts:
  assumes rw: "rewrite_v6 pkt l3 l4 protocol dst e = (True, p)" and e: "entry_ok 16 e" and l3: "14 \<le> l3" and l4: "l3 + 40 \<le> l4"
    and dst: "dst = rd pkt (l3 + 24) 16"
  shows "length p = length pkt" and "rd p 0 12 = xe_backend_mac e @ xe_src_mac e"
    and "12 \<le> a \<Longrightarrow> a + n \<le> l3 + 24 \<or> l3 + 40 \<le> a \<and> a + n \<le> l4 \<Longrightarrow> rd p a n = rd pkt a n"
    and "rd p (l3 + 24) 16 = xe_backend_ip e" and "rd p (l4 + 2) 2 = xe_backend_port e"
    and "l4 + L \<le> length pkt \<Longrightarrow> (protocol = IPPROTO_TCP \<Longrightarrow> 20 \<le> L) \<Longrightarrow> 8 \<le> L \<Longrightarrow>
      (protocol = IPPROTO_UDP \<Longrightarrow> be16 (rd pkt (l4 + 6) 2) \<noteq> 0) \<Longrightarrow>
      (word_sum (rd p l4 L) + word_sum (xe_backend_ip e)) mod 65535 = (word_sum (rd pkt l4 L) + word_sum dst) mod 65535"
proof -
  define upd where "upd = (\<lambda>c. csum16_update_v6 c dst (xe_backend_ip e))"
  define p1 where "p1 = rewrite_mac pkt e"
  define p2 where "p2 = wr p1 (l3 + 24) (xe_backend_ip e)"
  have mac: "ptr_at pkt 0 14" and rl: "rewrite_l4 p2 l4 protocol upd (xe_backend_port e) = (True, p)"
    and hdr1: "l3 + 40 \<le> length p1"
    using rw by (auto simp: rewrite_v6_def Let_def p1_def p2_def upd_def ptr_at_iff split: if_splits)
  note m = rewrite_mac_facts [OF mac e, folded p1_def]
  have hdr: "l3 + 40 \<le> length pkt" using hdr1 m(1) by simp
  have ip: "length (xe_backend_ip e) = 16" "length (xe_backend_port e) = 2" "length dst = 16"
    using e hdr by (auto simp: entry_ok_def dst length_rd)
  have u: "tracks_sum upd dst (xe_backend_ip e)" unfolding upd_def using ip by (intro tracks_sum_v6)
  have len2: "length p2 = length pkt" using m(1) hdr ip by (simp add: p2_def length_wr)
  have keep: "rd p2 a n = rd pkt a n" if "12 \<le> a" "a + n \<le> l3 + 24 \<or> l3 + 40 \<le> a" for a n
    using that m hdr ip by (auto simp: p2_def length_wr rd_wr_before rd_wr_after)
  have fields: "rd p2 (l3 + 24) 16 = xe_backend_ip e" "rd p2 0 12 = xe_backend_mac e @ xe_src_mac e"
    using m l3 hdr ip by (auto simp: p2_def length_wr rd_wr_before rd_wr_after rd_wr_same)
  note f = rewrite_l4_facts [OF rl ip(2)]
  show "length p = length pkt" "rd p 0 12 = xe_backend_mac e @ xe_src_mac e" "rd p (l3 + 24) 16 = xe_backend_ip e"
    "rd p (l4 + 2) 2 = xe_backend_port e"
    using f(1) f(2) [of 0 12] f(2) [of "l3 + 24" 16] f(3) fields len2 l3 l4 by simp_all
  show "rd p a n = rd pkt a n" if "12 \<le> a" "a + n \<le> l3 + 24 \<or> l3 + 40 \<le> a \<and> a + n \<le> l4" for a n
    using f(2) [of a n] keep [of a n] that l4 by auto
  assume L: "l4 + L \<le> length pkt" "protocol = IPPROTO_TCP \<Longrightarrow> 20 \<le> L" "8 \<le> L"
    and udp: "protocol = IPPROTO_UDP \<Longrightarrow> be16 (rd pkt (l4 + 6) 2) \<noteq> 0"
  show "(word_sum (rd p l4 L) + word_sum (xe_backend_ip e)) mod 65535 = (word_sum (rd pkt l4 L) + word_sum dst) mod 65535"
    using rewrite_l4_sum [OF rl ip(2) u, of L] keep [of l4 L] keep [of "l4 + 6" 2] L udp len2 l3 l4 by simp
qed

section \<open>Which packets are transmitted\<close>

lemma put_be16: "length bs = 2 \<Longrightarrow> put_u16 (be16 bs) = bs"
  by (auto simp: be16_def put_be_u16 length_Suc_conv numeral_2_eq_2)

definition flow_key_at :: "bytes \<Rightarrow> bytes \<Rightarrow> bytes \<Rightarrow> nat \<Rightarrow> u8 \<Rightarrow> xdp_flow_key" where
  "flow_key_at pkt src dst l4 protocol =
     \<lparr>xk_src_addr = src, xk_dst_addr = dst, xk_src_port = rd pkt l4 2, xk_dst_port = rd pkt (l4 + 2) 2, xk_protocol = protocol\<rparr>"

lemma parse_l4_Some:
  assumes "parse_l4 pkt l4 protocol = Ok (Some (sp, dp, fl))"
  shows "put_u16 sp = rd pkt l4 2" and "put_u16 dp = rd pkt (l4 + 2) 2"
  using assms by (auto simp: parse_l4_def ptr_at_iff put_be16 length_rd split: if_splits)

definition v4_len :: "bytes \<Rightarrow> nat \<Rightarrow> nat" where
  "v4_len pkt l3 = unat (rd8 pkt l3 AND 0x0F) * 4"

lemma handle_ipv4_TX:
  assumes "handle_ipv4 now m pkt l3 = (Some XDP_TX, m', p)"
  obtains e where "conntrack m (flow_key_at pkt (rd pkt (l3 + 12) 4) (rd pkt (l3 + 16) 4) (l3 + v4_len pkt l3) (rd8 pkt (l3 + 9))) = Some e"
    and "20 \<le> v4_len pkt l3" and "acl_deny m (rd pkt (l3 + 12) 4) = None"
    and "l7_ports m (be16 (rd pkt (l3 + v4_len pkt l3 + 2) 2)) = None"
    and "rewrite_v4 pkt l3 (v4_len pkt l3) (rd8 pkt (l3 + 9)) (rd pkt (l3 + 16) 4) e = (True, p)"
proof -
  obtain sp dp fl where l4: "parse_l4 pkt (l3 + v4_len pkt l3) (rd8 pkt (l3 + 9)) = Ok (Some (sp, dp, fl))"
    using assms by (auto simp: handle_ipv4_def Let_def v4_len_def split: if_splits sum.splits option.splits)
  then have dp: "dp = be16 (rd pkt (l3 + v4_len pkt l3 + 2) 2)" by (auto simp: parse_l4_def split: if_splits)
  show ?thesis
    using assms that l4 parse_l4_Some [OF l4] dp
    by (auto simp: handle_ipv4_def Let_def v4_len_def flow_key_at_def split: if_splits option.splits prod.splits)
qed

lemma handle_ipv4_other:
  assumes "handle_ipv4 now m pkt l3 = (act, m', p)" and "act \<noteq> Some XDP_TX"
  shows "act = Some XDP_DROP \<Longrightarrow> acl_deny m (rd pkt (l3 + 12) 4) \<noteq> None" and "act \<noteq> None \<Longrightarrow> p = pkt"
  using assms by (auto simp: handle_ipv4_def Let_def split: if_splits sum.splits option.splits prod.splits)

lemma handle_ipv6_TX:
  assumes "handle_ipv6 now m pkt l3 = (Some XDP_TX, m', p)"
  obtains e l4 nh where "skip_ext 2 pkt (l3 + 40) (rd8 pkt (l3 + 6)) = Some (l4, nh)"
    and "conntrack_v6 m (flow_key_at pkt (rd pkt (l3 + 8) 16) (rd pkt (l3 + 24) 16) l4 nh) = Some e"
    and "l7_ports m (be16 (rd pkt (l4 + 2) 2)) = None"
    and "rewrite_v6 pkt l3 l4 nh (rd pkt (l3 + 24) 16) e = (True, p)"
proof -
  obtain l4 nh where ext: "skip_ext 2 pkt (l3 + 40) (rd8 pkt (l3 + 6)) = Some (l4, nh)"
    using assms by (auto simp: handle_ipv6_def Let_def IPV6_HDR_LEN_def split: if_splits option.splits)
  then obtain sp dp fl where l4: "parse_l4 pkt l4 nh = Ok (Some (sp, dp, fl))"
    using assms by (auto simp: handle_ipv6_def Let_def IPV6_HDR_LEN_def split: if_splits sum.splits option.splits)
  then have dp: "dp = be16 (rd pkt (l4 + 2) 2)" by (auto simp: parse_l4_def split: if_splits)
  show ?thesis
    using assms that ext l4 parse_l4_Some [OF l4] dp
    by (auto simp: handle_ipv6_def Let_def IPV6_HDR_LEN_def flow_key_at_def split: if_splits option.splits prod.splits)
qed

lemma handle_ipv6_other:
  assumes "handle_ipv6 now m pkt l3 = (act, m', p)" and "act \<noteq> Some XDP_TX"
  shows "act \<noteq> Some XDP_DROP" and "act \<noteq> None \<Longrightarrow> p = pkt"
  using assms by (auto simp: handle_ipv6_def Let_def split: if_splits sum.splits option.splits prod.splits)

lemma l3_start_ge: "l3_start pkt = Some (l3, t) \<Longrightarrow> 14 \<le> l3 \<and> 14 \<le> length pkt"
  by (auto simp: l3_start_def ptr_at_iff xdp_consts split: if_splits)

lemma skip_ext_ge: "skip_ext n pkt off nh = Some (off', nh') \<Longrightarrow> off \<le> off'"
  by (induction n pkt off nh rule: skip_ext.induct) (auto split: if_splits)

lemma lb_xdp_action:
  assumes "lb_xdp now m pkt = (act, m', p)"
  obtains (Parsed) m1 r where "try_lb_xdp now m pkt = (Some act, r)"
  | (Failed) m1 where "try_lb_xdp now m pkt = (None, m1, p)" and "act = XDP_PASS"
  using assms by (auto simp: lb_xdp_def split: prod.splits option.splits)

lemma vlan_counted_maps [simp]:
  "conntrack (vlan_counted m pkt) = conntrack m" "conntrack_v6 (vlan_counted m pkt) = conntrack_v6 m"
  "acl_deny (vlan_counted m pkt) = acl_deny m" "l7_ports (vlan_counted m pkt) = l7_ports m"
  by (simp_all add: vlan_counted_def incr_stat_def)

lemma message_valid:
  assumes "full_checksum (src @ dst @ post @ rd pkt l4 L) = 0" and "even (length src)" and "even (length dst)"
    and "length ip = length dst" and "even (length post)" and "word_sum post \<noteq> 0"
    and "length src + length dst + length post + L \<le> 131000" and "l4 + L \<le> length pkt" and "length p = length pkt"
    and "(word_sum (rd p l4 L) + word_sum ip) mod 65535 = (word_sum (rd pkt l4 L) + word_sum dst) mod 65535"
  shows "full_checksum (src @ ip @ post @ rd p l4 L) = 0"
proof (rule valid_preserved [OF assms(1)])
  show "word_sum (src @ dst @ post @ rd pkt l4 L) < 2 ^ 32" "word_sum (src @ ip @ post @ rd p l4 L) < 2 ^ 32"
    by (rule word_sum_small, use assms in \<open>simp add: length_rd\<close>)+
  from mod_add_cong [OF assms(10) refl, of "word_sum src + word_sum post"]
  show "word_sum (src @ ip @ post @ rd p l4 L) mod 65535 = word_sum (src @ dst @ post @ rd pkt l4 L) mod 65535"
    using assms(2-5) by (simp add: word_sum_append ac_simps)
qed (use assms in \<open>simp_all add: word_sum_append\<close>)

definition l4_fits :: "bytes \<Rightarrow> nat \<Rightarrow> u8 \<Rightarrow> nat \<Rightarrow> bool" where
  "l4_fits pkt l4 protocol L \<longleftrightarrow> l4 + L \<le> length pkt \<and> L < 65536 \<and> 8 \<le> L \<and> (protocol = IPPROTO_TCP \<longrightarrow> 20 \<le> L)
     \<and> (protocol = IPPROTO_UDP \<longrightarrow> be16 (rd pkt (l4 + 6) 2) \<noteq> 0)"

definition v4_message :: "bytes \<Rightarrow> nat \<Rightarrow> nat \<Rightarrow> u8 \<Rightarrow> nat \<Rightarrow> bytes" where
  "v4_message pkt l3 l4 protocol L =
     rd pkt (l3 + 12) 4 @ rd pkt (l3 + 16) 4 @ ([0, protocol] @ put_u16 (of_nat L)) @ rd pkt l4 L"

definition v6_message :: "bytes \<Rightarrow> nat \<Rightarrow> nat \<Rightarrow> u8 \<Rightarrow> nat \<Rightarrow> bytes" where
  "v6_message pkt l3 l4 protocol L =
     rd pkt (l3 + 8) 16 @ rd pkt (l3 + 24) 16 @ (put_u32 (of_nat L) @ [0, 0, 0, protocol]) @ rd pkt l4 L"

lemma word_sum_start:
  assumes "l3 + 10 \<le> length pkt" and "rd8 pkt l3 AND 0x0F \<noteq> 0"
  shows "word_sum (rd pkt l3 10) \<noteq> 0"
proof -
  have "rd pkt l3 10 = rd8 pkt l3 # rd8 pkt (l3 + 1) # rd pkt (l3 + 2) 8"
    using assms(1) rd_split_at [of 2 10 l3 "l3 + 2" 8 pkt]
    by (simp add: rd_def rd8_def numeral_2_eq_2 take_Suc_conv_app_nth Cons_nth_drop_Suc [symmetric])
  moreover have "rd8 pkt l3 \<noteq> 0" using assms(2) by auto
  ultimately show ?thesis by (simp add: be_u16_unat unat_eq_zero)
qed

lemma rewrite_v4_fits:
  assumes "rewrite_v4 pkt l3 hl protocol dst e = (True, p)" and "entry_ok 4 e" and "14 \<le> l3"
  shows "l3 + hl + 8 \<le> length pkt" and "protocol = IPPROTO_TCP \<or> protocol = IPPROTO_UDP"
proof -
  let ?p1 = "rewrite_mac pkt e"
  let ?upd = "\<lambda>c. csum16_update_u32 c (be32 dst) (be32 (xe_backend_ip e))"
  let ?p2 = "wr (wr ?p1 (l3 + 16) (xe_backend_ip e)) (l3 + 10) (put_u16 (?upd (be16 (rd ?p1 (l3 + 10) 2))))"
  have m: "ptr_at pkt 0 14" "l3 + 20 \<le> length ?p1"
    and rl: "rewrite_l4 ?p2 (l3 + hl) protocol ?upd (xe_backend_port e) = (True, p)"
    using assms(1) by (auto simp: rewrite_v4_def Let_def ptr_at_iff split: if_splits)
  have "length ?p2 = length pkt"
    using rewrite_mac_facts(1) [OF m(1) assms(2)] m(2) assms(2) by (simp add: length_wr entry_ok_def)
  moreover have "length (xe_backend_port e) = 2" using assms(2) by (simp add: entry_ok_def)
  ultimately show "l3 + hl + 8 \<le> length pkt" "protocol = IPPROTO_TCP \<or> protocol = IPPROTO_UDP"
    using rewrite_l4_facts(4) [OF rl] by auto
qed

lemma v4_transmit:
  assumes tx: "handle_ipv4 now m pkt l3 = (Some XDP_TX, m', p)" and l3: "14 \<le> l3"
    and wf: "\<And>k e. conntrack m k = Some e \<Longrightarrow> entry_ok 4 e"
  shows "\<exists>e. conntrack m (flow_key_at pkt (rd pkt (l3 + 12) 4) (rd pkt (l3 + 16) 4) (l3 + v4_len pkt l3) (rd8 pkt (l3 + 9))) = Some e
    \<and> rd p 0 12 = xe_backend_mac e @ xe_src_mac e \<and> rd p (l3 + 16) 4 = xe_backend_ip e
    \<and> rd p (l3 + v4_len pkt l3 + 2) 2 = xe_backend_port e \<and> length p = length pkt
    \<and> (full_checksum (rd pkt l3 (v4_len pkt l3)) = 0 \<longrightarrow> full_checksum (rd p l3 (v4_len pkt l3)) = 0)
    \<and> (\<forall>L. l4_fits pkt (l3 + v4_len pkt l3) (rd8 pkt (l3 + 9)) L
        \<and> full_checksum (v4_message pkt l3 (l3 + v4_len pkt l3) (rd8 pkt (l3 + 9)) L) = 0 \<longrightarrow>
          full_checksum (v4_message p l3 (l3 + v4_len pkt l3) (rd8 pkt (l3 + 9)) L) = 0)"
proof -
  let ?hl = "v4_len pkt l3" and ?pr = "rd8 pkt (l3 + 9)" and ?dst = "rd pkt (l3 + 16) 4"
  from handle_ipv4_TX [OF tx] obtain e
    where ct: "conntrack m (flow_key_at pkt (rd pkt (l3 + 12) 4) ?dst (l3 + ?hl) ?pr) = Some e"
      and hl: "20 \<le> ?hl" and rw: "rewrite_v4 pkt l3 ?hl ?pr ?dst e = (True, p)" by metis
  note e = wf [OF ct]
  have ev: "even ?hl" by (simp add: v4_len_def)
  have small: "?hl \<le> 60"
  proof -
    have "unat (rd8 pkt l3 AND 0x0F) \<le> 15" using word_and_le1 [of "rd8 pkt l3" "0x0F"] by (simp add: word_le_nat_alt)
    then show ?thesis by (simp add: v4_len_def)
  qed
  have fit: "l3 + ?hl + 8 \<le> length pkt" "?pr \<noteq> 0"
    using rewrite_v4_fits [OF rw e l3] by (auto simp: xdp_consts)
  note f = rewrite_v4_facts [OF rw e l3 hl ev refl]
  have hdr: "full_checksum (rd p l3 ?hl) = 0" if "full_checksum (rd pkt l3 ?hl) = 0"
  proof (rule valid_preserved [OF that])
    have "word_sum (rd pkt l3 10) \<noteq> 0" 
    proof (rule word_sum_start)
      show "rd8 pkt l3 AND 0x0F \<noteq> 0" using hl by (auto simp: v4_len_def)
    qed (use fit(1) hl in simp)
    then show "word_sum (rd p l3 ?hl) \<noteq> 0" using f(1) f(3) [of l3 10] fit(1) hl l3 ip_header_sum [of l3 ?hl p] by simp
    show "word_sum (rd pkt l3 ?hl) < 2 ^ 32" "word_sum (rd p l3 ?hl) < 2 ^ 32"
      by (rule word_sum_small, use f(1) fit(1) small in \<open>simp add: length_rd\<close>)+
    show "word_sum (rd p l3 ?hl) mod 65535 = word_sum (rd pkt l3 ?hl) mod 65535" using f(7) fit(1) by simp
  qed
  have msg: "full_checksum (v4_message p l3 (l3 + ?hl) ?pr L) = 0"
    if L: "l4_fits pkt (l3 + ?hl) ?pr L" and v: "full_checksum (v4_message pkt l3 (l3 + ?hl) ?pr L) = 0" for L
  proof -
    have nz: "word_sum ([0, ?pr] @ put_u16 (of_nat L)) \<noteq> 0" using fit(2) by (simp add: be_u16_unat unat_eq_zero)
    have "full_checksum (rd pkt (l3 + 12) 4 @ xe_backend_ip e @ ([0, ?pr] @ put_u16 (of_nat L)) @ rd p (l3 + ?hl) L) = 0"
      by (rule message_valid [OF v [unfolded v4_message_def] _ _ _ _ nz])
        (use L fit e hl f in \<open>simp_all add: l4_fits_def length_rd entry_ok_def\<close>)
    then show ?thesis using f fit by (simp add: v4_message_def)
  qed
  show ?thesis using ct f(1,2,5,6) fit hdr msg by (intro exI [of _ e]) simp
qed

lemma rewrite_v6_fits:
  assumes "rewrite_v6 pkt l3 l4 protocol dst e = (True, p)" and "entry_ok 16 e" and "14 \<le> l3"
  shows "l4 + 8 \<le> length pkt" and "protocol = IPPROTO_TCP \<or> protocol = IPPROTO_UDP" and "l3 + 40 \<le> length pkt"
proof -
  let ?p1 = "rewrite_mac pkt e"
  let ?p2 = "wr ?p1 (l3 + 24) (xe_backend_ip e)"
  have m: "ptr_at pkt 0 14" "l3 + 40 \<le> length ?p1"
    and rl: "rewrite_l4 ?p2 l4 protocol (\<lambda>c. csum16_update_v6 c dst (xe_backend_ip e)) (xe_backend_port e) = (True, p)"
    using assms(1) by (auto simp: rewrite_v6_def Let_def ptr_at_iff split: if_splits)
  have len: "length ?p1 = length pkt" "length ?p2 = length pkt"
    using rewrite_mac_facts(1) [OF m(1) assms(2)] m(2) assms(2) by (simp_all add: length_wr entry_ok_def)
  moreover have "length (xe_backend_port e) = 2" using assms(2) by (simp add: entry_ok_def)
  ultimately show "l4 + 8 \<le> length pkt" "protocol = IPPROTO_TCP \<or> protocol = IPPROTO_UDP" "l3 + 40 \<le> length pkt"
    using rewrite_l4_facts(4) [OF rl] m(2) by auto
qed

lemma v6_transmit:
  assumes tx: "handle_ipv6 now m pkt l3 = (Some XDP_TX, m', p)" and l3: "14 \<le> l3"
    and wf: "\<And>k e. conntrack_v6 m k = Some e \<Longrightarrow> entry_ok 16 e"
  shows "\<exists>e l4 nh. skip_ext 2 pkt (l3 + 40) (rd8 pkt (l3 + 6)) = Some (l4, nh)
    \<and> conntrack_v6 m (flow_key_at pkt (rd pkt (l3 + 8) 16) (rd pkt (l3 + 24) 16) l4 nh) = Some e
    \<and> rd p 0 12 = xe_backend_mac e @ xe_src_mac e \<and> rd p (l3 + 24) 16 = xe_backend_ip e
    \<and> rd p (l4 + 2) 2 = xe_backend_port e \<and> length p = length pkt
    \<and> (\<forall>L. l4_fits pkt l4 nh L \<and> full_checksum (v6_message pkt l3 l4 nh L) = 0 \<longrightarrow>
          full_checksum (v6_message p l3 l4 nh L) = 0)"
proof -
  let ?dst = "rd pkt (l3 + 24) 16"
  from handle_ipv6_TX [OF tx] obtain e l4 nh where ext: "skip_ext 2 pkt (l3 + 40) (rd8 pkt (l3 + 6)) = Some (l4, nh)"
    and ct: "conntrack_v6 m (flow_key_at pkt (rd pkt (l3 + 8) 16) ?dst l4 nh) = Some e"
    and rw: "rewrite_v6 pkt l3 l4 nh ?dst e = (True, p)" by metis
  note e = wf [OF ct] and l4 = skip_ext_ge [OF ext]
  have fit: "l4 + 8 \<le> length pkt" "nh \<noteq> 0" "l3 + 40 \<le> length pkt"
    using rewrite_v6_fits [OF rw e l3] by (auto simp: xdp_consts)
  note f = rewrite_v6_facts [OF rw e l3 l4 refl]
  have msg: "full_checksum (v6_message p l3 l4 nh L) = 0"
    if L: "l4_fits pkt l4 nh L" and v: "full_checksum (v6_message pkt l3 l4 nh L) = 0" for L
  proof -
    have nz: "word_sum (put_u32 (of_nat L) @ [0, 0, 0, nh]) \<noteq> 0"
      using fit(2) by (simp add: word_sum_append be_u16_unat unat_eq_zero)
    have "full_checksum (rd pkt (l3 + 8) 16 @ xe_backend_ip e @ (put_u32 (of_nat L) @ [0, 0, 0, nh]) @ rd p l4 L) = 0"
      by (rule message_valid [OF v [unfolded v6_message_def] _ _ _ _ nz])
        (use L fit e f in \<open>simp_all add: l4_fits_def length_rd entry_ok_def\<close>)
    moreover have "rd p (l3 + 8) 16 = rd pkt (l3 + 8) 16" using f(3) l3 by simp
    ultimately show ?thesis using f(4) by (simp add: v6_message_def)
  qed
  show ?thesis using ext ct f(1,2,4,5) msg by blast
qed

text \<open>C27. A packet the program transmits is forwarded to the backend of its own flow and stays valid. There is a
  connection entry under exactly the addresses, ports and protocol of the packet; the frame carries that
  entry's MAC addresses, the packet its address and port, and the size is unchanged. If the IPv4 header checksum
  was right before, it is right after. If the TCP checksum over the pseudo header and a segment of any length was
  right before, it is right after, for IPv4 and for IPv6 behind extension headers; and the same of the UDP
  checksum, of a packet that carries one (its field is not zero) and for which the rewritten field is not zero
  either: a zero field says that there is no checksum, and a packet whose checksum the rewrite loses in that way
  (\<open>udp_checksum_lost\<close> below) is not claimed valid.\<close>

theorem xdp_transmit_valid:
  assumes "lb_xdp now m pkt = (XDP_TX, m', p)" and "maps_ok m"
  shows "(\<exists>l3 e. l3_start pkt = Some (l3, ETH_P_IP)
      \<and> conntrack m (flow_key_at pkt (rd pkt (l3 + 12) 4) (rd pkt (l3 + 16) 4) (l3 + v4_len pkt l3) (rd8 pkt (l3 + 9))) = Some e
      \<and> rd p 0 12 = xe_backend_mac e @ xe_src_mac e \<and> rd p (l3 + 16) 4 = xe_backend_ip e
      \<and> rd p (l3 + v4_len pkt l3 + 2) 2 = xe_backend_port e \<and> length p = length pkt
      \<and> (full_checksum (rd pkt l3 (v4_len pkt l3)) = 0 \<longrightarrow> full_checksum (rd p l3 (v4_len pkt l3)) = 0)
      \<and> (\<forall>L. l4_fits pkt (l3 + v4_len pkt l3) (rd8 pkt (l3 + 9)) L \<and> l4_fits p (l3 + v4_len pkt l3) (rd8 pkt (l3 + 9)) L
          \<and> full_checksum (v4_message pkt l3 (l3 + v4_len pkt l3) (rd8 pkt (l3 + 9)) L) = 0 \<longrightarrow>
            full_checksum (v4_message p l3 (l3 + v4_len pkt l3) (rd8 pkt (l3 + 9)) L) = 0))
    \<or> (\<exists>l3 e l4 nh. l3_start pkt = Some (l3, ETH_P_IPV6)
      \<and> skip_ext 2 pkt (l3 + 40) (rd8 pkt (l3 + 6)) = Some (l4, nh)
      \<and> conntrack_v6 m (flow_key_at pkt (rd pkt (l3 + 8) 16) (rd pkt (l3 + 24) 16) l4 nh) = Some e
      \<and> rd p 0 12 = xe_backend_mac e @ xe_src_mac e \<and> rd p (l3 + 24) 16 = xe_backend_ip e
      \<and> rd p (l4 + 2) 2 = xe_backend_port e \<and> length p = length pkt
      \<and> (\<forall>L. l4_fits pkt l4 nh L \<and> l4_fits p l4 nh L \<and> full_checksum (v6_message pkt l3 l4 nh L) = 0 \<longrightarrow>
            full_checksum (v6_message p l3 l4 nh L) = 0))"
proof -
  obtain m1 where "try_lb_xdp now m pkt = (Some XDP_TX, m1, p)"
    using assms(1) by (auto simp: lb_xdp_def split: prod.splits option.splits)
  then obtain l3 t where l3: "l3_start pkt = Some (l3, t)"
    and "t = ETH_P_IP \<and> handle_ipv4 now (vlan_counted m pkt) pkt l3 = (Some XDP_TX, m1, p)
      \<or> t = ETH_P_IPV6 \<and> handle_ipv6 now (vlan_counted m pkt) pkt l3 = (Some XDP_TX, m1, p)"
    by (auto simp: try_lb_xdp_def split: option.splits if_splits)
  then show ?thesis
  proof (elim disjE conjE)
    assume t: "t = ETH_P_IP" and h: "handle_ipv4 now (vlan_counted m pkt) pkt l3 = (Some XDP_TX, m1, p)"
    from v4_transmit [OF h] l3_start_ge [OF l3] maps_okD(1) [OF assms(2)] l3 t show ?thesis by auto
  next
    assume t: "t = ETH_P_IPV6" and h: "handle_ipv6 now (vlan_counted m pkt) pkt l3 = (Some XDP_TX, m1, p)"
    from v6_transmit [OF h] l3_start_ge [OF l3] maps_okD(2) [OF assms(2)] l3 t show ?thesis by auto
  qed
qed

section \<open>Verdicts\<close>

lemma rewrite_l4_False:
  assumes "rewrite_l4 q l4 protocol upd port = (False, p)" and "parse_l4 pkt l4 protocol = Ok (Some r)" and "length q = length pkt"
  shows "protocol = IPPROTO_TCP" and "l4 + 16 \<le> length pkt" and "length pkt < l4 + 20"
  using assms by (auto simp: rewrite_l4_def parse_l4_def Let_def ptr_at_iff xdp_consts split: if_splits)

lemma rewrite_False:
  assumes "parse_l4 pkt l4 protocol = Ok (Some r)" and "14 \<le> length pkt" and "entry_ok n e"
    and "rewrite_v4 pkt l3 hl protocol dst e = (False, p) \<and> n = 4 \<and> l4 = l3 + hl \<and> l3 + 20 \<le> length pkt
      \<or> rewrite_v6 pkt l3 l4 protocol dst e = (False, p) \<and> n = 16 \<and> l3 + 40 \<le> length pkt"
  shows "protocol = IPPROTO_TCP \<and> l4 + 16 \<le> length pkt \<and> length pkt < l4 + 20"
proof -
  have m: "ptr_at pkt 0 14" using assms(2) by (simp add: ptr_at_iff)
  note len = rewrite_mac_facts(1) [OF m assms(3)]
  from assms(4) obtain q upd where "rewrite_l4 q l4 protocol upd (xe_backend_port e) = (False, p)" "length q = length pkt"
    using m len assms(3)
    by (auto simp: rewrite_v4_def rewrite_v6_def Let_def ptr_at_iff length_wr entry_ok_def split: if_splits)
  with rewrite_l4_False [OF _ assms(1)] show ?thesis by metis
qed

lemma handle_ipv4_fail:
  assumes "handle_ipv4 now m pkt l3 = (None, m', p)" and "14 \<le> length pkt"
    and "\<And>k e. conntrack m k = Some e \<Longrightarrow> entry_ok 4 e"
  shows "p = pkt \<or> rd8 pkt (l3 + 9) = IPPROTO_TCP \<and> l3 + v4_len pkt l3 + 16 \<le> length pkt \<and> length pkt < l3 + v4_len pkt l3 + 20"
proof (cases "p = pkt")
  case False
  with assms(1) obtain e k r where "conntrack m k = Some e" "parse_l4 pkt (l3 + v4_len pkt l3) (rd8 pkt (l3 + 9)) = Ok (Some r)"
    "rewrite_v4 pkt l3 (v4_len pkt l3) (rd8 pkt (l3 + 9)) (rd pkt (l3 + 16) 4) e = (False, p)" "l3 + 20 \<le> length pkt"
    by (auto simp: handle_ipv4_def Let_def v4_len_def ptr_at_iff split: if_splits sum.splits option.splits prod.splits)
  with rewrite_False assms(2,3) show ?thesis by metis
qed simp

lemma handle_ipv6_fail:
  assumes "handle_ipv6 now m pkt l3 = (None, m', p)" and "14 \<le> length pkt"
    and "\<And>k e. conntrack_v6 m k = Some e \<Longrightarrow> entry_ok 16 e"
  shows "p = pkt \<or> (\<exists>l4. skip_ext 2 pkt (l3 + 40) (rd8 pkt (l3 + 6)) = Some (l4, IPPROTO_TCP)
    \<and> l4 + 16 \<le> length pkt \<and> length pkt < l4 + 20)"
proof (cases "p = pkt")
  case False
  with assms(1) obtain e k r l4 nh where "conntrack_v6 m k = Some e" "parse_l4 pkt l4 nh = Ok (Some r)"
    "skip_ext 2 pkt (l3 + 40) (rd8 pkt (l3 + 6)) = Some (l4, nh)"
    "rewrite_v6 pkt l3 l4 nh (rd pkt (l3 + 24) 16) e = (False, p)" "l3 + 40 \<le> length pkt"
    by (auto simp: handle_ipv6_def Let_def IPV6_HDR_LEN_def ptr_at_iff split: if_splits sum.splits option.splits prod.splits)
  with rewrite_False assms(2,3) show ?thesis by metis
qed simp

lemma handle_maps:
  "conntrack (fst (snd (handle_ipv4 now m pkt l3))) \<subseteq>\<^sub>m conntrack m"
  "conntrack_v6 (fst (snd (handle_ipv4 now m pkt l3))) = conntrack_v6 m"
  "conntrack_v6 (fst (snd (handle_ipv6 now m pkt l3))) \<subseteq>\<^sub>m conntrack_v6 m"
  "conntrack (fst (snd (handle_ipv6 now m pkt l3))) = conntrack m"
  by (auto simp: handle_ipv4_def handle_ipv6_def is_under_flood_def incr_stat_def map_le_def Let_def
      split: if_splits sum.splits option.splits prod.splits)

text \<open>C28. The verdicts are safe. The program drops a packet only when it is IPv4 and its source address is on the
  deny list, and then leaves it alone. A packet it passes to the kernel is unmodified, with one exception,
  a TCP header cut off between its 16th and 20th byte: the parser accepts it and the rewrite
  fails half-way. The program never adds or changes a connection entry, it only removes entries.\<close>

theorem xdp_verdicts:
  assumes "lb_xdp now m pkt = (act, m', p)" and "maps_ok m"
  shows "(act = XDP_DROP \<longrightarrow> p = pkt \<and> (\<exists>l3. l3_start pkt = Some (l3, ETH_P_IP) \<and> acl_deny m (rd pkt (l3 + 12) 4) \<noteq> None))
    \<and> (act = XDP_PASS \<and> p \<noteq> pkt \<longrightarrow> (\<exists>l3 l4. l4 + 16 \<le> length pkt \<and> length pkt < l4 + 20
        \<and> (l3_start pkt = Some (l3, ETH_P_IP) \<and> l4 = l3 + v4_len pkt l3 \<and> rd8 pkt (l3 + 9) = IPPROTO_TCP
           \<or> l3_start pkt = Some (l3, ETH_P_IPV6) \<and> skip_ext 2 pkt (l3 + 40) (rd8 pkt (l3 + 6)) = Some (l4, IPPROTO_TCP))))
    \<and> conntrack m' \<subseteq>\<^sub>m conntrack m \<and> conntrack_v6 m' \<subseteq>\<^sub>m conntrack_v6 m"
proof -
  let ?m = "vlan_counted m pkt"
  obtain a m1 where t: "try_lb_xdp now m pkt = (a, m1, p)" and a: "a = Some act \<and> m' = m1 \<or> a = None \<and> act = XDP_PASS \<and> m' = incr_stat STAT_PARSE_FAIL m1"
    using assms(1) by (auto simp: lb_xdp_def split: prod.splits option.splits)
  have keep: "conntrack m' = conntrack m1" "conntrack_v6 m' = conntrack_v6 m1" using a by (auto simp: incr_stat_def)
  consider (none) "l3_start pkt = None"
    | (v4) l3 where "l3_start pkt = Some (l3, ETH_P_IP)" "handle_ipv4 now ?m pkt l3 = (a, m1, p)"
    | (v6) l3 where "l3_start pkt = Some (l3, ETH_P_IPV6)" "handle_ipv6 now ?m pkt l3 = (a, m1, p)"
    | (other) "(a, m1, p) = (Some XDP_PASS, incr_stat STAT_PASS ?m, pkt)"
    using t by (auto simp: try_lb_xdp_def split: option.splits if_splits)
  then show ?thesis
  proof cases
    case none
    with t a keep show ?thesis by (auto simp: try_lb_xdp_def)
  next
    case v4
    note o = handle_ipv4_other [OF v4(2)] and f = handle_ipv4_fail [of now ?m pkt l3 m1 p]
    from v4 o f a maps_okD(1) [OF assms(2)] l3_start_ge [OF v4(1)] keep handle_maps(1,2) [of now ?m pkt l3] show ?thesis by (cases a; force)
  next
    case v6
    note o = handle_ipv6_other [OF v6(2)] and f = handle_ipv6_fail [of now ?m pkt l3 m1 p]
    from v6 o f a maps_okD(2) [OF assms(2)] l3_start_ge [OF v6(1)] keep handle_maps(3,4) [of now ?m pkt l3] show ?thesis by (cases a; force)
  next
    case other
    with a keep show ?thesis by (auto simp: incr_stat_def)
  qed
qed

section \<open>Concrete packets\<close>

text \<open>A UDP packet to 10.0.0.1 port 53 and a TCP packet cut off after 16 bytes of its header, and maps that send their flows
  to 10.0.0.9.\<close>

definition demo_frame :: "u8 \<Rightarrow> bytes \<Rightarrow> bytes" where
  "demo_frame protocol l4 =
     [1, 1, 1, 1, 1, 1, 2, 2, 2, 2, 2, 2, 0x08, 0x00]
     @ [0x45, 0, 0, 28, 0, 0, 0, 0, 64, protocol, 0x55, 0xAA, 10, 0, 0, 2, 10, 0, 0, 1] @ l4"

definition demo_entry :: "u16 \<Rightarrow> xdp_entry" where
  "demo_entry port = \<lparr>xe_backend_idx = 0, xe_backend_ip = [10, 0, 0, 9], xe_backend_port = put_u16 port,
     xe_backend_mac = [3, 3, 3, 3, 3, 3], xe_src_mac = [4, 4, 4, 4, 4, 4]\<rparr>"

definition demo_maps :: "u8 \<Rightarrow> u16 \<Rightarrow> xdp_maps" where
  "demo_maps protocol port =
     \<lparr>conntrack = (\<lambda>k. if k = \<lparr>xk_src_addr = [10, 0, 0, 2], xk_dst_addr = [10, 0, 0, 1], xk_src_port = [0x30, 0x39],
          xk_dst_port = [0, 0x35], xk_protocol = protocol\<rparr> then Some (demo_entry port) else None),
      conntrack_v6 = (\<lambda>k. None), l7_ports = (\<lambda>p. None), acl_deny = (\<lambda>a. None), stats = (\<lambda>s. 0),
      new_flow_rate = None, new_flow_cap_cfg = None\<rparr>"

definition demo_udp :: bytes where
  "demo_udp = demo_frame 17 [0x30, 0x39, 0, 0x35, 0, 8, 0x12, 0x34]"

definition demo_tcp :: bytes where
  "demo_tcp = demo_frame 6 [0x30, 0x39, 0, 0x35, 0, 0, 0, 0, 0, 0, 0, 0, 0x50, 0x10, 0, 0]"

lemma demo_wf: "maps_ok (demo_maps pr port)"
  by (auto simp: maps_ok_def demo_maps_def demo_entry_def entry_ok_def split: if_splits)

lemma demo_udp_run: "fst (lb_xdp 0 (demo_maps 17 8080) demo_udp) = XDP_TX"
  by code_simp

theorem xdp_transmit_valid_witness:
  "rd (snd (snd (lb_xdp 0 (demo_maps 17 8080) demo_udp))) 0 12 = [3, 3, 3, 3, 3, 3, 4, 4, 4, 4, 4, 4]"
proof -
  obtain m' p where r: "lb_xdp 0 (demo_maps 17 8080) demo_udp = (XDP_TX, m', p)"
    using demo_udp_run by (metis prod.collapse)
  have "\<exists>k e. (conntrack (demo_maps 17 8080) k = Some e \<or> conntrack_v6 (demo_maps 17 8080) k = Some e)
      \<and> rd p 0 12 = xe_backend_mac e @ xe_src_mac e"
    using xdp_transmit_valid [OF r demo_wf] by (elim disjE exE conjE) metis+
  then show ?thesis unfolding r by (auto simp: demo_maps_def demo_entry_def split: if_splits)
qed

theorem xdp_verdicts_witness:
  "conntrack (fst (snd (lb_xdp 0 (demo_maps 17 8080) demo_udp))) \<subseteq>\<^sub>m conntrack (demo_maps 17 8080)"
  using xdp_verdicts [of 0 "demo_maps 17 8080" demo_udp "fst (lb_xdp 0 (demo_maps 17 8080) demo_udp)"
      "fst (snd (lb_xdp 0 (demo_maps 17 8080) demo_udp))" "snd (snd (lb_xdp 0 (demo_maps 17 8080) demo_udp))", OF _ demo_wf]
  by simp

text \<open>The exception of the verdicts happens: the destination of a packet passed to the kernel has been rewritten.\<close>

lemma truncated_tcp_rewritten:
  "fst (lb_xdp 0 (demo_maps 6 8080) demo_tcp) = XDP_PASS
   \<and> rd (snd (snd (lb_xdp 0 (demo_maps 6 8080) demo_tcp))) 30 4 = [10, 0, 0, 9] \<and> rd demo_tcp 30 4 = [10, 0, 0, 1]"
  by code_simp

text \<open>A UDP checksum that is present can be rewritten to zero, which says that there is none (and makes an IPv6
  packet invalid): RFC 768 sends the equivalent 0xFFFF instead.\<close>

lemma udp_checksum_lost:
  "fst (lb_xdp 0 (demo_maps 17 0x1261) demo_udp) = XDP_TX
   \<and> rd demo_udp 40 2 = [0x12, 0x34] \<and> rd (snd (snd (lb_xdp 0 (demo_maps 17 0x1261) demo_udp))) 40 2 = [0, 0]"
  by code_simp

end
