(* ===== verification/Quic_Header.thy ===== *)
theory Quic_Header
  imports H3_Frame
begin

text \<open>
  The parser of QUIC public headers (\<open>lb-quic/src/public_header.rs\<close>). Its variable-length integers are
  shown to be those of the HTTP/3 codec, its results to be exactly what the wire format says, and to depend on
  nothing but the cleartext part of a packet. A \<open>usize\<close> has 64 bits.
\<close>

section \<open>Headers and errors\<close>

definition MAX_CID_LEN :: nat where
  "MAX_CID_LEN = 20"

datatype long_type = Initial | ZeroRtt | Handshake | RetryPacket | VersionNegotiation

datatype public_header =
    Long (ty: long_type) (version: u32) (dcid: bytes) (scid: bytes) (token: "bytes option") (length_field: "u64 option")
  | Short (dcid: bytes)

datatype varint_error = VarintIncomplete nat nat

datatype header_error =
    TooShort nat nat
  | FixedBitClear
  | DcidTooLong u8
  | ScidTooLong u8
  | Varint varint_error
  | HeaderTruncated u64 nat

section \<open>The parser\<close>

fun quic_varint_loop :: "nat \<Rightarrow> bytes \<Rightarrow> nat list \<Rightarrow> u64 \<Rightarrow> (u64, varint_error) result" where
  "quic_varint_loop len buf [] val = Ok val"
| "quic_varint_loop len buf (i # is) val =
     and_then (ok_or (get buf i) (VarintIncomplete len (length buf)))
       (\<lambda>b. quic_varint_loop len buf is (push_bit 8 val OR ucast b))"

definition quic_decode_varint :: "bytes \<Rightarrow> (u64 \<times> nat, varint_error) result" where
  "quic_decode_varint buf =
     and_then (ok_or (get buf 0) (VarintIncomplete 1 0)) (\<lambda>first.
     let len = push_bit (unat (drop_bit 6 first)) (1 :: nat) in
     if length buf < len then Err (VarintIncomplete len (length buf))
     else and_then (quic_varint_loop len buf [1..<len] (ucast (first AND 0x3F))) (\<lambda>val. Ok (val, len)))"

definition parse_token :: "bytes \<Rightarrow> (bytes \<times> bytes, header_error) result" where
  "parse_token tail =
     and_then (map_err Varint (quic_decode_varint tail)) (\<lambda>(tok_len, tok_start).
     and_then (ok_or (checked_add 64 tok_start (unat tok_len)) (HeaderTruncated tok_len (length tail - tok_start)))
       (\<lambda>tok_end.
     and_then (ok_or (get_range tail tok_start tok_end) (HeaderTruncated tok_len (length tail - tok_start))) (\<lambda>tok.
     and_then (ok_or (get_from tail tok_end) (TooShort tok_end (length tail))) (\<lambda>after_tok.
     Ok (tok, after_tok)))))"

definition parse_length :: "bytes \<Rightarrow> (u64, header_error) result" where
  "parse_length tail =
     and_then (map_err Varint (quic_decode_varint tail)) (\<lambda>(len_val, len_n).
     let after_len = (case get_from tail len_n of Some r \<Rightarrow> r | None \<Rightarrow> [])
     in if length after_len < unat len_val then Err (HeaderTruncated len_val (length after_len)) else Ok len_val)"

definition type_bits :: "u8 \<Rightarrow> long_type" where
  "type_bits b0 =
     (let t = drop_bit 4 b0 AND 0x03 in
      if t = 0 then Initial else if t = 1 then ZeroRtt else if t = 2 then Handshake else RetryPacket)"

definition parse_tail :: "long_type \<Rightarrow> bytes \<Rightarrow> (bytes option \<times> u64 option, header_error) result" where
  "parse_tail t tail =
     (case t of
        Initial \<Rightarrow>
          and_then (parse_token tail) (\<lambda>(tok, after_tok).
          and_then (parse_length after_tok) (\<lambda>len_val. Ok (Some tok, Some len_val)))
      | ZeroRtt \<Rightarrow> and_then (parse_length tail) (\<lambda>len_val. Ok (None, Some len_val))
      | Handshake \<Rightarrow> and_then (parse_length tail) (\<lambda>len_val. Ok (None, Some len_val))
      | RetryPacket \<Rightarrow> Ok (None, None)
      | VersionNegotiation \<Rightarrow> Ok (None, None))"

definition parse_long :: "bytes \<Rightarrow> (public_header, header_error) result" where
  "parse_long pkt =
     and_then (ok_or (get_range pkt 0 6) (TooShort 6 (length pkt))) (\<lambda>head.
     and_then (ok_or (get head 0) (TooShort 1 0)) (\<lambda>b0.
     and_then (ok_or (get head 1) (TooShort 2 (length head))) (\<lambda>v0.
     and_then (ok_or (get head 2) (TooShort 3 (length head))) (\<lambda>v1.
     and_then (ok_or (get head 3) (TooShort 4 (length head))) (\<lambda>v2.
     and_then (ok_or (get head 4) (TooShort 5 (length head))) (\<lambda>v3.
     let ver = be_u32 v0 v1 v2 v3 in
     and_then (ok_or (get head 5) (TooShort 6 (length head))) (\<lambda>dcid_len.
     if unat dcid_len > MAX_CID_LEN then Err (DcidTooLong dcid_len) else
     and_then (ok_or (checked_add 64 6 (unat dcid_len)) (TooShort (max_of 64) (length pkt))) (\<lambda>dcid_end.
     and_then (ok_or (get_range pkt 6 dcid_end) (TooShort dcid_end (length pkt))) (\<lambda>dcid.
     and_then (ok_or (get pkt dcid_end) (TooShort (saturating_add 64 dcid_end 1) (length pkt))) (\<lambda>scid_len.
     if unat scid_len > MAX_CID_LEN then Err (ScidTooLong scid_len) else
     let scid_start = saturating_add 64 dcid_end 1 in
     and_then (ok_or (checked_add 64 scid_start (unat scid_len)) (TooShort (max_of 64) (length pkt))) (\<lambda>scid_end.
     and_then (ok_or (get_range pkt scid_start scid_end) (TooShort scid_end (length pkt))) (\<lambda>scid.
     if ver = 0 then Ok (Long VersionNegotiation ver dcid scid None None) else
     and_then (ok_or (get_from pkt scid_end) (TooShort scid_end (length pkt))) (\<lambda>tail.
     and_then (parse_tail (type_bits b0) tail)
       (\<lambda>(tok, len_val). Ok (Long (type_bits b0) ver dcid scid tok len_val)))))))))))))))"

definition parse_short :: "bytes \<Rightarrow> nat \<Rightarrow> (public_header, header_error) result" where
  "parse_short pkt short_dcid_len =
     (if short_dcid_len = 0 \<or> short_dcid_len > MAX_CID_LEN
      then Err (DcidTooLong (if short_dcid_len < 256 then of_nat short_dcid_len else 255))
      else
        and_then (ok_or (checked_add 64 1 short_dcid_len) (TooShort (max_of 64) (length pkt))) (\<lambda>end'.
        and_then (ok_or (get_range pkt 1 end') (TooShort end' (length pkt))) (\<lambda>dcid. Ok (Short dcid))))"

definition parse_public_header :: "bytes \<Rightarrow> nat \<Rightarrow> (public_header, header_error) result" where
  "parse_public_header pkt short_dcid_len =
     and_then (ok_or (get pkt 0) (TooShort 1 0)) (\<lambda>b0.
     if b0 AND 0x40 = 0 then Err FixedBitClear
     else if b0 AND 0x80 = 0 then parse_short pkt short_dcid_len
     else parse_long pkt)"

section \<open>Variable-length integers\<close>

lemma quic_varint_loop_eq:
  assumes "\<forall>i \<in> set is. i < length buf"
  shows "quic_varint_loop len buf is val = Ok v \<longleftrightarrow> varint_loop buf is val = Ok v"
  using assms by (induction "is" arbitrary: val) (auto simp: get_in)

lemma two_bits: "drop_bit 6 (b :: u8) \<in> {0, 1, 2, 3}"
proof -
  have "\<forall>n \<in> set [0..<256]. drop_bit 6 (of_nat n :: u8) \<in> {0, 1, 2, 3}" by code_simp
  moreover have "unat b < 256" by (rule le_less_trans [OF u8_le]) simp
  ultimately have "drop_bit 6 (of_nat (unat b) :: u8) \<in> {0, 1, 2, 3}" by (auto simp del: of_nat_unat)
  then show ?thesis by simp
qed

lemma quic_varint_eq: "quic_decode_varint buf = Ok r \<longleftrightarrow> decode_varint buf = Ok r"
proof (cases buf)
  case Nil
  then show ?thesis by (simp add: quic_decode_varint_def decode_varint_def)
next
  case (Cons b bs)
  have loop: "length buf \<ge> n \<Longrightarrow> quic_varint_loop n buf [1..<n] v = Ok x \<longleftrightarrow> varint_loop buf [1..<n] v = Ok x" for n v x
    by (rule quic_varint_loop_eq) auto
  from two_bits [of b] show ?thesis
  proof (elim insertE emptyE)
    assume "drop_bit 6 b = 0"
    then show ?thesis by (simp add: Cons quic_decode_varint_def decode_varint_def)
  next
    assume "drop_bit 6 b = 1"
    then show ?thesis
      by (cases bs) (auto simp: Cons quic_decode_varint_def decode_varint_def upt_rec)
  next
    assume two: "drop_bit 6 b = 2"
    have idx: "[1..<4] = [1, 2, 3 :: nat]" by (simp add: upt_rec)
    show ?thesis
    proof (cases "length bs < 3")
      case True
      then have "get buf 3 = None" by (simp add: Cons get_out)
      with two True show ?thesis
        by (auto simp: Cons quic_decode_varint_def decode_varint_def and_then_Ok ok_or_Ok)
    next
      case False
      then obtain c d e es where "bs = c # d # e # es"
        by (auto simp: not_less numeral_3_eq_3 Suc_le_length_iff)
      with two show ?thesis
        by (simp add: Cons quic_decode_varint_def decode_varint_def idx push_bit_or or.assoc del: One_nat_def)
    qed
  next
    assume "drop_bit 6 b = 3"
    then show ?thesis using loop [of 8]
      by (cases "length buf < 8")
        (auto simp: Cons quic_decode_varint_def decode_varint_def and_then_Ok dest!: varint_loop_length)
  qed
qed

section \<open>The layout of a long header\<close>

definition long_wire :: "u8 \<Rightarrow> u32 \<Rightarrow> bytes \<Rightarrow> bytes \<Rightarrow> bytes \<Rightarrow> bytes" where
  "long_wire b0 ver d s rest = b0 # put_u32 ver @ of_nat (length d) # d @ of_nat (length s) # s @ rest"

lemma cid_len: "length d \<le> MAX_CID_LEN \<Longrightarrow> unat (of_nat (length d) :: u8) = length d"
  by (simp add: MAX_CID_LEN_def unat_of_nat)

lemma parse_long_wire:
  assumes "length d \<le> MAX_CID_LEN" and "length s \<le> MAX_CID_LEN"
  shows "parse_long (long_wire b0 ver d s rest) =
    (if ver = 0 then Ok (Long VersionNegotiation 0 d s None None)
     else and_then (parse_tail (type_bits b0) rest) (\<lambda>(tok, len_val). Ok (Long (type_bits b0) ver d s tok len_val)))"
proof -
  let ?pkt = "long_wire b0 ver d s rest"
  have head: "get_range ?pkt 0 6 = Some (b0 # put_u32 ver @ [of_nat (length d)])"
    by (simp add: long_wire_def get_range_def put_u32_def)
  have d: "get_range ?pkt 6 (6 + length d) = Some d"
    using range_append [of "b0 # put_u32 ver @ [of_nat (length d)]" d "of_nat (length s) # s @ rest"]
    by (simp add: long_wire_def)
  have sl: "get ?pkt (6 + length d) = Some (of_nat (length s))"
    by (simp add: long_wire_def get_def nth_append put_u32_def)
  have s: "get_range ?pkt (7 + length d) (7 + length d + length s) = Some s"
    using range_append [of "b0 # put_u32 ver @ of_nat (length d) # d @ [of_nat (length s)]" s rest]
    by (simp add: long_wire_def ac_simps)
  have t: "get_from ?pkt (7 + length d + length s) = Some rest"
    using get_from_append [of "b0 # put_u32 ver @ of_nat (length d) # d @ of_nat (length s) # s" rest]
    by (simp add: long_wire_def ac_simps)
  have bounds: "length d \<le> 20" "length s \<le> 20" using assms by (simp_all add: MAX_CID_LEN_def)
  show ?thesis
    unfolding parse_long_def head
    using bounds by (simp add: put_u32_def be_u32_put cid_len [OF assms(1)] cid_len [OF assms(2)] MAX_CID_LEN_def checked_add_def
        saturating_add_def max_of_def d sl s [simplified] t [simplified] Let_def) (simp add: be_u32_def)
qed

lemma parse_long_sound:
  assumes "parse_long pkt = Ok h"
  obtains b0 ver d s rest where "pkt = long_wire b0 ver d s rest" and "length d \<le> MAX_CID_LEN" and "length s \<le> MAX_CID_LEN"
proof -
  from assms obtain head where "get_range pkt 0 6 = Some head"
    by (auto simp: parse_long_def and_then_Ok ok_or_Ok)
  then obtain b0 v0 v1 v2 v3 l r where pkt: "pkt = b0 # v0 # v1 # v2 # v3 # l # r"
    by (auto simp: get_range_eq_Some Suc_le_length_iff numeral_eq_Suc)
  have head: "get_range pkt 0 6 = Some [b0, v0, v1, v2, v3, l]" by (simp add: pkt get_range_def)
  from assms obtain d sl s where l: "unat l \<le> MAX_CID_LEN" and d: "get_range pkt 6 (6 + unat l) = Some d"
    and sl: "get pkt (6 + unat l) = Some sl" "unat sl \<le> MAX_CID_LEN"
    and s: "get_range pkt (7 + unat l) (7 + unat l + unat sl) = Some s"
    by (auto simp: parse_long_def head and_then_Ok ok_or_Ok Let_def checked_add_def saturating_add_def max_of_def MAX_CID_LEN_def
        split: if_splits)
  have len: "length d = unat l" "length s = unat sl" using d s by (auto simp: get_range_eq_Some)
  have "r = d @ drop (unat l) r" using d len by (auto simp: pkt get_range_eq_Some)
  moreover have "drop (unat l) r = sl # drop (Suc (unat l)) r"
    using sl(1) by (auto simp: pkt get_eq_Some Cons_nth_drop_Suc)
  moreover have "drop (Suc (unat l)) r = s @ drop (unat sl) (drop (Suc (unat l)) r)"
  proof -
    have "drop (7 + unat l) pkt = drop (Suc (unat l)) r" by (simp add: pkt eval_nat_numeral)
    with s have "s = take (unat sl) (drop (Suc (unat l)) r)" by (simp add: get_range_eq_Some)
    then show ?thesis by (simp only: append_take_drop_id)
  qed
  ultimately obtain t where "r = d @ sl # s @ t" by metis
  then have "pkt = long_wire b0 (be_u32 v0 v1 v2 v3) d s t"
    unfolding long_wire_def put_be_u32 len by (simp add: pkt)
  then show ?thesis using that len l sl(2) by auto
qed

section \<open>What the parser reads\<close>

lemma varint_loop_take:
  assumes "\<forall>i \<in> set is. i < n" and "n \<le> length buf"
  shows "varint_loop (take n buf @ rest) is val = varint_loop buf is val"
  using assms by (induction "is" arbitrary: val) (simp_all add: get_prefix)

lemma decode_varint_take:
  assumes "decode_varint buf = Ok (v, n)"
  shows "decode_varint (take n buf @ rest) = Ok (v, n)"
proof -
  have n: "0 < n" "n \<le> length buf" using decode_varint_consumes [OF assms] by auto
  have loop: "n = 8 \<Longrightarrow> varint_loop (take 8 buf @ rest) [1..<8] w = varint_loop buf [1..<8] w" for w
    using varint_loop_take [of "[1..<8]" 8 buf rest w] n by simp
  have "get (take n buf @ rest) i = get buf i" if "i < n" for i using that n by (simp add: get_prefix)
  with assms n loop show ?thesis
    by (auto simp: decode_varint_def Let_def and_then_Ok ok_or_Ok split: if_splits)
qed

lemma quic_varint_take: "quic_decode_varint buf = Ok (v, n) \<Longrightarrow> quic_decode_varint (take n buf @ rest) = Ok (v, n)"
  by (simp add: quic_varint_eq decode_varint_take)

lemma quic_varint_consumes: "quic_decode_varint buf = Ok (v, n) \<Longrightarrow> n \<le> length buf"
  using decode_varint_consumes by (simp add: quic_varint_eq)

lemma parse_length_reads:
  assumes "parse_length tail = Ok v"
  obtains n where "n + unat v \<le> length tail"
    and "\<And>rest. length rest = length tail - n \<Longrightarrow> parse_length (take n tail @ rest) = Ok v"
proof -
  from assms obtain n where n: "quic_decode_varint tail = Ok (v, n)" "unat v \<le> length tail - n"
    by (auto simp: parse_length_def and_then_Ok map_err_Ok get_from_def Let_def split: if_splits)
  note le = quic_varint_consumes [OF n(1)]
  have "parse_length (take n tail @ rest) = Ok v" if "length rest = length tail - n" for rest
    using quic_varint_take [OF n(1), of rest] n(2) le that by (simp add: parse_length_def map_err_def get_from_def)
  then show ?thesis using that [of n] n(2) le by simp
qed

lemma parse_token_reads:
  assumes "parse_token tail = Ok (tok, after)"
  obtains n where "n \<le> length tail" and "after = drop n tail"
    and "\<And>rest. parse_token (take n tail @ rest) = Ok (tok, rest)"
proof -
  from assms obtain l m where l: "quic_decode_varint tail = Ok (l, m)" and end': "checked_add 64 m (unat l) = Some (m + unat l)"
    and tok: "get_range tail m (m + unat l) = Some tok" and after: "after = drop (m + unat l) tail"
    by (auto simp: parse_token_def and_then_Ok ok_or_Ok map_err_Ok get_from_Some checked_add_def split: if_splits)
  let ?n = "m + unat l"
  have n: "?n \<le> length tail" using tok by (simp add: get_range_eq_Some)
  have "parse_token (take ?n tail @ rest) = Ok (tok, rest)" for rest
  proof -
    have "take ?n tail @ rest = take m tail @ (take (unat l) (drop m tail) @ rest)"
      by (simp add: take_add)
    then have "quic_decode_varint (take ?n tail @ rest) = Ok (l, m)" using quic_varint_take [OF l] by metis
    moreover have "get_range (take ?n tail @ rest) m ?n = Some tok"
      using tok get_range_prefix [of ?n ?n tail rest m] n by simp
    moreover have "get_from (take ?n tail @ rest) ?n = Some rest"
      using get_from_append [of "take ?n tail" rest] n by simp
    ultimately show ?thesis by (simp add: parse_token_def map_err_def end')
  qed
  then show ?thesis using that [of ?n] n after by simp
qed

lemma parse_tail_reads:
  assumes "parse_tail t tail = Ok (tok, len_val)"
  obtains n where "case len_val of Some v \<Rightarrow> n + unat v \<le> length tail | None \<Rightarrow> n = 0"
    and "\<And>rest. length rest = length tail - n \<Longrightarrow> parse_tail t (take n tail @ rest) = Ok (tok, len_val)"
proof (cases t)
  case Initial
  with assms obtain tk after v where p: "parse_token tail = Ok (tk, after)" "parse_length after = Ok v"
    "tok = Some tk" "len_val = Some v" by (auto simp: parse_tail_def and_then_Ok)
  from parse_token_reads [OF p(1)] obtain n where n: "n \<le> length tail" "after = drop n tail"
    "\<And>rest. parse_token (take n tail @ rest) = Ok (tk, rest)" by metis
  from parse_length_reads [OF p(2)] obtain m where m: "m + unat v \<le> length after"
    "\<And>rest. length rest = length after - m \<Longrightarrow> parse_length (take m after @ rest) = Ok v" by metis
  show ?thesis
  proof (rule that [of "n + m"])
    show "case len_val of Some v \<Rightarrow> n + m + unat v \<le> length tail | None \<Rightarrow> n + m = 0"
      using n m p by simp
    fix rest :: bytes assume r: "length rest = length tail - (n + m)"
    have "take (n + m) tail @ rest = take n tail @ take m after @ rest" by (simp add: take_add n(2))
    moreover have "parse_length (take m after @ rest) = Ok v" using m(2) r n(2) by simp
    ultimately show "parse_tail t (take (n + m) tail @ rest) = Ok (tok, len_val)"
      using n(3) p Initial by (simp add: parse_tail_def)
  qed
next
  case ZeroRtt
  with assms obtain v where p: "parse_length tail = Ok v" "tok = None" "len_val = Some v"
    by (auto simp: parse_tail_def and_then_Ok)
  from parse_length_reads [OF p(1)] obtain n where "n + unat v \<le> length tail"
    "\<And>rest. length rest = length tail - n \<Longrightarrow> parse_length (take n tail @ rest) = Ok v" by metis
  then show ?thesis using that [of n] p ZeroRtt by (simp add: parse_tail_def)
next
  case Handshake
  with assms obtain v where p: "parse_length tail = Ok v" "tok = None" "len_val = Some v"
    by (auto simp: parse_tail_def and_then_Ok)
  from parse_length_reads [OF p(1)] obtain n where "n + unat v \<le> length tail"
    "\<And>rest. length rest = length tail - n \<Longrightarrow> parse_length (take n tail @ rest) = Ok v" by metis
  then show ?thesis using that [of n] p Handshake by (simp add: parse_tail_def)
qed (use assms that [of 0] in \<open>auto simp: parse_tail_def\<close>)

text \<open>Changing the low nibble of the first byte does not change its form, fixed and type bits.\<close>

lemma high_nibble:
  assumes "(a :: u8) AND 0xF0 = b AND 0xF0"
  shows "a AND 0x40 = b AND 0x40" and "a AND 0x80 = b AND 0x80" and "type_bits a = type_bits b"
proof -
  have *: "a AND m = b AND m" if "0xF0 AND m = m" for m
    by (metis assms that and.assoc)
  show "a AND 0x40 = b AND 0x40" "a AND 0x80 = b AND 0x80" by (rule *, code_simp)+
  have "a AND 0x30 = b AND 0x30" by (rule *) code_simp
  moreover have "drop_bit 4 c AND 0x03 = drop_bit 4 (c AND 0x30)" for c :: u8
    by (simp add: drop_bit_and)
  ultimately have "drop_bit 4 a AND 0x03 = drop_bit 4 b AND 0x03" by metis
  then show "type_bits a = type_bits b" unfolding type_bits_def by simp
qed

text \<open>The parser reads the cleartext part of a packet only. When a packet is parsed, there is a clear prefix,
  which for a short header ends with the connection id, for a packet with a length field leaves at least
  that many bytes, and otherwise ends with the source connection id, such that every packet of the same size
  with that prefix parses to the same header, whatever follows the prefix and whatever the low four bits of
  the first byte are, which header protection masks.\<close>

lemma quic_header_cleartext:
  assumes "parse_public_header pkt k = Ok h"
  shows "\<exists>n. 0 < n \<and> n \<le> length pkt
    \<and> (case h of Short d \<Rightarrow> n = 1 + k
       | Long t ver d s tok (Some v) \<Rightarrow> n + unat v \<le> length pkt
       | Long t ver d s tok None \<Rightarrow> n = 7 + length d + length s)
    \<and> (\<forall>b0 payload. b0 AND 0xF0 = hd pkt AND 0xF0 \<and> length payload = length pkt - n \<longrightarrow>
         parse_public_header (b0 # take (n - 1) (tl pkt) @ payload) k = Ok h)"
proof -
  from assms obtain c r where pkt: "pkt = c # r" and fixed: "c AND 0x40 \<noteq> 0"
    by (cases pkt) (auto simp: parse_public_header_def split: if_splits)
  show ?thesis
  proof (cases "c AND 0x80 = 0")
    case True
    with assms fixed have p: "parse_short pkt k = Ok h" by (simp add: parse_public_header_def pkt)
    then obtain d where d: "h = Short d" "get_range pkt 1 (1 + k) = Some d" "0 < k" "k \<le> MAX_CID_LEN"
      by (auto simp: parse_short_def and_then_Ok ok_or_Ok checked_add_def split: if_splits)
    then have "d = take k r" "k \<le> length r" by (auto simp: get_range_eq_Some pkt)
    then have "parse_short (b0 # take k r @ payload) k = Ok h" for b0 payload
      using d(1,3,4) by (simp add: parse_short_def checked_add_def max_of_def MAX_CID_LEN_def get_range_def)
    then have "parse_public_header (b0 # take k r @ payload) k = Ok h" if "b0 AND 0xF0 = c AND 0xF0" for b0 payload
      using high_nibble [OF that] True fixed by (simp add: parse_public_header_def)
    then show ?thesis using d(1) \<open>k \<le> length r\<close> by (intro exI [of _ "1 + k"]) (simp add: pkt)
  next
    case False
    with assms fixed have p: "parse_long pkt = Ok h" by (simp add: parse_public_header_def pkt)
    from parse_long_sound [OF p] obtain b ver d s rest where w: "pkt = long_wire b ver d s rest"
      and len: "length d \<le> MAX_CID_LEN" "length s \<le> MAX_CID_LEN" by metis
    have b: "b = c" using w pkt by (simp add: long_wire_def)
    let ?n = "7 + length d + length s"
    have plen: "length pkt = ?n + length rest" by (simp add: w long_wire_def)
    obtain m where m: "case h of Long t ver d s tok (Some v) \<Rightarrow> m + unat v \<le> length rest | _ \<Rightarrow> m = 0" "m \<le> length rest"
      and hd: "\<exists>t ver tok v. h = Long t ver d s tok v"
      and same: "\<And>b0 r'. b0 AND 0xF0 = c AND 0xF0 \<Longrightarrow> length r' = length rest - m \<Longrightarrow>
        parse_long (long_wire b0 ver d s (take m rest @ r')) = Ok h"
    proof (cases "ver = 0")
      case True
      then have h: "h = Long VersionNegotiation 0 d s None None" using p by (simp add: w parse_long_wire len)
      show ?thesis by (rule that [of 0]) (simp_all add: h True parse_long_wire len)
    next
      case ver: False
      with p obtain tok v where t: "parse_tail (type_bits c) rest = Ok (tok, v)" "h = Long (type_bits c) ver d s tok v"
        by (auto simp: w b parse_long_wire len and_then_Ok)
      from parse_tail_reads [OF t(1)] obtain m where m: "case v of Some v \<Rightarrow> m + unat v \<le> length rest | None \<Rightarrow> m = 0"
        "\<And>r'. length r' = length rest - m \<Longrightarrow> parse_tail (type_bits c) (take m rest @ r') = Ok (tok, v)" by metis
      show ?thesis
      proof (rule that [of m])
        fix b0 :: u8 and r' :: bytes
        assume b0: "b0 AND 0xF0 = c AND 0xF0" and r': "length r' = length rest - m"
        show "parse_long (long_wire b0 ver d s (take m rest @ r')) = Ok h"
          unfolding parse_long_wire [OF len] high_nibble(3) [OF b0] m(2) [OF r'] using ver t(2) by simp
      qed (use m(1) t(2) in \<open>simp_all split: option.splits\<close>)
    qed
    have wire: "b0 # take (?n + m - 1) (tl pkt) @ payload = long_wire b0 ver d s (take m rest @ payload)" for b0 payload
      by (simp add: w long_wire_def put_u32_def eval_nat_numeral)
    have "parse_public_header (b0 # take (?n + m - 1) (tl pkt) @ payload) k = Ok h"
      if "b0 AND 0xF0 = hd pkt AND 0xF0" "length payload = length pkt - (?n + m)" for b0 payload
    proof -
      have c: "b0 AND 0xF0 = c AND 0xF0" using that(1) by (simp add: pkt)
      have "parse_long (long_wire b0 ver d s (take m rest @ payload)) = Ok h" using same [OF c] that(2) plen by simp
      moreover have "get (long_wire b0 ver d s (take m rest @ payload)) 0 = Some b0" by (simp add: long_wire_def)
      ultimately show ?thesis unfolding wire using high_nibble [OF c] fixed False by (simp add: parse_public_header_def)
    qed
    then show ?thesis using m hd plen
      by (intro exI [of _ "?n + m"]) (auto split: option.splits public_header.splits)
  qed
qed

section \<open>The wire format\<close>

text \<open>A variable-length integer of RFC 9000, section 16: the two high bits of the first byte give the length, the other
  six and the following bytes are the value, most significant first. Any of the four lengths may be chosen.\<close>

definition be_value :: "nat \<Rightarrow> bytes \<Rightarrow> nat" where
  "be_value acc bs = foldl (\<lambda>a b. 256 * a + unat b) acc bs"

fun varint_form :: "bytes \<Rightarrow> u64 \<Rightarrow> bool" where
  "varint_form [] n \<longleftrightarrow> False"
| "varint_form (b # bs) n \<longleftrightarrow> length (b # bs) = 2 ^ (unat b div 64) \<and> unat n = be_value (unat b mod 64) bs"

text \<open>The packets of each form with the header they carry (RFC 9000, sections 17.2 and 17.3), the fixed bit set and
  every other bit of the first byte that is not a type bit free. The connection id of a short header has the
  length \<open>k\<close> the receiver knows, which is not zero here.\<close>

inductive packet_form :: "nat \<Rightarrow> bytes \<Rightarrow> public_header \<Rightarrow> bool" where
  short: "b0 AND 0xC0 = 0x40 \<Longrightarrow> length d = k \<Longrightarrow> 0 < k \<Longrightarrow> k \<le> 20 \<Longrightarrow> packet_form k (b0 # d @ payload) (Short d)"
| version_negotiation: "b0 AND 0xC0 = 0xC0 \<Longrightarrow> length d \<le> 20 \<Longrightarrow> length s \<le> 20
    \<Longrightarrow> packet_form k (long_wire b0 0 d s payload) (Long VersionNegotiation 0 d s None None)"
| initial: "b0 AND 0xF0 = 0xC0 \<Longrightarrow> ver \<noteq> 0 \<Longrightarrow> length d \<le> 20 \<Longrightarrow> length s \<le> 20
    \<Longrightarrow> varint_form tw (of_nat (length tok)) \<Longrightarrow> length tok < 2 ^ 62 \<Longrightarrow> varint_form lw v \<Longrightarrow> unat v \<le> length payload
    \<Longrightarrow> packet_form k (long_wire b0 ver d s (tw @ tok @ lw @ payload)) (Long Initial ver d s (Some tok) (Some v))"
| zero_rtt: "b0 AND 0xF0 = 0xD0 \<Longrightarrow> ver \<noteq> 0 \<Longrightarrow> length d \<le> 20 \<Longrightarrow> length s \<le> 20
    \<Longrightarrow> varint_form lw v \<Longrightarrow> unat v \<le> length payload
    \<Longrightarrow> packet_form k (long_wire b0 ver d s (lw @ payload)) (Long ZeroRtt ver d s None (Some v))"
| handshake: "b0 AND 0xF0 = 0xE0 \<Longrightarrow> ver \<noteq> 0 \<Longrightarrow> length d \<le> 20 \<Longrightarrow> length s \<le> 20
    \<Longrightarrow> varint_form lw v \<Longrightarrow> unat v \<le> length payload
    \<Longrightarrow> packet_form k (long_wire b0 ver d s (lw @ payload)) (Long Handshake ver d s None (Some v))"
| retry: "b0 AND 0xF0 = 0xF0 \<Longrightarrow> ver \<noteq> 0 \<Longrightarrow> length d \<le> 20 \<Longrightarrow> length s \<le> 20
    \<Longrightarrow> packet_form k (long_wire b0 ver d s payload) (Long RetryPacket ver d s None None)"

section \<open>Integers of every length\<close>

lemma be_value_simps: "be_value a [] = a" "be_value a (b # bs) = be_value (256 * a + unat b) bs"
  by (simp_all add: be_value_def)

lemma be_value_bound: "a < c \<Longrightarrow> be_value a bs < c * 256 ^ length bs"
proof (induction bs arbitrary: a c)
  case (Cons b bs)
  have "256 * a + unat b < 256 * c" using Cons.prems u8_le [of b] by simp
  from Cons.IH [OF this] show ?case by (simp add: be_value_simps ac_simps)
qed (simp add: be_value_simps)

lemma unat_ucast_u64: "unat (ucast (b :: u8) :: u64) = unat b"
  by (simp add: unsigned_ucast_eq take_bit_nat_eq_self le_less_trans [OF u8_le])

lemma unat_shift_in:
  assumes "unat (v :: u64) < 2 ^ 56"
  shows "unat (push_bit 8 v OR ucast (b :: u8)) = 256 * unat v + unat b"
proof -
  have b: "unat b < 256" by (rule le_less_trans [OF u8_le]) simp
  have "push_bit 8 v AND ucast b = 0"
    by (rule bit_eqI) (auto simp: bit_simps dest: bit_imp_le_length)
  then have "push_bit 8 v OR ucast b = 256 * v + ucast b"
    by (simp add: disjunctive_add_eq_or [symmetric] push_bit_eq_mult mult.commute)
  moreover have "unat (256 * v + ucast b) = 256 * unat v + unat b"
  proof -
    have "unat (256 * v) = 256 * unat v" using assms by (simp add: unat_word_ariths)
    moreover have "unat (ucast b :: u64) = unat b" by (rule unat_ucast_u64)
    moreover have "256 * unat v + 256 \<le> 2 ^ 64" using assms by simp
    then have "256 * unat v + unat b < 2 ^ 64" using b by linarith
    ultimately show ?thesis by (simp add: unat_word_ariths)
  qed
  ultimately show ?thesis by simp
qed

lemma quic_varint_loop_value:
  assumes "drop i (take len buf) = bs" and "i + length bs = len" and "len \<le> length buf"
    and "(unat val + 1) * 256 ^ length bs \<le> 2 ^ 64"
  shows "\<exists>v. quic_varint_loop len buf [i..<len] val = Ok v \<and> unat v = be_value (unat val) bs"
  using assms
proof (induction bs arbitrary: i val)
  case Nil
  then show ?case by (simp add: be_value_simps)
next
  case (Cons b bs)
  have i: "i < len" using Cons.prems(2) by simp
  have "drop i (take len buf) = take len buf ! i # drop (Suc i) (take len buf)"
    using i Cons.prems(3) by (intro Cons_nth_drop_Suc [symmetric]) simp
  then have get: "get buf i = Some b" and rest: "drop (Suc i) (take len buf) = bs"
    using Cons.prems(1,3) i by (simp_all add: get_in)
  have room: "(unat val + 1) * 256 * 256 ^ length bs \<le> 2 ^ 64"
    using Cons.prems(4) by (simp only: list.size power_Suc mult.assoc add_Suc_right add_0_right)
  have "(unat val + 1) * 256 * 1 \<le> (unat val + 1) * 256 * 256 ^ length bs" by (intro mult_le_mono2) simp
  from le_trans [OF this room] have small: "unat val < 2 ^ 56" by simp
  note step = unat_shift_in [OF this, of b]
  have "(unat (push_bit 8 val OR ucast b) + 1) * 256 ^ length bs \<le> (unat val + 1) * 256 * 256 ^ length bs"
    using u8_le [of b] by (intro mult_le_mono1) (simp add: step)
  from le_trans [OF this room] have "(unat (push_bit 8 val OR ucast b) + 1) * 256 ^ length bs \<le> 2 ^ 64" .
  from Cons.IH [OF rest _ Cons.prems(3) this] Cons.prems(2) i show ?case
    by (simp add: upt_conv_Cons get step be_value_simps)
qed

lemma first_byte_split: "unat (drop_bit 6 (b :: u8)) = unat b div 64" "unat (ucast (b AND 0x3F) :: u64) = unat b mod 64"
proof -
  show "unat (drop_bit 6 b) = unat b div 64" by (simp add: drop_bit_eq_div unat_div)
  have "b AND 0x3F = take_bit 6 b" by (simp add: take_bit_eq_mask mask_eq_exp_minus_1)
  then show "unat (ucast (b AND 0x3F) :: u64) = unat b mod 64" by (simp add: unat_ucast_u64 unsigned_take_bit_eq take_bit_eq_mod unat_mod)
qed

lemma quic_varint_run:
  assumes "buf = b # bs" and len: "len = 2 ^ (unat b div 64)" and "len \<le> length buf"
  shows "\<exists>v. quic_decode_varint buf = Ok (v, len) \<and> unat v = be_value (unat b mod 64) (take (len - 1) bs)"
proof -
  have "unat b div 64 \<le> 3" using u8_le [of b] by simp
  then have "len \<le> 2 ^ 3" unfolding len by (rule power_increasing) simp
  then have l8: "1 \<le> len" "len \<le> 8" by (simp_all add: len)
  have "(256 :: nat) ^ (len - 1) \<le> 256 ^ 7" using l8 by (intro power_increasing) simp_all
  then have "(unat b mod 64 + 1) * 256 ^ (len - 1) \<le> 64 * 256 ^ 7" by (intro mult_le_mono) simp_all
  moreover have "length (take (len - 1) bs) = len - 1" using assms(1,3) l8 by simp
  ultimately have "\<exists>v. quic_varint_loop len buf [1..<len] (ucast (b AND 0x3F)) = Ok v
      \<and> unat v = be_value (unat (ucast (b AND 0x3F) :: u64)) (take (len - 1) bs)"
    using assms(1,3) l8 by (intro quic_varint_loop_value) (simp_all add: first_byte_split take_Cons')
  moreover have "push_bit (unat (drop_bit 6 b)) (1 :: nat) = len" by (simp add: first_byte_split push_bit_eq_mult len)
  ultimately show ?thesis using assms(1,3) by (auto simp: quic_decode_varint_def first_byte_split Let_def)
qed

lemma quic_varint_exact:
  "quic_decode_varint buf = Ok (n, m) \<longleftrightarrow> m \<le> length buf \<and> varint_form (take m buf) n"
proof (cases buf)
  case Nil
  then show ?thesis by (simp add: quic_decode_varint_def)
next
  case (Cons b bs)
  let ?len = "2 ^ (unat b div 64) :: nat"
  have form: "m \<le> length buf \<and> varint_form (take m buf) n \<longleftrightarrow>
      m = ?len \<and> ?len \<le> length buf \<and> unat n = be_value (unat b mod 64) (take (m - 1) bs)"
    by (cases m) (auto simp: Cons)
  show ?thesis
  proof (cases "?len \<le> length buf")
    case True
    from quic_varint_run [OF Cons refl this] obtain v
      where "quic_decode_varint buf = Ok (v, ?len)" "unat v = be_value (unat b mod 64) (take (?len - 1) bs)" by blast
    then show ?thesis unfolding form using True by (auto simp: word_unat_eq_iff)
  next
    case False
    then show ?thesis unfolding form by (simp add: Cons quic_decode_varint_def first_byte_split push_bit_eq_mult)
  qed
qed

lemma varint_form_bound: "varint_form w v \<Longrightarrow> unat v < 2 ^ 62 \<and> 0 < length w \<and> length w \<le> 8"
proof (cases w)
  case (Cons b bs)
  assume "varint_form w v"
  then have f: "length w = 2 ^ (unat b div 64)" "unat v = be_value (unat b mod 64) bs" by (simp_all add: Cons)
  have "unat b div 64 \<le> 3" using u8_le [of b] by simp
  then have "length w \<le> 2 ^ 3" unfolding f(1) by (rule power_increasing) simp
  then have l: "length bs \<le> 7" "length w \<le> 8" by (simp_all add: Cons)
  have "unat v < 64 * 256 ^ length bs" unfolding f(2) by (rule be_value_bound) simp
  also have "\<dots> \<le> 64 * 256 ^ 7" using l by (intro mult_le_mono2 power_increasing) simp_all
  finally show ?thesis using l by (simp add: Cons)
qed simp

lemma quic_varint_append: "varint_form w v \<Longrightarrow> quic_decode_varint (w @ rest) = Ok (v, length w)"
  by (simp add: quic_varint_exact)

lemma quic_varint_split:
  assumes "quic_decode_varint buf = Ok (v, n)"
  obtains w where "buf = w @ drop n buf" "length w = n" "varint_form w v"
  using assms that [of "take n buf"] by (simp add: quic_varint_exact)

section \<open>Every packet is read as the wire format says\<close>

lemma parse_length_exact:
  "parse_length tail = Ok v \<longleftrightarrow> (\<exists>w payload. tail = w @ payload \<and> varint_form w v \<and> unat v \<le> length payload)"
proof
  assume "parse_length tail = Ok v"
  then obtain n where n: "quic_decode_varint tail = Ok (v, n)" "unat v \<le> length tail - n"
    by (auto simp: parse_length_def and_then_Ok map_err_Ok get_from_def Let_def split: if_splits)
  from quic_varint_split [OF n(1)] n(2) show "\<exists>w payload. tail = w @ payload \<and> varint_form w v \<and> unat v \<le> length payload"
    by (metis length_drop)
qed (auto simp: parse_length_def quic_varint_append map_err_def get_from_append)

lemma parse_token_exact:
  "parse_token tail = Ok (tok, rest) \<longleftrightarrow>
     (\<exists>w. tail = w @ tok @ rest \<and> varint_form w (of_nat (length tok)) \<and> length tok < 2 ^ 62)"
proof
  assume "parse_token tail = Ok (tok, rest)"
  then obtain l m where l: "quic_decode_varint tail = Ok (l, m)"
    and tok: "get_range tail m (m + unat l) = Some tok" and rest: "rest = drop (m + unat l) tail"
    by (auto simp: parse_token_def and_then_Ok ok_or_Ok map_err_Ok get_from_Some checked_add_def split: if_splits)
  from quic_varint_split [OF l] obtain w where w: "tail = w @ drop m tail" "length w = m" "varint_form w l" .
  have len: "length tok = unat l" and "drop m tail = tok @ rest"
    using tok by (auto simp: get_range_eq_Some rest drop_drop [symmetric] add.commute [of m] simp del: drop_drop)
  with w show "\<exists>w. tail = w @ tok @ rest \<and> varint_form w (of_nat (length tok)) \<and> length tok < 2 ^ 62"
    using varint_form_bound [OF w(3)] by (intro exI [of _ w]) simp
next
  assume "\<exists>w. tail = w @ tok @ rest \<and> varint_form w (of_nat (length tok)) \<and> length tok < 2 ^ 62"
  then obtain w where w: "tail = w @ tok @ rest" "varint_form w (of_nat (length tok))" "length tok < 2 ^ 62" by blast
  have n: "unat (of_nat (length tok) :: u64) = length tok" using w(3) by (simp add: unat_of_nat)
  have "checked_add 64 (length w) (length tok) = Some (length w + length tok)"
    using w(3) varint_form_bound [OF w(2)] by (simp add: checked_add_def max_of_def)
  moreover have "get_from (w @ tok @ rest) (length w + length tok) = Some rest"
    using get_from_append [of "w @ tok" rest] by simp
  ultimately show "parse_token tail = Ok (tok, rest)"
    using n by (simp add: w(1) parse_token_def quic_varint_append [OF w(2)] map_err_def range_append)
qed

lemma first_byte_cases:
  fixes b :: u8
  shows "b AND 0x40 \<noteq> 0 \<and> b AND 0x80 = 0 \<longleftrightarrow> b AND 0xC0 = 0x40"
    and "b AND 0x40 \<noteq> 0 \<and> b AND 0x80 \<noteq> 0 \<longleftrightarrow> b AND 0xC0 = 0xC0"
    and "b AND 0xC0 = 0xC0 \<and> type_bits b = t \<longleftrightarrow>
      b AND 0xF0 = (case t of Initial \<Rightarrow> 0xC0 | ZeroRtt \<Rightarrow> 0xD0 | Handshake \<Rightarrow> 0xE0 | RetryPacket \<Rightarrow> 0xF0 | VersionNegotiation \<Rightarrow> 1)"
proof -
  have "\<forall>n \<in> set [0..<256]. let b = of_nat n :: u8 in
      (b AND 0x40 \<noteq> 0 \<and> b AND 0x80 = 0 \<longleftrightarrow> b AND 0xC0 = 0x40) \<and> (b AND 0x40 \<noteq> 0 \<and> b AND 0x80 \<noteq> 0 \<longleftrightarrow> b AND 0xC0 = 0xC0)
      \<and> (\<forall>t \<in> set [Initial, ZeroRtt, Handshake, RetryPacket, VersionNegotiation]. b AND 0xC0 = 0xC0 \<and> type_bits b = t \<longleftrightarrow>
          b AND 0xF0 = (case t of Initial \<Rightarrow> 0xC0 | ZeroRtt \<Rightarrow> 0xD0 | Handshake \<Rightarrow> 0xE0 | RetryPacket \<Rightarrow> 0xF0 | VersionNegotiation \<Rightarrow> 1))"
    by code_simp
  moreover have "unat b \<in> set [0..<256]" using u8_le [of b] by simp
  moreover have "t \<in> set [Initial, ZeroRtt, Handshake, RetryPacket, VersionNegotiation]" by (cases t) simp_all
  moreover have "of_nat (unat b) = b" by simp
  ultimately show "b AND 0x40 \<noteq> 0 \<and> b AND 0x80 = 0 \<longleftrightarrow> b AND 0xC0 = 0x40"
    "b AND 0x40 \<noteq> 0 \<and> b AND 0x80 \<noteq> 0 \<longleftrightarrow> b AND 0xC0 = 0xC0"
    "b AND 0xC0 = 0xC0 \<and> type_bits b = t \<longleftrightarrow>
      b AND 0xF0 = (case t of Initial \<Rightarrow> 0xC0 | ZeroRtt \<Rightarrow> 0xD0 | Handshake \<Rightarrow> 0xE0 | RetryPacket \<Rightarrow> 0xF0 | VersionNegotiation \<Rightarrow> 1)"
    by metis+
qed

lemma parse_public_header_split:
  "parse_public_header pkt k = Ok h \<longleftrightarrow> (\<exists>b0 r. pkt = b0 # r
     \<and> (b0 AND 0xC0 = 0x40 \<and> parse_short pkt k = Ok h \<or> b0 AND 0xC0 = 0xC0 \<and> parse_long pkt = Ok h))"
  using first_byte_cases(1,2) by (cases pkt) (auto simp: parse_public_header_def)

lemma parse_short_exact:
  "parse_short (b0 # r) k = Ok h \<longleftrightarrow> (\<exists>d payload. r = d @ payload \<and> length d = k \<and> 0 < k \<and> k \<le> 20 \<and> h = Short d)"
proof
  assume "parse_short (b0 # r) k = Ok h"
  then have "h = Short (take k r)" "k \<le> length r" "0 < k" "k \<le> 20"
    by (auto simp: parse_short_def and_then_Ok ok_or_Ok checked_add_def MAX_CID_LEN_def get_range_eq_Some split: if_splits)
  then show "\<exists>d payload. r = d @ payload \<and> length d = k \<and> 0 < k \<and> k \<le> 20 \<and> h = Short d"
    by (intro exI [of _ "take k r"] exI [of _ "drop k r"]) simp
qed (auto simp: parse_short_def checked_add_def max_of_def MAX_CID_LEN_def get_range_def)

lemma parse_tail_exact:
  "parse_tail t tail = Ok (tok, len_val) \<longleftrightarrow>
     (case t of
        Initial \<Rightarrow> (\<exists>tw tk lw v payload. tail = tw @ tk @ lw @ payload \<and> tok = Some tk \<and> len_val = Some v
          \<and> varint_form tw (of_nat (length tk)) \<and> length tk < 2 ^ 62 \<and> varint_form lw v \<and> unat v \<le> length payload)
      | ZeroRtt \<Rightarrow> (\<exists>lw v payload. tail = lw @ payload \<and> tok = None \<and> len_val = Some v \<and> varint_form lw v \<and> unat v \<le> length payload)
      | Handshake \<Rightarrow> (\<exists>lw v payload. tail = lw @ payload \<and> tok = None \<and> len_val = Some v \<and> varint_form lw v \<and> unat v \<le> length payload)
      | _ \<Rightarrow> tok = None \<and> len_val = None)"
  by (cases t) (auto simp: parse_tail_def and_then_Ok parse_token_exact parse_length_exact; blast)+

lemma type_bits_not_version: "type_bits b \<noteq> VersionNegotiation"
  by (simp add: type_bits_def Let_def)

lemma packet_form_long:
  assumes "b0 AND 0xC0 = 0xC0" "length d \<le> 20" "length s \<le> 20" "ver \<noteq> 0" "parse_tail (type_bits b0) rest = Ok (tok, v)"
  shows "packet_form k (long_wire b0 ver d s rest) (Long (type_bits b0) ver d s tok v)"
proof -
  note b = first_byte_cases(3) [of b0 "type_bits b0"]
  show ?thesis
  proof (cases "type_bits b0")
    case Initial
    with assms b show ?thesis by (auto simp: parse_tail_exact intro: packet_form.initial)
  next
    case ZeroRtt
    with assms b show ?thesis by (auto simp: parse_tail_exact intro: packet_form.zero_rtt)
  next
    case Handshake
    with assms b show ?thesis by (auto simp: parse_tail_exact intro: packet_form.handshake)
  next
    case RetryPacket
    with assms b show ?thesis by (auto simp: parse_tail_exact intro: packet_form.retry)
  qed (simp add: type_bits_not_version)
qed

lemma parse_long_typed:
  assumes "b0 AND 0xF0 = (case t of Initial \<Rightarrow> 0xC0 | ZeroRtt \<Rightarrow> 0xD0 | Handshake \<Rightarrow> 0xE0 | RetryPacket \<Rightarrow> 0xF0 | VersionNegotiation \<Rightarrow> 1)"
    and "ver \<noteq> 0" and "length d \<le> 20" and "length s \<le> 20" and "parse_tail t rest = Ok (tok, v)"
  shows "parse_public_header (long_wire b0 ver d s rest) k = Ok (Long t ver d s tok v)"
proof -
  have "b0 AND 0xC0 = 0xC0" "type_bits b0 = t" using assms(1) first_byte_cases(3) [of b0 t] by simp_all
  with assms(2-5) parse_long_wire [of d s b0 ver rest] show ?thesis
    unfolding parse_public_header_split by (simp add: MAX_CID_LEN_def long_wire_def)
qed

text \<open>C29. The parser of public headers is exact, for every byte string and every known id length: it returns a header
  if and only if the packet is one of RFC 9000 that carries this header, with the fixed bit set, connection ids of at
  most 20 bytes (for a short header: of the known length, which is not zero) and a length field that the rest of the
  packet covers. Header-protected and unused bits are free, variable-length integers may have any of their four
  lengths, and whatever follows the header is not looked at; in version negotiation and Retry packets that is
  everything behind the connection ids.\<close>

theorem quic_header_exact:
  "parse_public_header pkt k = Ok h \<longleftrightarrow> packet_form k pkt h"
proof
  assume "parse_public_header pkt k = Ok h"
  then obtain b0 r where pkt: "pkt = b0 # r"
    and "b0 AND 0xC0 = 0x40 \<and> parse_short pkt k = Ok h \<or> b0 AND 0xC0 = 0xC0 \<and> parse_long pkt = Ok h"
    unfolding parse_public_header_split by blast
  then show "packet_form k pkt h"
  proof (elim disjE conjE)
    assume "b0 AND 0xC0 = 0x40" "parse_short pkt k = Ok h"
    then show ?thesis by (auto simp: pkt parse_short_exact intro: packet_form.short)
  next
    assume b0: "b0 AND 0xC0 = 0xC0" and p: "parse_long pkt = Ok h"
    from parse_long_sound [OF p] obtain b ver d s rest where w: "pkt = long_wire b ver d s rest"
      and len: "length d \<le> MAX_CID_LEN" "length s \<le> MAX_CID_LEN" by metis
    have b: "b = b0" using w pkt by (simp add: long_wire_def)
    have l20: "length d \<le> 20" "length s \<le> 20" using len by (simp_all add: MAX_CID_LEN_def)
    show ?thesis
    proof (cases "ver = 0")
      case True
      with p b0 b l20 show ?thesis by (auto simp: w parse_long_wire len intro: packet_form.version_negotiation)
    next
      case False
      with p b0 b l20 show ?thesis by (auto simp: w parse_long_wire len and_then_Ok intro: packet_form_long)
    qed
  qed
next
  assume "packet_form k pkt h"
  then show "parse_public_header pkt k = Ok h"
  proof cases
    case (short b0 d payload)
    then show ?thesis unfolding parse_public_header_split by (auto simp: parse_short_exact)
  next
    case (version_negotiation b0 d s payload)
    then show ?thesis unfolding parse_public_header_split
      by (simp add: parse_long_wire MAX_CID_LEN_def) (simp add: long_wire_def)
  next
    case (initial b0 ver d s tw tok lw v payload)
    then have "parse_tail Initial (tw @ tok @ lw @ payload) = Ok (Some tok, Some v)" by (auto simp: parse_tail_exact)
    with initial parse_long_typed [of b0 Initial] show ?thesis by simp
  next
    case (zero_rtt b0 ver d s lw v payload)
    then have "parse_tail ZeroRtt (lw @ payload) = Ok (None, Some v)" by (auto simp: parse_tail_exact)
    with zero_rtt parse_long_typed [of b0 ZeroRtt] show ?thesis by simp
  next
    case (handshake b0 ver d s lw v payload)
    then have "parse_tail Handshake (lw @ payload) = Ok (None, Some v)" by (auto simp: parse_tail_exact)
    with handshake parse_long_typed [of b0 Handshake] show ?thesis by simp
  next
    case (retry b0 ver d s payload)
    with parse_long_typed [of b0 RetryPacket] show ?thesis by (simp add: parse_tail_exact)
  qed
qed

end
