(* ===== verification/Authority.thy ===== *)
theory Authority
  imports Smuggle
begin

text \<open>
  Authority values: the byte-level predicate every inbound parser runs (\<open>lb-core/src/authority.rs\<close>), the
  wrapper that runs it on both candidates of a request (\<open>lb-l7/src/authority.rs\<close>), and the two
  comparisons between what a client asks for at different layers: \<open>:authority\<close> against \<open>Host\<close>
  (\<open>lb-l7/src/h2_proxy.rs\<close>, repeated in \<open>h2_to_h1.rs\<close>) and the TLS server name against either
  (\<open>lb-l7/src/sni_authority.rs\<close>). The URI and header types of the \<open>http\<close> crate are read through the two
  strings the code takes from them.
\<close>

section \<open>Searching from the right\<close>

text \<open>\<open>str::rfind\<close> and \<open>str::rsplit_once\<close> on one character, \<open>str::strip_prefix\<close> and
  \<open>str::trim_end_matches\<close>.\<close>

fun rfind_char :: "char \<Rightarrow> string \<Rightarrow> nat option" where
  "rfind_char c [] = None"
| "rfind_char c (d # s) =
     (case rfind_char c s of Some i \<Rightarrow> Some (Suc i) | None \<Rightarrow> if c = d then Some 0 else None)"

definition rsplit_once :: "char \<Rightarrow> string \<Rightarrow> (string \<times> string) option" where
  "rsplit_once c s = map_option (\<lambda>i. (take i s, drop (i + 1) s)) (rfind_char c s)"

fun strip_prefix_char :: "char \<Rightarrow> string \<Rightarrow> string option" where
  "strip_prefix_char c [] = None"
| "strip_prefix_char c (d # s) = (if c = d then Some s else None)"

definition trim_end_matches :: "char \<Rightarrow> string \<Rightarrow> string" where
  "trim_end_matches c s = rev (dropWhile (\<lambda>d. d = c) (rev s))"

lemma rfind_char_None: "rfind_char c s = None \<longleftrightarrow> c \<notin> set s"
  by (induction s) (auto split: option.splits)

lemma rfind_char_append: "c \<notin> set t \<Longrightarrow> rfind_char c (s @ c # t) = Some (length s)"
proof (induction s)
  case Nil
  then show ?case using rfind_char_None [of c t] by simp
qed simp

lemma rfind_char_Some:
  assumes "rfind_char c s = Some i"
  obtains t u where "s = t @ c # u" "c \<notin> set u" "length t = i"
proof -
  have "c \<in> set s" using assms rfind_char_None [of c s] by auto
  then obtain t u where "s = t @ c # u" "c \<notin> set u" by (meson split_list_last)
  then show thesis using that rfind_char_append [of c u t] assms by simp
qed

lemma rsplit_once_append: "c \<notin> set t \<Longrightarrow> rsplit_once c (s @ c # t) = Some (s, t)"
  by (simp add: rsplit_once_def rfind_char_append)

lemma rsplit_once_None: "rsplit_once c s = None \<longleftrightarrow> c \<notin> set s"
  by (simp add: rsplit_once_def rfind_char_None)

lemma rsplit_once_Some: "rsplit_once c s = Some (t, u) \<longleftrightarrow> s = t @ c # u \<and> c \<notin> set u"
proof
  assume "rsplit_once c s = Some (t, u)"
  then obtain i where i: "rfind_char c s = Some i" "t = take i s" "u = drop (i + 1) s"
    by (auto simp: rsplit_once_def)
  from i(1) show "s = t @ c # u \<and> c \<notin> set u"
    by (elim rfind_char_Some) (use i(2,3) in auto)
qed (simp add: rsplit_once_append)

lemma strip_prefix_char_Some: "strip_prefix_char c s = Some t \<longleftrightarrow> s = c # t"
  by (cases s) auto

section \<open>The predicate\<close>

datatype authority_error = Empty | Comma | Whitespace | Control | UnbalancedBrackets | InvalidPort

definition is_ascii_digit :: "char \<Rightarrow> bool" where
  "is_ascii_digit c \<longleftrightarrow> 48 \<le> (of_char c :: int) \<and> (of_char c :: int) \<le> 57"

fun scan_bytes :: "string \<Rightarrow> (unit, authority_error) result" where
  "scan_bytes [] = Ok ()"
| "scan_bytes (b # bs) =
     (if b = CHR '','' then Err Comma
      else if b = CHR '' '' \<or> b = CHR 0x09 then Err Whitespace
      else if (of_char b :: int) \<le> 0x1F \<or> b = CHR 0x7F then Err Control
      else scan_bytes bs)"

definition port_suffix :: "string \<Rightarrow> string option" where
  "port_suffix v =
     (case rfind_char (CHR '']'') v of
        Some rb \<Rightarrow> (case get_from v (rb + 1) of None \<Rightarrow> None | Some after \<Rightarrow> strip_prefix_char (CHR '':'') after)
      | None \<Rightarrow>
          if count_list v (CHR '':'') \<noteq> 1 then None
          else case rfind_char (CHR '':'') v of None \<Rightarrow> None | Some colon \<Rightarrow> get_from v (colon + 1))"

definition validate :: "string \<Rightarrow> (unit, authority_error) result" where
  "validate v =
     (if v = [] then Err Empty
      else and_then (scan_bytes v) (\<lambda>_.
        let opens = count_list v (CHR ''[''); closes = count_list v (CHR '']'') in
        if opens \<noteq> closes \<or> opens > 1 then Err UnbalancedBrackets
        else case port_suffix v of
          None \<Rightarrow> Ok ()
        | Some port_part \<Rightarrow>
            if port_part = [] then Err InvalidPort
            else if \<not> list_all is_ascii_digit port_part then Err InvalidPort
            else Ok ()))"

text \<open>\<open>validate_request\<close> reads the authority of the URI and the \<open>Host\<close> header, each of them absent or a
  string, and reports the first value that fails.\<close>

fun validate_candidates :: "string list \<Rightarrow> (unit, string \<times> authority_error) result" where
  "validate_candidates [] = Ok ()"
| "validate_candidates (c # cs) =
     (case validate c of Inl err \<Rightarrow> Err (c, err) | Inr _ \<Rightarrow> validate_candidates cs)"

definition validate_request :: "string option \<Rightarrow> string option \<Rightarrow> (unit, string \<times> authority_error) result" where
  "validate_request uri_authority host =
     validate_candidates (filter (\<lambda>s. s \<noteq> []) (List.map_filter (\<lambda>x. x) [uri_authority, host]))"

section \<open>Agreement between the layers\<close>

definition split_host_port :: "string \<Rightarrow> string \<times> string option" where
  "split_host_port s =
     (case strip_prefix_char (CHR ''['') s of
        Some stripped \<Rightarrow>
          (case find_char (CHR '']'') stripped of
             Some end' \<Rightarrow>
               let port = strip_prefix_char (CHR '':'') (drop (end' + 2) s)
               in (take (end' + 2) s, case port of Some p \<Rightarrow> if p = [] then None else Some p | None \<Rightarrow> None)
           | None \<Rightarrow> (s, None))
      | None \<Rightarrow>
          (case rsplit_once (CHR '':'') s of
             Some (h, p) \<Rightarrow> if p \<noteq> [] \<and> list_all is_ascii_digit p then (h, Some p) else (s, None)
           | None \<Rightarrow> (s, None)))"

definition authority_matches_host :: "string \<Rightarrow> string \<Rightarrow> bool" where
  "authority_matches_host authority host =
     (let (a_host, a_port) = split_host_port authority;
          (h_host, h_port) = split_host_port host
      in if a_host = [] \<or> h_host = [] then False
         else if \<not> eq_ignore_ascii_case a_host h_host then False
         else case (a_port, h_port) of (Some ap, Some hp) \<Rightarrow> ap = hp | _ \<Rightarrow> True)"

definition check_authority_host_agreement :: "string option \<Rightarrow> string option \<Rightarrow> (unit, string) result" where
  "check_authority_host_agreement authority host_hdr =
     (case (authority, host_hdr) of
        (Some a, Some h) \<Rightarrow>
          if authority_matches_host a h then Ok ()
          else Err (''Bad Request: :authority disagrees with Host (RFC 9113 '' @ [CHR 0xC2, CHR 0xA7] @ ''8.3.1)'')
      | _ \<Rightarrow> Ok ())"

record sni_mismatch =
  sni :: string
  sm_authority :: string

definition normalise_host :: "string \<Rightarrow> string" where
  "normalise_host s = to_ascii_lowercase (trim_end_matches (CHR ''.'') s)"

definition check_sni_authority :: "string option \<Rightarrow> string \<Rightarrow> (unit, sni_mismatch) result" where
  "check_sni_authority sni_opt authority =
     (case sni_opt of
        None \<Rightarrow> Ok ()
      | Some s \<Rightarrow>
          if authority = [] then Ok ()
          else
            let sni_norm = normalise_host s;
                auth_norm = normalise_host (fst (split_host_port authority))
            in if eq_ignore_ascii_case sni_norm auth_norm then Ok ()
               else Err \<lparr>sni = s, sm_authority = authority\<rparr>)"

section \<open>What is accepted\<close>

definition authority_byte :: "char \<Rightarrow> bool" where
  "authority_byte c \<longleftrightarrow> (of_char c :: int) > 0x20 \<and> c \<noteq> CHR '','' \<and> c \<noteq> CHR 0x7F"

definition port_number :: "string \<Rightarrow> bool" where
  "port_number p \<longleftrightarrow> p \<noteq> [] \<and> list_all is_ascii_digit p"

text \<open>The shapes of an accepted value: without brackets, a name, a name with a port, or text with several
  colons; with one pair of brackets, what follows the closing one is free unless it starts with a colon.\<close>

inductive authority_shape :: "string \<Rightarrow> bool" where
  name: "CHR '':'' \<notin> set h \<Longrightarrow> CHR ''['' \<notin> set h \<Longrightarrow> CHR '']'' \<notin> set h \<Longrightarrow> authority_shape h"
| name_port: "CHR '':'' \<notin> set h \<Longrightarrow> CHR ''['' \<notin> set h \<Longrightarrow> CHR '']'' \<notin> set h \<Longrightarrow> port_number p
    \<Longrightarrow> authority_shape (h @ CHR '':'' # p)"
| colons: "CHR ''['' \<notin> set h \<Longrightarrow> CHR '']'' \<notin> set h \<Longrightarrow> 2 \<le> count_list h (CHR '':'') \<Longrightarrow> authority_shape h"
| bracketed: "count_list (h @ t) (CHR ''['') = 1 \<Longrightarrow> CHR '']'' \<notin> set (h @ t) \<Longrightarrow> take 1 t \<noteq> '':''
    \<Longrightarrow> authority_shape (h @ CHR '']'' # t)"
| bracketed_port: "count_list h (CHR ''['') = 1 \<Longrightarrow> CHR '']'' \<notin> set h \<Longrightarrow> port_number p
    \<Longrightarrow> authority_shape (h @ CHR '']'' # CHR '':'' # p)"

lemma scan_bytes_Ok: "scan_bytes v = Ok () \<longleftrightarrow> list_all authority_byte v"
proof (induction v)
  case (Cons c v)
  have "(of_char c :: int) = 0x20 \<longleftrightarrow> c = CHR '' ''"
    using of_char_eq_iff [of c "CHR '' ''", where ?'a = int] by simp
  then show ?case using Cons by (auto simp: authority_byte_def)
qed simp

lemma port_check:
  "(case port of None \<Rightarrow> Ok () | Some p \<Rightarrow> if p = [] then Err InvalidPort
     else if \<not> list_all is_ascii_digit p then Err InvalidPort else Ok ()) = Ok ()
   \<longleftrightarrow> (\<forall>p. port = Some p \<longrightarrow> port_number p)"
  by (auto simp: port_number_def split: option.splits)

lemma port_suffix_bracketed:
  assumes "CHR '']'' \<notin> set t"
  shows "port_suffix (h @ CHR '']'' # t) = strip_prefix_char (CHR '':'') t"
  using assms get_from_append [of "h @ '']''" t] by (simp add: port_suffix_def rfind_char_append)

lemma port_suffix_plain:
  assumes "CHR '']'' \<notin> set v"
  shows "port_suffix v = (if count_list v (CHR '':'') = 1 then map_option snd (rsplit_once (CHR '':'') v) else None)"
proof -
  have "rfind_char (CHR '']'') v = None" using assms by (simp add: rfind_char_None)
  moreover have "get_from v (i + 1) = Some (drop (i + 1) v)" if "rfind_char c v = Some i" for c i
    using that by (elim rfind_char_Some) (simp add: get_from_def)
  ultimately show ?thesis
    by (auto simp: port_suffix_def rsplit_once_def split: option.split)
qed

lemma count_list_1:
  assumes "count_list v c = 1"
  obtains h t where "v = h @ c # t" "c \<notin> set h" "c \<notin> set t"
proof -
  have "c \<in> set v" using assms count_list_0_iff [of v c] by force
  then obtain h t where "v = h @ c # t" "c \<notin> set h" by (meson split_list_first)
  then show thesis using that assms by (simp add: count_list_0_iff)
qed

lemma digits_free: "port_number p \<Longrightarrow> \<not> is_ascii_digit c \<Longrightarrow> c \<notin> set p"
  by (auto simp: port_number_def list_all_iff)

lemma not_digits [simp]:
  "\<not> is_ascii_digit (CHR '':'')" "\<not> is_ascii_digit (CHR ''['')" "\<not> is_ascii_digit (CHR '']'')"
  by (simp_all add: is_ascii_digit_def)

definition brackets_port_ok :: "string \<Rightarrow> bool" where
  "brackets_port_ok v \<longleftrightarrow> count_list v (CHR ''['') = count_list v (CHR '']'') \<and> count_list v (CHR ''['') \<le> 1
     \<and> (\<forall>p. port_suffix v = Some p \<longrightarrow> port_number p)"

lemma validate_Ok:
  "validate v = Ok () \<longleftrightarrow> v \<noteq> [] \<and> list_all authority_byte v \<and> brackets_port_ok v"
  by (auto simp: validate_def Let_def and_then_Ok scan_bytes_Ok brackets_port_ok_def port_check)

lemma shape_plain:
  assumes "CHR ''['' \<notin> set v" "CHR '']'' \<notin> set v"
  shows "authority_shape v \<longleftrightarrow> brackets_port_ok v"
proof -
  consider (none) "CHR '':'' \<notin> set v" | (one) "count_list v (CHR '':'') = 1" | (more) "2 \<le> count_list v (CHR '':'')"
    by (metis One_nat_def Suc_1 Suc_leI count_list_0_iff le_neq_implies_less less_one not_less)
  then show ?thesis
  proof cases
    case one
    then obtain h t where v: "v = h @ CHR '':'' # t" "CHR '':'' \<notin> set h" "CHR '':'' \<notin> set t"
      by (rule count_list_1)
    have "authority_shape v \<longleftrightarrow> port_number t"
    proof
      assume "authority_shape v"
      then show "port_number t"
      proof cases
        case (name_port h' p)
        then have "rsplit_once (CHR '':'') v = Some (h', p)"
          by (simp add: rsplit_once_append digits_free)
        with v name_port show ?thesis by (simp add: rsplit_once_append)
      qed (use assms v one in \<open>auto\<close>)
    qed (use assms v in \<open>auto intro!: authority_shape.name_port\<close>)
    then show ?thesis
      using assms v one by (auto simp: brackets_port_ok_def port_suffix_plain rsplit_once_append count_list_0_iff)
  qed (use assms in \<open>auto simp: brackets_port_ok_def port_suffix_plain count_list_0_iff intro: authority_shape.intros\<close>)
qed

lemma shape_bracketed:
  assumes v: "v = h @ CHR '']'' # t" "CHR '']'' \<notin> set h" "CHR '']'' \<notin> set t"
  shows "authority_shape v \<longleftrightarrow> brackets_port_ok v"
proof -
  have split: "h' = h \<and> t' = t" if "v = h' @ CHR '']'' # t'" "CHR '']'' \<notin> set t'" for h' t'
  proof -
    have "rsplit_once (CHR '']'') v = Some (h, t)" "rsplit_once (CHR '']'') v = Some (h', t')"
      using v that by (simp_all only: rsplit_once_Some simp_thms)
    then show ?thesis by simp
  qed
  have ok: "brackets_port_ok v \<longleftrightarrow> count_list (h @ t) (CHR ''['') = 1
      \<and> (\<forall>p. t = CHR '':'' # p \<longrightarrow> port_number p)"
    using v by (auto simp: brackets_port_ok_def port_suffix_bracketed strip_prefix_char_Some count_list_0_iff)
  have mem: "CHR '']'' \<in> set v" using v by simp
  show ?thesis
  proof
    assume "authority_shape v"
    then show "brackets_port_ok v"
    proof cases
      case (name_port h' p)
      with mem show ?thesis by (simp add: digits_free)
    next
      case (bracketed h' t')
      with split [of h' t'] show ?thesis unfolding ok by (cases t) auto
    next
      case (bracketed_port h' p)
      moreover from this have "CHR '']'' \<notin> set (CHR '':'' # p)" by (simp add: digits_free)
      ultimately show ?thesis
        using split [of h' "CHR '':'' # p"] unfolding ok by (auto simp: digits_free count_list_0_iff)
    qed (use mem in simp_all)
  next
    assume b: "brackets_port_ok v"
    show "authority_shape v"
    proof (cases "take 1 t = '':''")
      case True
      then obtain p where t: "t = CHR '':'' # p" by (cases t) auto
      have "port_number p" "count_list h (CHR ''['') = 1"
        using b unfolding ok by (auto simp: t digits_free count_list_0_iff)
      with v(2) show ?thesis unfolding v(1) t by (intro authority_shape.bracketed_port)
    next
      case False
      have "count_list (h @ t) (CHR ''['') = 1" using b unfolding ok by simp
      with False v(2,3) show ?thesis unfolding v(1) by (intro authority_shape.bracketed) simp_all
    qed
  qed
qed

lemma shape_brackets: "authority_shape v \<Longrightarrow> count_list v (CHR ''['') = count_list v (CHR '']'')
    \<and> count_list v (CHR ''['') \<le> 1"
  by (induction rule: authority_shape.induct) (auto simp: count_list_0_iff digits_free)

lemma shape_exact: "authority_shape v \<longleftrightarrow> brackets_port_ok v"
proof (cases "count_list v (CHR ''['') = count_list v (CHR '']'') \<and> count_list v (CHR ''['') \<le> 1")
  case True
  then consider "CHR ''['' \<notin> set v" "CHR '']'' \<notin> set v" | "count_list v (CHR '']'') = 1"
    by (metis One_nat_def count_list_0_iff le_0_eq le_SucE)
  then show ?thesis
  proof cases
    case 2
    then obtain h t where "v = h @ CHR '']'' # t" "CHR '']'' \<notin> set h" "CHR '']'' \<notin> set t"
      by (rule count_list_1)
    then show ?thesis by (rule shape_bracketed)
  qed (rule shape_plain)
next
  case False
  then show ?thesis using shape_brackets [of v] by (auto simp: brackets_port_ok_def)
qed

text \<open>The forms of RFC 3986 the predicate is after: a name or a bracketed literal, either with a port or
  without. A value is regularly built when its brackets and colons stand where these forms have them: an
  opening bracket only in front, after a closing one the end or a colon, and without brackets one colon at
  most. Such a value can still lack a bracket, have two closing ones, or have a bad port.\<close>

inductive authority_form :: "string \<Rightarrow> bool" where
  name_form: "CHR '':'' \<notin> set h \<Longrightarrow> CHR ''['' \<notin> set h \<Longrightarrow> CHR '']'' \<notin> set h \<Longrightarrow> authority_form h"
| name_port_form: "CHR '':'' \<notin> set h \<Longrightarrow> CHR ''['' \<notin> set h \<Longrightarrow> CHR '']'' \<notin> set h \<Longrightarrow> port_number p
    \<Longrightarrow> authority_form (h @ CHR '':'' # p)"
| literal_form: "CHR ''['' \<notin> set h \<Longrightarrow> CHR '']'' \<notin> set h \<Longrightarrow> authority_form (CHR ''['' # h @ '']'')"
| literal_port_form: "CHR ''['' \<notin> set h \<Longrightarrow> CHR '']'' \<notin> set h \<Longrightarrow> port_number p
    \<Longrightarrow> authority_form (CHR ''['' # h @ CHR '']'' # CHR '':'' # p)"

fun closes_regularly :: "string \<Rightarrow> bool" where
  "closes_regularly [] \<longleftrightarrow> True"
| "closes_regularly (c # s) \<longleftrightarrow> (c = CHR '']'' \<longrightarrow> s = [] \<or> hd s = CHR '':'') \<and> closes_regularly s"

definition regularly_built :: "string \<Rightarrow> bool" where
  "regularly_built v \<longleftrightarrow> CHR ''['' \<notin> set (tl v) \<and> closes_regularly v
     \<and> (CHR '']'' \<in> set v \<or> count_list v (CHR '':'') \<le> 1)"

lemma closes_regularly_append: "closes_regularly (h @ CHR '']'' # t) \<Longrightarrow> t = [] \<or> hd t = CHR '':''"
  by (induction h) auto

lemma opening_first:
  assumes "CHR ''['' \<in> set h" and "CHR ''['' \<notin> set (tl (h @ t))"
  obtains h' where "h = CHR ''['' # h'" "CHR ''['' \<notin> set h'"
  using assms by (cases h) auto

lemma form_shape: "authority_form v \<Longrightarrow> authority_shape v"
proof (induction rule: authority_form.induct)
  case (literal_form h)
  then show ?case using authority_shape.bracketed [of "CHR ''['' # h" "[]"] by (simp add: count_list_0_iff)
next
  case (literal_port_form h p)
  then show ?case using authority_shape.bracketed_port [of "CHR ''['' # h" p] by (simp add: count_list_0_iff)
qed (auto intro: authority_shape.intros)

lemma shape_form:
  assumes "authority_shape v" and "regularly_built v"
  shows "authority_form v"
  using assms(1)
proof cases
  case (bracketed h t)
  have t: "t = []" using assms(2) closes_regularly_append [of h t] bracketed(1,4)
    by (cases t) (auto simp: regularly_built_def)
  have "CHR ''['' \<in> set h" using bracketed(2) count_list_0_iff [of h "CHR ''[''"] by (auto simp: t)
  moreover have "CHR ''['' \<notin> set (tl (h @ '']''))" using assms(2) bracketed(1) by (simp add: regularly_built_def t)
  ultimately obtain h' where "h = CHR ''['' # h'" "CHR ''['' \<notin> set h'" by (rule opening_first)
  with bracketed(1,3) t show ?thesis by (auto intro: authority_form.literal_form)
next
  case (bracketed_port h p)
  have "CHR ''['' \<in> set h" using bracketed_port(2) count_list_0_iff [of h "CHR ''[''"] by auto
  moreover have "CHR ''['' \<notin> set (tl (h @ CHR '']'' # CHR '':'' # p))"
    using assms(2) bracketed_port(1) by (simp add: regularly_built_def)
  ultimately obtain h' where "h = CHR ''['' # h'" "CHR ''['' \<notin> set h'" by (rule opening_first)
  with bracketed_port(1,3,4) show ?thesis by (auto intro: authority_form.literal_port_form)
qed (use assms(2) in \<open>auto simp: regularly_built_def intro: authority_form.intros\<close>)

text \<open>C30. An accepted authority value is non-empty, has no comma, white space, control byte or DEL, and at
  most one opening and one closing bracket, as many of either; and of the values whose brackets and colons
  stand at regular places those are accepted, and no others, that have only such bytes and are a name or a
  bracketed literal, alone or followed by a colon and a non-empty row of digits.\<close>

theorem authority_accepts_exactly:
  "(validate v = Ok () \<longrightarrow> v \<noteq> [] \<and> list_all authority_byte v
      \<and> count_list v (CHR ''['') = count_list v (CHR '']'') \<and> count_list v (CHR ''['') \<le> 1)
   \<and> (regularly_built v \<longrightarrow> (validate v = Ok () \<longleftrightarrow> v \<noteq> [] \<and> list_all authority_byte v \<and> authority_form v))"
  using form_shape [of v] shape_form [of v] shape_brackets [of v] by (auto simp: validate_Ok shape_exact [symmetric])

theorem authority_accepts_exactly_witness:
  "list_all authority_byte ''[::1]:8443'' \<and> authority_form ''[::1]:8443'' \<and> \<not> authority_form ''example.test:''"
proof -
  have "validate ''[::1]:8443'' = Ok ()" "regularly_built ''[::1]:8443''"
    "validate ''example.test:'' \<noteq> Ok ()" "regularly_built ''example.test:''"
    "list_all authority_byte ''example.test:''" by code_simp+
  then show ?thesis
    using authority_accepts_exactly [of "''[::1]:8443''"] authority_accepts_exactly [of "''example.test:''"] by blast
qed

section \<open>Host and port\<close>

text \<open>Text that follows the closing bracket without a colon.\<close>

definition trailing_text :: "string \<Rightarrow> bool" where
  "trailing_text v \<longleftrightarrow> (\<exists>h t. v = CHR ''['' # h @ CHR '']'' # t \<and> CHR '']'' \<notin> set h \<and> t \<noteq> [] \<and> hd t \<noteq> CHR '':'')"

definition join_host_port :: "string \<times> string option \<Rightarrow> string" where
  "join_host_port hp = fst hp @ (case snd hp of None \<Rightarrow> [] | Some p \<Rightarrow> CHR '':'' # p)"

lemma split_host_port_bracketed:
  assumes "CHR '']'' \<notin> set h"
  shows "split_host_port (CHR ''['' # h @ CHR '']'' # t)
    = (CHR ''['' # h @ '']'', case strip_prefix_char (CHR '':'') t of Some p \<Rightarrow> if p = [] then None else Some p | None \<Rightarrow> None)"
  using assms by (simp add: split_host_port_def find_char_append)

lemma split_host_port_plain:
  assumes "strip_prefix_char (CHR ''['') v = None"
  shows "join_host_port (split_host_port v) = v \<and> (\<forall>p. snd (split_host_port v) = Some p \<longrightarrow> port_number p)"
  using assms
  by (auto simp: split_host_port_def join_host_port_def port_number_def rsplit_once_Some split: option.splits prod.splits)

text \<open>For an accepted value the comparisons see all of it, but for text after a closing bracket.\<close>

lemma split_host_port_accepted:
  assumes "validate v = Ok ()" "\<not> trailing_text v"
  shows "join_host_port (split_host_port v) = v \<and> (\<forall>p. snd (split_host_port v) = Some p \<longrightarrow> port_number p)"
proof (cases "strip_prefix_char (CHR ''['') v")
  case None
  then show ?thesis by (rule split_host_port_plain)
next
  case (Some s)
  then have v: "v = CHR ''['' # s" by (simp add: strip_prefix_char_Some)
  have ok: "brackets_port_ok v" using assms(1) by (simp add: validate_Ok)
  then have c: "count_list s (CHR '']'') = 1" by (simp add: v brackets_port_ok_def)
  obtain h t where s: "s = h @ CHR '']'' # t" "CHR '']'' \<notin> set h" "CHR '']'' \<notin> set t"
    using count_list_1 [OF c] by blast
  have t: "t = [] \<or> hd t = CHR '':''" using assms(2) s(2) unfolding trailing_text_def v s(1) by blast
  have "port_number p" if "t = CHR '':'' # p" for p
    using ok port_suffix_bracketed [OF s(3), of "CHR ''['' # h"] that
    by (simp add: brackets_port_ok_def v s(1))
  with t show ?thesis
    by (cases t) (auto simp: v s(1) split_host_port_bracketed [OF s(2)] join_host_port_def port_number_def)
qed

section \<open>The layers agree\<close>

definition lower_char :: "char \<Rightarrow> char" where
  "lower_char c = (if 65 \<le> (of_char c :: int) \<and> (of_char c :: int) \<le> 90 then char_of ((of_char c :: int) + 32) else c)"

lemma to_ascii_lowercase_map: "to_ascii_lowercase s = map lower_char s"
  by (simp add: to_ascii_lowercase_def lower_char_def)

lemma of_lower_char: "(of_char (lower_char c) :: int)
    = (if 65 \<le> (of_char c :: int) \<and> (of_char c :: int) \<le> 90 then of_char c + 32 else of_char c)"
  by (simp add: lower_char_def)

lemma lower_char_idem [simp]: "lower_char (lower_char c) = lower_char c"
proof -
  have "(of_char (lower_char (lower_char c)) :: int) = of_char (lower_char c)" by (auto simp: of_lower_char)
  then show ?thesis by (simp only: of_char_eq_iff)
qed

lemma lower_char_dot: "lower_char c = CHR ''.'' \<longleftrightarrow> c = CHR ''.''"
proof -
  have "lower_char c = CHR ''.'' \<longleftrightarrow> (of_char (lower_char c) :: int) = of_char (CHR ''.'')" by (simp only: of_char_eq_iff)
  also have "\<dots> \<longleftrightarrow> (of_char c :: int) = of_char (CHR ''.'')" by (auto simp: of_lower_char)
  finally show ?thesis by (simp only: of_char_eq_iff)
qed

lemma to_ascii_lowercase_idem [simp]: "to_ascii_lowercase (to_ascii_lowercase s) = to_ascii_lowercase s"
  by (simp add: to_ascii_lowercase_map)

lemma normalise_host_lower: "normalise_host (to_ascii_lowercase s) = normalise_host s"
  by (simp add: normalise_host_def to_ascii_lowercase_map trim_end_matches_def rev_map dropWhile_map comp_def lower_char_dot)

lemma normalise_host_cong: "eq_ignore_ascii_case s t \<Longrightarrow> normalise_host s = normalise_host t"
  by (metis eq_ignore_ascii_case_def normalise_host_lower)

lemma check_sni_authority_Ok:
  "check_sni_authority (Some s) a = Ok () \<longleftrightarrow> a = [] \<or> normalise_host s = normalise_host (fst (split_host_port a))"
  by (simp add: check_sni_authority_def Let_def eq_ignore_ascii_case_def normalise_host_def)

lemma authority_matches_host_iff:
  "authority_matches_host a h \<longleftrightarrow> fst (split_host_port a) \<noteq> [] \<and> fst (split_host_port h) \<noteq> []
     \<and> eq_ignore_ascii_case (fst (split_host_port a)) (fst (split_host_port h))
     \<and> (\<forall>p q. snd (split_host_port a) = Some p \<longrightarrow> snd (split_host_port h) = Some q \<longrightarrow> p = q)"
  by (auto simp: authority_matches_host_def Let_def split: prod.splits option.splits)

lemma authority_matches_host_sym: "authority_matches_host a h \<longleftrightarrow> authority_matches_host h a"
  by (auto simp: authority_matches_host_iff eq_ignore_ascii_case_def)

lemma validate_request_Ok:
  "validate_request (Some a) (Some h) = Ok () \<longleftrightarrow> (a = [] \<or> validate a = Ok ()) \<and> (h = [] \<or> validate h = Ok ())"
  by (auto simp: validate_request_def List.map_filter_simps split: sum.splits)

text \<open>C31. When the three checks of a request pass, and its \<open>Host\<close> does not go on after a closing bracket
  otherwise than with a colon, the \<open>Host\<close> header names the host of the TLS session: it is a host that is
  the server name up to case and final dots, followed by nothing or by a colon and digits, and where
  \<open>:authority\<close> has a port too the two ports are the same. Text behind a closing bracket is an assumption
  because the comparisons do not look at it (\<open>trailing_text_ignored\<close> below).\<close>

theorem host_bound_to_sni:
  assumes "validate_request (Some authority) (Some host) = Ok ()"
    and "check_authority_host_agreement (Some authority) (Some host) = Ok ()"
    and "check_sni_authority (Some name) authority = Ok ()"
    and "\<not> trailing_text host"
  shows "\<exists>h port. host = join_host_port (h, port) \<and> normalise_host h = normalise_host name
    \<and> (\<forall>p. port = Some p \<longrightarrow> port_number p)
    \<and> (\<forall>p q. port = Some p \<longrightarrow> snd (split_host_port authority) = Some q \<longrightarrow> p = q)"
proof -
  have m: "authority_matches_host authority host"
    using assms(2) by (simp add: check_authority_host_agreement_def split: if_splits)
  have ne: "authority \<noteq> []" "host \<noteq> []"
    using m by (auto simp: authority_matches_host_iff split_host_port_def rsplit_once_def)
  with assms(1) have v: "validate host = Ok ()" by (simp add: validate_request_Ok)
  have n: "normalise_host (fst (split_host_port host)) = normalise_host name"
    using m assms(3) ne normalise_host_cong by (auto simp: authority_matches_host_iff check_sni_authority_Ok)
  show ?thesis
    by (intro exI [of _ "fst (split_host_port host)"] exI [of _ "snd (split_host_port host)"])
      (use split_host_port_accepted [OF v assms(4)] n m in \<open>auto simp: authority_matches_host_iff\<close>)
qed

theorem host_bound_to_sni_witness:
  "\<exists>h port. ''Example.test:8443'' = join_host_port (h, port) \<and> normalise_host h = normalise_host ''example.test.''"
proof -
  have "validate_request (Some ''example.test'') (Some ''Example.test:8443'') = Ok ()" by code_simp
  moreover have "check_authority_host_agreement (Some ''example.test'') (Some ''Example.test:8443'') = Ok ()" by code_simp
  moreover have "check_sni_authority (Some ''example.test.'') ''example.test'' = Ok ()" by code_simp
  moreover have "\<not> trailing_text ''Example.test:8443''" by (simp add: trailing_text_def)
  ultimately show ?thesis using host_bound_to_sni by blast
qed

text \<open>The exception is real: the value below is accepted and agrees with a shorter host.\<close>

lemma trailing_text_ignored:
  "validate ''[::1].evil.test'' = Ok () \<and> authority_matches_host ''[::1].evil.test'' ''[::1]''
    \<and> trailing_text ''[::1].evil.test''"
proof -
  have "validate ''[::1].evil.test'' = Ok ()" by code_simp
  moreover have "authority_matches_host ''[::1].evil.test'' ''[::1]''" by code_simp
  moreover have "trailing_text (CHR ''['' # ''::1'' @ CHR '']'' # ''.evil.test'')"
    unfolding trailing_text_def by (intro exI [of _ "''::1''"] exI [of _ "''.evil.test''"]) simp
  ultimately show ?thesis by simp
qed

lemma reversed_brackets_accepted: "validate '']foo['' = Ok ()"
  by code_simp

end
