(* ===== verification/Bridges.thy ===== *)
theory Bridges
  imports Authority
begin

text \<open>
  The protocol bridges of \<open>lb-l7/src\<close>: the neutral request and response of \<open>lib.rs\<close> and one bridge per
  pair of HTTP versions (\<open>h1_to_h1.rs\<close> to \<open>h3_to_h3.rs\<close>). Header names are lower-cased by
  \<open>str::to_lowercase\<close>; the Unicode case tables it consults for names that are not ASCII are the argument
  \<open>uni\<close>. The locale \<open>bridge_contract\<close> is what the trait \<open>Bridge\<close> promises its callers, and the composition of
  two bridges is a bridge again.
\<close>

section \<open>The neutral messages\<close>

datatype protocol = Http1 | Http2 | Http3

record bridge_req =
  br_method :: string
  br_uri :: string
  br_headers :: "header list"
  br_body :: bytes
  br_scheme :: "string option"
  br_trailers :: "header list"

definition bridge_request_default :: bridge_req where
  "bridge_request_default = \<lparr>br_method = ''GET'', br_uri = ''/'', br_headers = [], br_body = [], br_scheme = None,
     br_trailers = []\<rparr>"

record bridge_resp =
  bs_status :: u16
  bs_headers :: "header list"
  bs_body :: bytes
  bs_trailers :: "header list"

definition bridge_response_default :: bridge_resp where
  "bridge_response_default = \<lparr>bs_status = 200, bs_headers = [], bs_body = [], bs_trailers = []\<rparr>"

datatype l7_error =
    BridgeError string
  | MissingPseudoHeader string
  | UnsupportedBridge protocol protocol
  | TooManyHeaders nat nat

definition MAX_HEADERS :: nat where
  "MAX_HEADERS = 256"

definition check_header_count :: "nat \<Rightarrow> (unit, l7_error) result" where
  "check_header_count n = (if n > MAX_HEADERS then Err (TooManyHeaders n MAX_HEADERS) else Ok ())"

section \<open>Header names\<close>

definition is_ascii :: "string \<Rightarrow> bool" where
  "is_ascii s \<longleftrightarrow> list_all (\<lambda>c. (of_char c :: int) < 128) s"

definition to_lowercase :: "(string \<Rightarrow> string) \<Rightarrow> string \<Rightarrow> string" where
  "to_lowercase uni s = (if is_ascii s then to_ascii_lowercase s else uni s)"

definition starts_with_colon :: "string \<Rightarrow> bool" where
  "starts_with_colon s \<longleftrightarrow> take 1 s = '':''"

definition h1_to_h1_HOP_BY_HOP :: "string list" where
  "h1_to_h1_HOP_BY_HOP = [''connection'', ''keep-alive'', ''transfer-encoding'', ''upgrade'', ''proxy-connection'',
     ''proxy-authenticate'', ''proxy-authorization'', ''te'']"

definition h1_to_h2_HOP_BY_HOP :: "string list" where
  "h1_to_h2_HOP_BY_HOP = [''connection'', ''transfer-encoding'', ''upgrade'', ''keep-alive'', ''proxy-connection'',
     ''proxy-authenticate'', ''proxy-authorization'', ''te'']"

definition h1_to_h3_HOP_BY_HOP :: "string list" where
  "h1_to_h3_HOP_BY_HOP = [''connection'', ''transfer-encoding'', ''upgrade'', ''keep-alive'', ''proxy-connection'',
     ''proxy-authenticate'', ''proxy-authorization'', ''te'']"

definition h2_to_h1_RESPONSE_HOP_BY_HOP :: "string list" where
  "h2_to_h1_RESPONSE_HOP_BY_HOP = [''connection'', ''keep-alive'', ''transfer-encoding'', ''upgrade'', ''proxy-connection'',
     ''proxy-authenticate'', ''proxy-authorization'', ''te'']"

definition h3_to_h1_RESPONSE_HOP_BY_HOP :: "string list" where
  "h3_to_h1_RESPONSE_HOP_BY_HOP = [''connection'', ''keep-alive'', ''transfer-encoding'', ''upgrade'', ''proxy-connection'',
     ''proxy-authenticate'', ''proxy-authorization'', ''te'']"

definition connection_named_headers :: "header list \<Rightarrow> string list" where
  "connection_named_headers hs =
     concat (map (\<lambda>(_, v). filter (\<lambda>s. s \<noteq> []) (map (\<lambda>s. to_ascii_lowercase (trim s)) (split_char (CHR '','') v)))
       (filter (\<lambda>(k, _). eq_ignore_ascii_case k ''connection'') hs))"

definition is_te_trailers :: "string \<Rightarrow> bool" where
  "is_te_trailers te_value \<longleftrightarrow> eq_ignore_ascii_case (trim te_value) ''trailers''"

section \<open>From HTTP/1.1\<close>

definition h1_to_h1_request :: "(string \<Rightarrow> string) \<Rightarrow> bridge_req \<Rightarrow> (bridge_req, l7_error) result" where
  "h1_to_h1_request uni req =
     and_then (check_header_count (length (br_headers req))) (\<lambda>_.
     let conn_named = connection_named_headers (br_headers req);
         hs = List.map_filter (\<lambda>(k, v).
           let lower = to_lowercase uni k in
           if lower = ''te'' then if is_te_trailers v then Some (lower, ''trailers'') else None
           else if lower \<in> set h1_to_h1_HOP_BY_HOP then None
           else if lower \<in> set conn_named then None
           else Some (lower, v)) (br_headers req)
     in and_then (check_header_count (length hs)) (\<lambda>_. Ok (req\<lparr>br_headers := hs\<rparr>)))"

definition h1_to_h1_response :: "(string \<Rightarrow> string) \<Rightarrow> bridge_resp \<Rightarrow> (bridge_resp, l7_error) result" where
  "h1_to_h1_response uni resp =
     and_then (check_header_count (length (bs_headers resp))) (\<lambda>_.
     let conn_named = connection_named_headers (bs_headers resp);
         hs = List.map_filter (\<lambda>(k, v).
           let lower = to_lowercase uni k in
           if lower \<in> set h1_to_h1_HOP_BY_HOP then None
           else if lower \<in> set conn_named then None
           else Some (lower, v)) (bs_headers resp)
     in and_then (check_header_count (length hs)) (\<lambda>_. Ok (resp\<lparr>bs_headers := hs\<rparr>)))"

text \<open>The loop over the headers of the two bridges that leave HTTP/1.1: one header of the regular part.\<close>

definition regular_header :: "(string \<Rightarrow> string) \<Rightarrow> string list \<Rightarrow> string list \<Rightarrow> header \<Rightarrow> header option" where
  "regular_header uni hop conn_named = (\<lambda>(k, v).
     let lower = to_lowercase uni k in
     if lower = ''host'' then None
     else if lower = ''te'' then
       if eq_ignore_ascii_case (trim v) ''trailers'' then Some (lower, ''trailers'') else None
     else if lower \<in> set hop then None
     else if lower \<in> set conn_named then None
     else Some (lower, v))"

definition h1_to_h2_request :: "(string \<Rightarrow> string) \<Rightarrow> bridge_req \<Rightarrow> (bridge_req, l7_error) result" where
  "h1_to_h2_request uni req =
     and_then (check_header_count (length (br_headers req))) (\<lambda>_.
     let conn_named = connection_named_headers (br_headers req);
         authority = map_option snd (find (\<lambda>(k, _). eq_ignore_ascii_case k ''host'') (br_headers req));
         scheme = (case br_scheme req of Some s \<Rightarrow> s | None \<Rightarrow> ''https'');
         pseudo_headers = [('':method'', br_method req), ('':path'', br_uri req), ('':scheme'', scheme)]
           @ (case authority of Some auth \<Rightarrow> [('':authority'', auth)] | None \<Rightarrow> []);
         regular_headers = List.map_filter (regular_header uni h1_to_h2_HOP_BY_HOP conn_named) (br_headers req);
         hs = pseudo_headers @ regular_headers
     in and_then (check_header_count (length hs)) (\<lambda>_. Ok (req\<lparr>br_headers := hs\<rparr>)))"

definition h1_to_h2_response :: "(string \<Rightarrow> string) \<Rightarrow> bridge_resp \<Rightarrow> (bridge_resp, l7_error) result" where
  "h1_to_h2_response uni resp =
     and_then (check_header_count (length (bs_headers resp))) (\<lambda>_.
     let conn_named = connection_named_headers (bs_headers resp);
         hs = map (\<lambda>(k, v). (to_lowercase uni k, v)) (filter (\<lambda>(k, _).
           let lower = to_lowercase uni k in
           if lower \<in> set h1_to_h2_HOP_BY_HOP then False
           else if lower \<in> set conn_named then False
           else True) (bs_headers resp))
     in and_then (check_header_count (length hs)) (\<lambda>_. Ok (resp\<lparr>bs_headers := hs\<rparr>)))"

definition h1_to_h3_request :: "(string \<Rightarrow> string) \<Rightarrow> bridge_req \<Rightarrow> (bridge_req, l7_error) result" where
  "h1_to_h3_request uni req =
     and_then (check_header_count (length (br_headers req))) (\<lambda>_.
     let conn_named = connection_named_headers (br_headers req);
         authority = map_option snd (find (\<lambda>(k, _). eq_ignore_ascii_case k ''host'') (br_headers req));
         scheme = (case br_scheme req of Some s \<Rightarrow> s | None \<Rightarrow> ''https'');
         pseudo_headers = [('':method'', br_method req), ('':path'', br_uri req), ('':scheme'', scheme)]
           @ (case authority of Some auth \<Rightarrow> [('':authority'', auth)] | None \<Rightarrow> []);
         regular_headers = List.map_filter (regular_header uni h1_to_h3_HOP_BY_HOP conn_named) (br_headers req);
         hs = pseudo_headers @ regular_headers
     in and_then (check_header_count (length hs)) (\<lambda>_. Ok (req\<lparr>br_headers := hs\<rparr>)))"

definition h1_to_h3_response :: "(string \<Rightarrow> string) \<Rightarrow> bridge_resp \<Rightarrow> (bridge_resp, l7_error) result" where
  "h1_to_h3_response uni resp =
     and_then (check_header_count (length (bs_headers resp))) (\<lambda>_.
     let conn_named = connection_named_headers (bs_headers resp);
         hs = map (\<lambda>(k, v). (to_lowercase uni k, v)) (filter (\<lambda>(k, _).
           let lower = to_lowercase uni k in
           if lower \<in> set h1_to_h3_HOP_BY_HOP then False
           else if lower \<in> set conn_named then False
           else True) (bs_headers resp))
     in and_then (check_header_count (length hs)) (\<lambda>_. Ok (resp\<lparr>bs_headers := hs\<rparr>)))"

section \<open>To HTTP/1.1\<close>

text \<open>The loop of the two bridges that enter HTTP/1.1: method, path and authority are those of the last
  pseudo-header of their name, every other name with a colon in front is skipped.\<close>

record split_headers =
  sh_method :: string
  sh_uri :: string
  sh_authority :: "string option"
  sh_regular :: "header list"

fun split_pseudo :: "(string \<Rightarrow> string) \<Rightarrow> split_headers \<Rightarrow> header list \<Rightarrow> split_headers" where
  "split_pseudo uni s [] = s"
| "split_pseudo uni s ((k, v) # hs) =
     split_pseudo uni
       (if k = '':method'' then s\<lparr>sh_method := v\<rparr>
        else if k = '':path'' then s\<lparr>sh_uri := v\<rparr>
        else if k = '':scheme'' then s
        else if k = '':authority'' then s\<lparr>sh_authority := Some v\<rparr>
        else if starts_with_colon k then s
        else s\<lparr>sh_regular := sh_regular s @ [(to_lowercase uni k, v)]\<rparr>) hs"

definition split_request :: "(string \<Rightarrow> string) \<Rightarrow> bridge_req \<Rightarrow> split_headers" where
  "split_request uni req =
     split_pseudo uni \<lparr>sh_method = br_method req, sh_uri = br_uri req, sh_authority = None, sh_regular = []\<rparr>
       (br_headers req)"

text \<open>The texts of the four smuggling errors.\<close>

fun display_security_error :: "security_error \<Rightarrow> string" where
  "display_security_error SmuggleCLTE = ''request smuggling detected: CL-TE conflict''"
| "display_security_error SmuggleTECL = ''request smuggling detected: TE-CL ambiguity''"
| "display_security_error SmuggleDuplicateCL =
     ''request smuggling detected: duplicate Content-Length with differing values''"
| "display_security_error SmuggleH2Downgrade =
     ''request smuggling detected: H2 downgrade with prohibited headers''"
| "display_security_error (SlowlorisTimeout elapsed_ms timeout_ms) =
     ''slowloris detected: header timeout exceeded ('' @ decimal elapsed_ms @ ''ms > '' @ decimal timeout_ms @ ''ms)''"
| "display_security_error (SlowlorisRate rate least) =
     ''slowloris detected: header rate too low ('' @ decimal rate @ '' B/s < '' @ decimal least @ '' B/s)''"
| "display_security_error (SlowPost rate least) =
     ''slow POST detected: body rate too low ('' @ decimal rate @ '' B/s < '' @ decimal least @ '' B/s)''"
| "display_security_error ZeroRttReplay = ''0-RTT replay detected''"

definition authority_host_components_agree :: "string \<Rightarrow> string \<Rightarrow> bool" where
  "authority_host_components_agree authority host =
     (let (a_host, a_port) = split_host_port authority;
          (h_host, h_port) = split_host_port host
      in if a_host = [] \<or> h_host = [] then False
         else if \<not> eq_ignore_ascii_case a_host h_host then False
         else case (a_port, h_port) of (Some ap, Some hp) \<Rightarrow> ap = hp | _ \<Rightarrow> True)"

text \<open>The first \<open>Host\<close> of the regular headers is compared with the authority and removed.\<close>

fun remove_first_host :: "string \<Rightarrow> header list \<Rightarrow> (header list, l7_error) result" where
  "remove_first_host auth [] = Ok []"
| "remove_first_host auth ((k, v) # hs) =
     (if eq_ignore_ascii_case k ''host'' then
        if \<not> authority_host_components_agree auth v
        then Err (BridgeError (''h2->h1 :authority/Host disagree (RFC 9113 '' @ [CHR 0xC2, CHR 0xA7] @ ''8.3.1)''))
        else Ok hs
      else and_then (remove_first_host auth hs) (\<lambda>hs'. Ok ((k, v) # hs')))"

definition h2_to_h1_request :: "(string \<Rightarrow> string) \<Rightarrow> bridge_req \<Rightarrow> (bridge_req, l7_error) result" where
  "h2_to_h1_request uni req =
     and_then (check_header_count (length (br_headers req))) (\<lambda>_.
     let s = split_request uni req in
     and_then (map_err (\<lambda>e. BridgeError (''h2->h1 downgrade smuggle: '' @ display_security_error e))
       (check_all (sh_regular s) True)) (\<lambda>_.
     and_then (ok_or (case sh_authority s of Some a \<Rightarrow> if a = [] then None else Some a | None \<Rightarrow> None)
       (MissingPseudoHeader '':authority'')) (\<lambda>auth.
     and_then (remove_first_host auth (sh_regular s)) (\<lambda>rest.
     let regular_headers = (''host'', auth) # rest in
     and_then (check_header_count (length regular_headers)) (\<lambda>_.
     Ok (req\<lparr>br_method := sh_method s, br_uri := sh_uri s, br_headers := regular_headers\<rparr>))))))"

definition h2_to_h1_response :: "(string \<Rightarrow> string) \<Rightarrow> bridge_resp \<Rightarrow> (bridge_resp, l7_error) result" where
  "h2_to_h1_response uni resp =
     and_then (check_header_count (length (bs_headers resp))) (\<lambda>_.
     let hs = map (\<lambda>(k, v). (to_lowercase uni k, v)) (filter (\<lambda>(k, _).
           if starts_with_colon k then False
           else to_lowercase uni k \<notin> set h2_to_h1_RESPONSE_HOP_BY_HOP) (bs_headers resp))
     in and_then (check_header_count (length hs)) (\<lambda>_. Ok (resp\<lparr>bs_headers := hs\<rparr>)))"

definition h3_to_h1_request :: "(string \<Rightarrow> string) \<Rightarrow> bridge_req \<Rightarrow> (bridge_req, l7_error) result" where
  "h3_to_h1_request uni req =
     and_then (check_header_count (length (br_headers req))) (\<lambda>_.
     let s = split_request uni req in
     and_then (ok_or (case sh_authority s of Some a \<Rightarrow> if a = [] then None else Some a | None \<Rightarrow> None)
       (MissingPseudoHeader '':authority'')) (\<lambda>auth.
     let regular_headers = (''host'', auth) # sh_regular s in
     and_then (check_header_count (length regular_headers)) (\<lambda>_.
     Ok (req\<lparr>br_method := sh_method s, br_uri := sh_uri s, br_headers := regular_headers\<rparr>))))"

definition h3_to_h1_response :: "(string \<Rightarrow> string) \<Rightarrow> bridge_resp \<Rightarrow> (bridge_resp, l7_error) result" where
  "h3_to_h1_response uni resp =
     and_then (check_header_count (length (bs_headers resp))) (\<lambda>_.
     let hs = map (\<lambda>(k, v). (to_lowercase uni k, v)) (filter (\<lambda>(k, _).
           if starts_with_colon k then False
           else to_lowercase uni k \<notin> set h3_to_h1_RESPONSE_HOP_BY_HOP) (bs_headers resp))
     in and_then (check_header_count (length hs)) (\<lambda>_. Ok (resp\<lparr>bs_headers := hs\<rparr>)))"

section \<open>Between HTTP/2 and HTTP/3\<close>

text \<open>The four bridges whose two ends both have pseudo-headers have the same code: names are lower-cased
  in place.\<close>

definition h2_to_h2_request :: "(string \<Rightarrow> string) \<Rightarrow> bridge_req \<Rightarrow> (bridge_req, l7_error) result" where
  "h2_to_h2_request uni req =
     and_then (check_header_count (length (br_headers req))) (\<lambda>_.
     Ok (req\<lparr>br_headers := map (\<lambda>(k, v). if starts_with_colon k then (k, v) else (to_lowercase uni k, v))
       (br_headers req)\<rparr>))"

definition h2_to_h2_response :: "(string \<Rightarrow> string) \<Rightarrow> bridge_resp \<Rightarrow> (bridge_resp, l7_error) result" where
  "h2_to_h2_response uni resp =
     and_then (check_header_count (length (bs_headers resp))) (\<lambda>_.
     Ok (resp\<lparr>bs_headers := map (\<lambda>(k, v). (to_lowercase uni k, v)) (bs_headers resp)\<rparr>))"

definition h2_to_h3_request :: "(string \<Rightarrow> string) \<Rightarrow> bridge_req \<Rightarrow> (bridge_req, l7_error) result" where
  "h2_to_h3_request uni req = h2_to_h2_request uni req"

definition h2_to_h3_response :: "(string \<Rightarrow> string) \<Rightarrow> bridge_resp \<Rightarrow> (bridge_resp, l7_error) result" where
  "h2_to_h3_response uni resp = h2_to_h2_response uni resp"

definition h3_to_h2_request :: "(string \<Rightarrow> string) \<Rightarrow> bridge_req \<Rightarrow> (bridge_req, l7_error) result" where
  "h3_to_h2_request uni req = h2_to_h2_request uni req"

definition h3_to_h2_response :: "(string \<Rightarrow> string) \<Rightarrow> bridge_resp \<Rightarrow> (bridge_resp, l7_error) result" where
  "h3_to_h2_response uni resp = h2_to_h2_response uni resp"

definition h3_to_h3_request :: "(string \<Rightarrow> string) \<Rightarrow> bridge_req \<Rightarrow> (bridge_req, l7_error) result" where
  "h3_to_h3_request uni req = h2_to_h2_request uni req"

definition h3_to_h3_response :: "(string \<Rightarrow> string) \<Rightarrow> bridge_resp \<Rightarrow> (bridge_resp, l7_error) result" where
  "h3_to_h3_response uni resp = h2_to_h2_response uni resp"

section \<open>Dispatch\<close>

datatype bridge = H1ToH1Bridge | H1ToH2Bridge | H1ToH3Bridge | H2ToH1Bridge | H2ToH2Bridge | H2ToH3Bridge
  | H3ToH1Bridge | H3ToH2Bridge | H3ToH3Bridge

fun create_bridge :: "protocol \<Rightarrow> protocol \<Rightarrow> bridge" where
  "create_bridge Http1 Http1 = H1ToH1Bridge"
| "create_bridge Http1 Http2 = H1ToH2Bridge"
| "create_bridge Http1 Http3 = H1ToH3Bridge"
| "create_bridge Http2 Http1 = H2ToH1Bridge"
| "create_bridge Http2 Http2 = H2ToH2Bridge"
| "create_bridge Http2 Http3 = H2ToH3Bridge"
| "create_bridge Http3 Http1 = H3ToH1Bridge"
| "create_bridge Http3 Http2 = H3ToH2Bridge"
| "create_bridge Http3 Http3 = H3ToH3Bridge"

fun bridge_request :: "bridge \<Rightarrow> (string \<Rightarrow> string) \<Rightarrow> bridge_req \<Rightarrow> (bridge_req, l7_error) result" where
  "bridge_request H1ToH1Bridge = h1_to_h1_request"
| "bridge_request H1ToH2Bridge = h1_to_h2_request"
| "bridge_request H1ToH3Bridge = h1_to_h3_request"
| "bridge_request H2ToH1Bridge = h2_to_h1_request"
| "bridge_request H2ToH2Bridge = h2_to_h2_request"
| "bridge_request H2ToH3Bridge = h2_to_h3_request"
| "bridge_request H3ToH1Bridge = h3_to_h1_request"
| "bridge_request H3ToH2Bridge = h3_to_h2_request"
| "bridge_request H3ToH3Bridge = h3_to_h3_request"

fun bridge_response :: "bridge \<Rightarrow> (string \<Rightarrow> string) \<Rightarrow> bridge_resp \<Rightarrow> (bridge_resp, l7_error) result" where
  "bridge_response H1ToH1Bridge = h1_to_h1_response"
| "bridge_response H1ToH2Bridge = h1_to_h2_response"
| "bridge_response H1ToH3Bridge = h1_to_h3_response"
| "bridge_response H2ToH1Bridge = h2_to_h1_response"
| "bridge_response H2ToH2Bridge = h2_to_h2_response"
| "bridge_response H2ToH3Bridge = h2_to_h3_response"
| "bridge_response H3ToH1Bridge = h3_to_h1_response"
| "bridge_response H3ToH2Bridge = h3_to_h2_response"
| "bridge_response H3ToH3Bridge = h3_to_h3_response"

fun source_protocol :: "bridge \<Rightarrow> protocol" where
  "source_protocol b = (case b of H1ToH1Bridge \<Rightarrow> Http1 | H1ToH2Bridge \<Rightarrow> Http1 | H1ToH3Bridge \<Rightarrow> Http1
     | H2ToH1Bridge \<Rightarrow> Http2 | H2ToH2Bridge \<Rightarrow> Http2 | H2ToH3Bridge \<Rightarrow> Http2
     | H3ToH1Bridge \<Rightarrow> Http3 | H3ToH2Bridge \<Rightarrow> Http3 | H3ToH3Bridge \<Rightarrow> Http3)"

fun dest_protocol :: "bridge \<Rightarrow> protocol" where
  "dest_protocol b = (case b of H1ToH1Bridge \<Rightarrow> Http1 | H1ToH2Bridge \<Rightarrow> Http2 | H1ToH3Bridge \<Rightarrow> Http3
     | H2ToH1Bridge \<Rightarrow> Http1 | H2ToH2Bridge \<Rightarrow> Http2 | H2ToH3Bridge \<Rightarrow> Http3
     | H3ToH1Bridge \<Rightarrow> Http1 | H3ToH2Bridge \<Rightarrow> Http2 | H3ToH3Bridge \<Rightarrow> Http3)"

section \<open>The contract of a bridge\<close>

text \<open>A bridge touches the headers, the method and the path only, and neither takes nor gives more than
  \<open>MAX_HEADERS\<close> headers.\<close>

locale bridge_contract =
  fixes request :: "bridge_req \<Rightarrow> (bridge_req, l7_error) result"
    and response :: "bridge_resp \<Rightarrow> (bridge_resp, l7_error) result"
  assumes request_keeps: "request r = Ok r' \<Longrightarrow>
      br_body r' = br_body r \<and> br_scheme r' = br_scheme r \<and> br_trailers r' = br_trailers r"
    and request_counts: "request r = Ok r' \<Longrightarrow>
      length (br_headers r) \<le> MAX_HEADERS \<and> length (br_headers r') \<le> MAX_HEADERS"
    and response_keeps: "response s = Ok s' \<Longrightarrow>
      bs_status s' = bs_status s \<and> bs_body s' = bs_body s \<and> bs_trailers s' = bs_trailers s"
    and response_counts: "response s = Ok s' \<Longrightarrow>
      length (bs_headers s) \<le> MAX_HEADERS \<and> length (bs_headers s') \<le> MAX_HEADERS"
begin

text \<open>A whole exchange with an upstream that echoes the body.\<close>

lemma exchange:
  assumes "request r = Ok r'" "response s = Ok s'" "bs_body s = br_body r'"
  shows "bs_body s' = br_body r"
  using request_keeps [OF assms(1)] response_keeps [OF assms(2)] assms(3) by simp

lemma flood_refused: "MAX_HEADERS < length (br_headers r) \<Longrightarrow> request r \<noteq> Ok r'"
  using request_counts by force

end

text \<open>Two bridges in a row, the second facing the upstream.\<close>

locale bridge_chain =
  a: bridge_contract req1 resp1 + b: bridge_contract req2 resp2
  for req1 resp1 req2 resp2

sublocale bridge_chain \<subseteq> chain: bridge_contract "\<lambda>r. and_then (req1 r) req2" "\<lambda>s. and_then (resp2 s) resp1"
proof unfold_locales
  show "br_body r' = br_body r \<and> br_scheme r' = br_scheme r \<and> br_trailers r' = br_trailers r"
    if "and_then (req1 r) req2 = Ok r'" for r r'
    using that a.request_keeps b.request_keeps by (fastforce simp: and_then_Ok)
  show "length (br_headers r) \<le> MAX_HEADERS \<and> length (br_headers r') \<le> MAX_HEADERS"
    if "and_then (req1 r) req2 = Ok r'" for r r'
    using that a.request_counts b.request_counts by (auto simp: and_then_Ok)
  show "bs_status s' = bs_status s \<and> bs_body s' = bs_body s \<and> bs_trailers s' = bs_trailers s"
    if "and_then (resp2 s) resp1 = Ok s'" for s s'
    using that a.response_keeps b.response_keeps by (fastforce simp: and_then_Ok)
  show "length (bs_headers s) \<le> MAX_HEADERS \<and> length (bs_headers s') \<le> MAX_HEADERS"
    if "and_then (resp2 s) resp1 = Ok s'" for s s'
    using that a.response_counts b.response_counts by (auto simp: and_then_Ok)
qed

lemma check_header_count_Ok [simp]: "check_header_count n = Ok () \<longleftrightarrow> n \<le> MAX_HEADERS"
  by (simp add: check_header_count_def)

lemmas request_defs = h1_to_h1_request_def h1_to_h2_request_def h1_to_h3_request_def h2_to_h1_request_def
  h2_to_h2_request_def h2_to_h3_request_def h3_to_h1_request_def h3_to_h2_request_def h3_to_h3_request_def

lemmas response_defs = h1_to_h1_response_def h1_to_h2_response_def h1_to_h3_response_def h2_to_h1_response_def
  h2_to_h2_response_def h2_to_h3_response_def h3_to_h1_response_def h3_to_h2_response_def h3_to_h3_response_def

interpretation l7: bridge_contract "bridge_request b uni" "bridge_response b uni" for b uni
proof unfold_locales
  show "br_body r' = br_body r \<and> br_scheme r' = br_scheme r \<and> br_trailers r' = br_trailers r"
    if "bridge_request b uni r = Ok r'" for r r'
    using that by (cases b) (auto simp: request_defs Let_def and_then_Ok)
  show "length (br_headers r) \<le> MAX_HEADERS \<and> length (br_headers r') \<le> MAX_HEADERS"
    if "bridge_request b uni r = Ok r'" for r r'
    using that by (cases b) (auto simp: request_defs Let_def and_then_Ok)
  show "bs_status s' = bs_status s \<and> bs_body s' = bs_body s \<and> bs_trailers s' = bs_trailers s"
    if "bridge_response b uni s = Ok s'" for s s'
    using that by (cases b) (auto simp: response_defs Let_def and_then_Ok)
  show "length (bs_headers s) \<le> MAX_HEADERS \<and> length (bs_headers s') \<le> MAX_HEADERS"
    if "bridge_response b uni s = Ok s'" for s s'
    using that by (cases b) (auto simp: response_defs Let_def and_then_Ok)
qed

interpretation two_hops: bridge_chain "bridge_request b uni" "bridge_response b uni" "bridge_request c uni" "bridge_response c uni"
  for b c uni
  by unfold_locales

text \<open>The bridge created for two protocols is the one between them; whatever the protocols, a request and a
  response that cross two bridges keep what no bridge has business with.\<close>

lemma create_bridge_between: "source_protocol (create_bridge p q) = p \<and> dest_protocol (create_bridge p q) = q"
  by (cases p; cases q) simp_all

lemma two_bridges_keep:
  assumes "and_then (bridge_request (create_bridge p q) uni req) (bridge_request (create_bridge q r) uni) = Ok out"
    and "and_then (bridge_response (create_bridge q r) uni resp) (bridge_response (create_bridge p q) uni) = Ok resp'"
  shows "br_body out = br_body req \<and> br_scheme out = br_scheme req \<and> br_trailers out = br_trailers req"
    and "bs_status resp' = bs_status resp \<and> bs_body resp' = bs_body resp \<and> bs_trailers resp' = bs_trailers resp"
    and "length (br_headers req) \<le> MAX_HEADERS \<and> length (bs_headers resp) \<le> MAX_HEADERS"
  using two_hops.chain.request_keeps [OF assms(1)] two_hops.chain.request_counts [OF assms(1)]
    two_hops.chain.response_keeps [OF assms(2)] two_hops.chain.response_counts [OF assms(2)] by simp_all

section \<open>What an HTTP/1.1 bridge forwards\<close>

lemma hop_sets:
  "set h1_to_h2_HOP_BY_HOP = set h1_to_h1_HOP_BY_HOP" "set h1_to_h3_HOP_BY_HOP = set h1_to_h1_HOP_BY_HOP"
  "set h2_to_h1_RESPONSE_HOP_BY_HOP = set h1_to_h1_HOP_BY_HOP"
  "set h3_to_h1_RESPONSE_HOP_BY_HOP = set h1_to_h1_HOP_BY_HOP"
  by (auto simp: h1_to_h1_HOP_BY_HOP_def h1_to_h2_HOP_BY_HOP_def h1_to_h3_HOP_BY_HOP_def
      h2_to_h1_RESPONSE_HOP_BY_HOP_def h3_to_h1_RESPONSE_HOP_BY_HOP_def)

text \<open>The end-to-end headers of a request (RFC 9110, section 7.6.1): what is neither one of the hop-by-hop
  fields nor nominated by a \<open>Connection\<close> field, and \<open>te\<close> when it announces trailers.\<close>

definition end_to_end :: "(string \<Rightarrow> string) \<Rightarrow> string list \<Rightarrow> header \<Rightarrow> bool" where
  "end_to_end uni nominated h \<longleftrightarrow>
     (let lower = to_lowercase uni (fst h) in
      if lower = ''te'' then is_te_trailers (snd h)
      else lower \<notin> set h1_to_h1_HOP_BY_HOP \<and> lower \<notin> set nominated)"

definition forwarded :: "(string \<Rightarrow> string) \<Rightarrow> header list \<Rightarrow> header list" where
  "forwarded uni hs =
     map (\<lambda>(k, v). (to_lowercase uni k, if to_lowercase uni k = ''te'' then ''trailers'' else v))
       (filter (end_to_end uni (connection_named_headers hs)) hs)"

definition pseudo_headers :: "bridge_req \<Rightarrow> header list" where
  "pseudo_headers req =
     [('':method'', br_method req), ('':path'', br_uri req),
      ('':scheme'', case br_scheme req of Some s \<Rightarrow> s | None \<Rightarrow> ''https'')]
     @ (case find (\<lambda>(k, _). eq_ignore_ascii_case k ''host'') (br_headers req) of
          Some (_, auth) \<Rightarrow> [('':authority'', auth)] | None \<Rightarrow> [])"

text \<open>The headers an HTTP/1.1 request has behind the bridge to \<open>q\<close>.\<close>

definition bridged_headers :: "protocol \<Rightarrow> (string \<Rightarrow> string) \<Rightarrow> bridge_req \<Rightarrow> header list" where
  "bridged_headers q uni req =
     (if q = Http1 then forwarded uni (br_headers req)
      else pseudo_headers req @ filter (\<lambda>(k, _). k \<noteq> ''host'') (forwarded uni (br_headers req)))"

lemma map_filter_regular:
  "List.map_filter (regular_header uni h1_to_h1_HOP_BY_HOP conn) hs
   = filter (\<lambda>(k, _). k \<noteq> ''host'')
       (map (\<lambda>(k, v). (to_lowercase uni k, if to_lowercase uni k = ''te'' then ''trailers'' else v))
         (filter (end_to_end uni conn) hs))"
  by (induction hs) (auto simp: List.map_filter_simps regular_header_def end_to_end_def Let_def is_te_trailers_def)

lemma map_filter_h1:
  "List.map_filter (\<lambda>(k, v). let lower = to_lowercase uni k in
       if lower = ''te'' then if is_te_trailers v then Some (lower, ''trailers'') else None
       else if lower \<in> set h1_to_h1_HOP_BY_HOP then None
       else if lower \<in> set conn then None else Some (lower, v)) hs
   = map (\<lambda>(k, v). (to_lowercase uni k, if to_lowercase uni k = ''te'' then ''trailers'' else v))
       (filter (end_to_end uni conn) hs)"
  by (induction hs) (auto simp: List.map_filter_simps end_to_end_def Let_def)

lemma regular_header_hop_cong: "set hop = set hop' \<Longrightarrow> regular_header uni hop = regular_header uni hop'"
  by (intro ext) (simp add: regular_header_def Let_def split: prod.split)

lemma pseudo_headers_alt:
  "pseudo_headers req = [('':method'', br_method req), ('':path'', br_uri req),
      ('':scheme'', case br_scheme req of Some s \<Rightarrow> s | None \<Rightarrow> ''https'')]
     @ (case map_option snd (find (\<lambda>(k, _). eq_ignore_ascii_case k ''host'') (br_headers req)) of
          Some auth \<Rightarrow> [('':authority'', auth)] | None \<Rightarrow> [])"
  by (auto simp: pseudo_headers_def split: option.splits)

lemma check_count_then:
  "and_then (check_header_count n) (\<lambda>_. r) = (if n \<le> MAX_HEADERS then r else Err (TooManyHeaders n MAX_HEADERS))"
  by (simp add: check_header_count_def)

lemma h1_bridge_headers:
  "bridge_request (create_bridge Http1 q) uni req =
     (if length (br_headers req) > MAX_HEADERS then Err (TooManyHeaders (length (br_headers req)) MAX_HEADERS)
      else if length (bridged_headers q uni req) > MAX_HEADERS
        then Err (TooManyHeaders (length (bridged_headers q uni req)) MAX_HEADERS)
      else Ok (req\<lparr>br_headers := bridged_headers q uni req\<rparr>))"
proof (cases q)
  case Http1
  then show ?thesis
    by (simp add: h1_to_h1_request_def map_filter_h1 [unfolded Let_def] check_count_then bridged_headers_def forwarded_def Let_def)
next
  case Http2
  then show ?thesis
    by (simp add: h1_to_h2_request_def regular_header_hop_cong [OF hop_sets(1)] map_filter_regular check_count_then
        bridged_headers_def forwarded_def pseudo_headers_alt Let_def)
next
  case Http3
  then show ?thesis
    by (simp add: h1_to_h3_request_def regular_header_hop_cong [OF hop_sets(2)] map_filter_regular check_count_then
        bridged_headers_def forwarded_def pseudo_headers_alt Let_def)
qed

lemma forwarded_clean:
  assumes "(k, v) \<in> set (forwarded uni hs)"
  shows "(k \<in> set h1_to_h1_HOP_BY_HOP \<longrightarrow> k = ''te'' \<and> v = ''trailers'')
    \<and> (k \<in> set (connection_named_headers hs) \<longrightarrow> k = ''te'')"
  using assms by (auto simp: forwarded_def end_to_end_def Let_def split: if_splits)

text \<open>C33. The three bridges that take HTTP/1.1 requests are one function up to the pseudo-headers: each
  forwards exactly the end-to-end headers of the request, in order and with lower-case names, behind the
  pseudo-headers built from the request line and the first \<open>Host\<close> when the other side has those; the only
  errors are the two header counts. No hop-by-hop field is left but \<open>te: trailers\<close>, and no field that a
  \<open>Connection\<close> header nominates.\<close>

theorem h1_bridges_forward:
  "bridge_request (create_bridge Http1 q) uni req =
     (if length (br_headers req) > 256 then Err (TooManyHeaders (length (br_headers req)) 256)
      else if length (bridged_headers q uni req) > 256
        then Err (TooManyHeaders (length (bridged_headers q uni req)) 256)
      else Ok (req\<lparr>br_headers := bridged_headers q uni req\<rparr>))
   \<and> ((k, v) \<in> set (bridged_headers q uni req) \<longrightarrow> \<not> starts_with_colon k \<longrightarrow>
        (k \<in> set h1_to_h1_HOP_BY_HOP \<longrightarrow> k = ''te'' \<and> v = ''trailers'')
        \<and> (k \<in> set (connection_named_headers (br_headers req)) \<longrightarrow> k = ''te''))"
proof -
  have "(k, v) \<in> set (forwarded uni (br_headers req))"
    if "(k, v) \<in> set (bridged_headers q uni req)" "\<not> starts_with_colon k"
    using that by (auto simp: bridged_headers_def pseudo_headers_def starts_with_colon_def split: if_splits option.splits)
  then show ?thesis
    using h1_bridge_headers [of q uni req] forwarded_clean [of k v uni "br_headers req"] by (auto simp: MAX_HEADERS_def)
qed

theorem h1_bridges_forward_witness:
  "bridge_request (create_bridge Http1 Http2) (\<lambda>s. s)
     (bridge_request_default\<lparr>br_headers := [(''Host'', ''a''), (''Connection'', ''x-b''), (''X-B'', ''1''), (''X-C'', ''2'')]\<rparr>)
   = Ok (bridge_request_default\<lparr>br_headers := [('':method'', ''GET''), ('':path'', ''/''), ('':scheme'', ''https''),
       ('':authority'', ''a''), (''x-c'', ''2'')]\<rparr>)
   \<and> ''x-c'' \<notin> set h1_to_h1_HOP_BY_HOP"
proof -
  let ?req = "bridge_request_default\<lparr>br_headers := [(''Host'', ''a''), (''Connection'', ''x-b''), (''X-B'', ''1''), (''X-C'', ''2'')]\<rparr>"
  have b: "bridged_headers Http2 (\<lambda>s. s) ?req = [('':method'', ''GET''), ('':path'', ''/''), ('':scheme'', ''https''),
       ('':authority'', ''a''), (''x-c'', ''2'')]" by code_simp
  have "(''x-c'', ''2'') \<in> set (bridged_headers Http2 (\<lambda>s. s) ?req)" "\<not> starts_with_colon ''x-c''"
    by (simp_all add: b starts_with_colon_def)
  then show ?thesis
    using h1_bridges_forward [of Http2 "\<lambda>s. s" ?req "''x-c''" "''2''"] unfolding b by auto
qed

section \<open>Entering HTTP/1.1\<close>

lemma split_pseudo_regular:
  "sh_regular (split_pseudo uni s hs)
   = sh_regular s @ map (\<lambda>(k, v). (to_lowercase uni k, v)) (filter (\<lambda>(k, _). \<not> starts_with_colon k) hs)"
  by (induction uni s hs rule: split_pseudo.induct) (auto simp: starts_with_colon_def)

text \<open>The value of the last header of a name.\<close>

fun last_value :: "string \<Rightarrow> header list \<Rightarrow> string option" where
  "last_value n [] = None"
| "last_value n ((k, v) # hs) = (case last_value n hs of Some x \<Rightarrow> Some x | None \<Rightarrow> if k = n then Some v else None)"

definition or_else :: "'a option \<Rightarrow> 'a \<Rightarrow> 'a" where
  "or_else x d = (case x of Some y \<Rightarrow> y | None \<Rightarrow> d)"

lemma split_pseudo_fields:
  "sh_method (split_pseudo uni s hs) = or_else (last_value '':method'' hs) (sh_method s)
   \<and> sh_uri (split_pseudo uni s hs) = or_else (last_value '':path'' hs) (sh_uri s)
   \<and> sh_authority (split_pseudo uni s hs)
     = (case last_value '':authority'' hs of Some v \<Rightarrow> Some v | None \<Rightarrow> sh_authority s)"
  by (induction uni s hs rule: split_pseudo.induct) (auto simp: or_else_def split: option.splits)

lemma agree_eq: "authority_host_components_agree a h \<longleftrightarrow> authority_matches_host a h"
  by (simp add: authority_host_components_agree_def authority_matches_host_def)

lemma remove_first_host_subset:
  "remove_first_host auth hs = Ok rest \<Longrightarrow>
     (\<exists>xs ys k v. hs = xs @ (k, v) # ys \<and> rest = xs @ ys \<and> (\<forall>(n, _) \<in> set xs. \<not> eq_ignore_ascii_case n ''host'')
        \<and> eq_ignore_ascii_case k ''host'' \<and> authority_matches_host auth v)
     \<or> rest = hs \<and> (\<forall>(n, _) \<in> set hs. \<not> eq_ignore_ascii_case n ''host'')"
proof (induction auth hs arbitrary: rest rule: remove_first_host.induct)
  case (2 auth k v hs)
  show ?case
  proof (cases "eq_ignore_ascii_case k ''host''")
    case True
    then have "authority_matches_host auth v" "rest = hs"
      using 2(2) by (auto simp: agree_eq split: if_splits)
    with True show ?thesis by (intro disjI1 exI [of _ "[]"] exI [of _ hs] exI [of _ k] exI [of _ v]) simp
  next
    case False
    then obtain r where r: "remove_first_host auth hs = Ok r" "rest = (k, v) # r"
      using 2(2) by (auto simp: and_then_Ok)
    from 2(1) [OF False r(1)] show ?thesis
    proof (elim disjE exE conjE)
      fix xs ys n w assume "hs = xs @ (n, w) # ys" "r = xs @ ys" "\<forall>(n, _) \<in> set xs. \<not> eq_ignore_ascii_case n ''host''"
        "eq_ignore_ascii_case n ''host''" "authority_matches_host auth w"
      with False r(2) show ?thesis by (intro disjI1 exI [of _ "(k, v) # xs"] exI [of _ ys] exI [of _ n] exI [of _ w]) auto
    qed (use False r(2) in auto)
  qed
qed simp

lemma unambiguous_subset: "set (framings hs') \<subseteq> set (framings hs) \<Longrightarrow> unambiguous hs \<Longrightarrow> unambiguous hs'"
  by (auto simp: unambiguous_def subset_iff)

lemma framings_append: "framings (xs @ ys) = framings xs @ framings ys"
  by (induction xs rule: framings.induct) auto

lemma eq_ignore_literals [simp]:
  "\<not> eq_ignore_ascii_case ''host'' ''content-length''" "\<not> eq_ignore_ascii_case ''host'' ''transfer-encoding''"
  "to_ascii_lowercase ''host'' = ''host''" "''host'' \<notin> set PROHIBITED"
  by (simp_all add: eq_ignore_ascii_case_def to_ascii_lowercase_def PROHIBITED_def)

lemma remove_first_host_safe:
  assumes "remove_first_host auth hs = Ok rest" "check_all hs True = Ok ()"
  shows "check_all ((''host'', auth) # rest) True = Ok ()"
proof -
  have sub: "set rest \<subseteq> set hs" and fr: "set (framings rest) \<subseteq> set (framings hs)"
    using remove_first_host_subset [OF assms(1)] by (auto simp: framings_append)
  have u: "unambiguous rest"
    using unambiguous_subset [OF fr] assms(2) by (simp add: check_all_modes check_all_mode_Ok)
  then have "unambiguous ((''host'', auth) # rest)" by (simp add: unambiguous_def)
  moreover have "check_h2_downgrade hs True = Ok ()"
    using assms(2) by (simp add: check_all_modes check_all_mode_Ok)
  then have "check_h2_downgrade rest True = Ok ()" unfolding h2_downgrade_exact using sub by blast
  then have "check_h2_downgrade ((''host'', auth) # rest) True = Ok ()" by (simp add: h2_downgrade_exact)
  ultimately show ?thesis by (simp add: check_all_modes check_all_mode_Ok)
qed

lemma h2_to_h1_accepted:
  fixes uni req
  defines "regular \<equiv> map (\<lambda>(k, v). (to_lowercase uni k, v)) (filter (\<lambda>(k, _). \<not> starts_with_colon k) (br_headers req))"
  assumes "h2_to_h1_request uni req = Ok out"
  obtains auth rest where "check_all regular True = Ok ()"
    and "last_value '':authority'' (br_headers req) = Some auth" "auth \<noteq> []"
    and "remove_first_host auth regular = Ok rest"
    and "out = req\<lparr>br_method := or_else (last_value '':method'' (br_headers req)) (br_method req),
      br_uri := or_else (last_value '':path'' (br_headers req)) (br_uri req), br_headers := (''host'', auth) # rest\<rparr>"
  using assms(2) unfolding regular_def
  by (auto simp: h2_to_h1_request_def Let_def and_then_Ok ok_or_Ok split_request_def
      split_pseudo_regular split_pseudo_fields split: option.splits if_splits)

text \<open>The headers of a request that are not pseudo-headers, with lower-case names; the fields called \<open>Host\<close>.\<close>

definition regular_headers :: "(string \<Rightarrow> string) \<Rightarrow> bridge_req \<Rightarrow> header list" where
  "regular_headers uni req = map (\<lambda>(k, v). (to_lowercase uni k, v)) (filter (\<lambda>(k, _). \<not> starts_with_colon k) (br_headers req))"

definition is_host :: "header \<Rightarrow> bool" where
  "is_host h \<longleftrightarrow> eq_ignore_ascii_case (fst h) ''host''"

lemma remove_only_host:
  assumes "remove_first_host auth hs = Ok rest" and "length (filter is_host hs) \<le> 1"
  shows "rest = filter (\<lambda>h. \<not> is_host h) hs \<and> (\<forall>h \<in> set hs. is_host h \<longrightarrow> authority_matches_host auth (snd h))"
  using remove_first_host_subset [OF assms(1)]
proof (elim disjE exE conjE)
  fix xs ys k v assume *: "hs = xs @ (k, v) # ys" "rest = xs @ ys" "\<forall>(n, _) \<in> set xs. \<not> eq_ignore_ascii_case n ''host''"
    "eq_ignore_ascii_case k ''host''" "authority_matches_host auth v"
  have xs: "\<forall>h \<in> set xs. \<not> is_host h" using *(3) by (auto simp: is_host_def)
  have "filter is_host ys = []" using assms(2) *(4) by (simp add: *(1) is_host_def)
  then have ys: "\<forall>h \<in> set ys. \<not> is_host h" by (simp add: filter_empty_conv)
  show ?thesis using xs ys * by (auto simp: is_host_def)
next
  assume "rest = hs" "\<forall>(n, _) \<in> set hs. \<not> eq_ignore_ascii_case n ''host''"
  moreover from this have "filter (\<lambda>h. \<not> is_host h) hs = hs" by (auto simp: filter_id_conv is_host_def)
  ultimately show ?thesis by (auto simp: is_host_def)
qed

text \<open>C34. A request with at most one \<open>Host\<close> that an HTTP/2 client gets bridged to HTTP/1.1 cannot
  desynchronise the upstream: its header block is one \<open>Host\<close>, the last \<open>:authority\<close> of the request, which is
  not empty, and behind it the client's other regular headers, all of them and in order; the \<open>Host\<close> of the
  client, if any, agreed with the authority and is gone. The block passes the smuggling detector in its
  strictest reading, and so has no connection header and no pseudo-header and frames its body in one way,
  by a content length. Method and target are the last \<open>:method\<close> and \<open>:path\<close>.\<close>

theorem h2_to_h1_safe:
  assumes "bridge_request (create_bridge Http2 Http1) uni req = Ok out"
    and "length (filter is_host (regular_headers uni req)) \<le> 1"
  shows "check_all (br_headers out) True = Ok () \<and> unambiguous (br_headers out)
    \<and> Coded c \<notin> set (framings (br_headers out))
    \<and> (\<exists>auth. last_value '':authority'' (br_headers req) = Some auth \<and> auth \<noteq> []
        \<and> out = req\<lparr>br_method := or_else (last_value '':method'' (br_headers req)) (br_method req),
             br_uri := or_else (last_value '':path'' (br_headers req)) (br_uri req),
             br_headers := (''host'', auth) # filter (\<lambda>h. \<not> is_host h) (regular_headers uni req)\<rparr>
        \<and> (\<forall>h \<in> set (regular_headers uni req). is_host h \<longrightarrow> authority_matches_host auth (snd h)))"
proof -
  from assms(1) have "h2_to_h1_request uni req = Ok out" by simp
  then obtain auth rest where
    check: "check_all (regular_headers uni req) True = Ok ()" and
    auth: "last_value '':authority'' (br_headers req) = Some auth" "auth \<noteq> []" and
    rest: "remove_first_host auth (regular_headers uni req) = Ok rest" and
    out: "out = req\<lparr>br_method := or_else (last_value '':method'' (br_headers req)) (br_method req),
      br_uri := or_else (last_value '':path'' (br_headers req)) (br_uri req), br_headers := (''host'', auth) # rest\<rparr>"
    unfolding regular_headers_def by (rule h2_to_h1_accepted)
  have safe: "check_all (br_headers out) True = Ok ()"
    using remove_first_host_safe [OF rest check] by (simp add: out)
  then have u: "unambiguous (br_headers out)" by (simp add: check_all_modes check_all_mode_Ok)
  have "\<forall>(n, v) \<in> set (br_headers out). to_ascii_lowercase n \<notin> set PROHIBITED"
    using safe unfolding check_all_modes check_all_mode_Ok smuggle_mode.case h2_downgrade_exact by fast
  then have nc: "Coded c \<notin> set (framings (br_headers out))" by (rule no_coding)
  show ?thesis
    using remove_only_host [OF rest assms(2)] auth out by (intro conjI safe u nc exI [of _ auth]) simp_all
qed

definition h2_request :: bridge_req where
  "h2_request = bridge_request_default\<lparr>br_headers := [('':method'', ''PUT''), ('':path'', ''/x''), ('':scheme'', ''https''),
     ('':authority'', ''a.test''), (''Host'', ''A.test:443''), (''Content-Length'', ''3'')]\<rparr>"

theorem h2_to_h1_safe_witness:
  "bridge_request (create_bridge Http2 Http1) (\<lambda>s. s) h2_request = Ok (h2_request\<lparr>br_method := ''PUT'', br_uri := ''/x'',
     br_headers := [(''host'', ''a.test''), (''content-length'', ''3'')]\<rparr>)
   \<and> unambiguous [(''host'', ''a.test''), (''content-length'', ''3'')]"
proof -
  have b: "bridge_request (create_bridge Http2 Http1) (\<lambda>s. s) h2_request = Ok (h2_request\<lparr>br_method := ''PUT'', br_uri := ''/x'',
     br_headers := [(''host'', ''a.test''), (''content-length'', ''3'')]\<rparr>)" by code_simp
  have "length (filter is_host (regular_headers (\<lambda>s. s) h2_request)) \<le> 1" by code_simp
  from h2_to_h1_safe [OF b this] b show ?thesis by simp
qed

section \<open>Two gateways in a row\<close>

lemma last_value_append:
  "last_value n (xs @ ys) = (case last_value n ys of Some v \<Rightarrow> Some v | None \<Rightarrow> last_value n xs)"
  by (induction n xs rule: last_value.induct) (auto split: option.splits)

lemma last_value_other: "\<forall>(k, _) \<in> set hs. k \<noteq> n \<Longrightarrow> last_value n hs = None"
  by (induction n hs rule: last_value.induct) auto

text \<open>Headers as a bridge out of HTTP/1.1 leaves them.\<close>

definition relayed :: "header \<Rightarrow> bool" where
  "relayed h \<longleftrightarrow> is_ascii (fst h) \<and> to_ascii_lowercase (fst h) = fst h \<and> \<not> starts_with_colon (fst h) \<and> fst h \<noteq> ''host''"

lemma lower_char_colon: "lower_char c = CHR '':'' \<longleftrightarrow> c = CHR '':''"
proof -
  have "lower_char c = CHR '':'' \<longleftrightarrow> (of_char (lower_char c) :: int) = of_char (CHR '':'')" by (simp only: of_char_eq_iff)
  also have "\<dots> \<longleftrightarrow> (of_char c :: int) = of_char (CHR '':'')" by (auto simp: of_lower_char)
  also have "\<dots> \<longleftrightarrow> c = CHR '':''" by (simp only: of_char_eq_iff)
  finally show ?thesis .
qed

lemma forwarded_relayed:
  assumes "\<forall>(k, _) \<in> set hs. is_ascii k \<and> \<not> starts_with_colon k"
  shows "\<forall>h \<in> set (filter (\<lambda>(k, _). k \<noteq> ''host'') (forwarded uni hs)). relayed h"
proof
  fix h assume "h \<in> set (filter (\<lambda>(k, _). k \<noteq> ''host'') (forwarded uni hs))"
  then obtain k v where k: "(k, v) \<in> set hs" "fst h = to_lowercase uni k" "fst h \<noteq> ''host''"
    by (auto simp: forwarded_def)
  then have a: "is_ascii k" "\<not> starts_with_colon k" using assms by auto
  have "is_ascii (to_ascii_lowercase k)"
    using a(1) by (auto simp: is_ascii_def to_ascii_lowercase_map list_all_iff of_lower_char)
  moreover have "\<not> starts_with_colon (to_ascii_lowercase k)"
    using a(2) by (cases k) (auto simp: starts_with_colon_def to_ascii_lowercase_map lower_char_colon)
  ultimately show "relayed h" using k a(1) by (simp add: relayed_def to_lowercase_def to_ascii_lowercase_map)
qed

lemma relayed_regular:
  assumes "\<forall>h \<in> set hs. relayed h" and "\<forall>(k, _) \<in> set ps. starts_with_colon k"
  shows "regular_headers uni (req\<lparr>br_headers := ps @ hs\<rparr>) = hs"
proof -
  have "filter (\<lambda>(k, _). \<not> starts_with_colon k) ps = []" using assms(2) by (auto simp: filter_empty_conv)
  moreover have "filter (\<lambda>(k, _). \<not> starts_with_colon k) hs = hs"
    using assms(1) by (force simp: filter_id_conv relayed_def)
  moreover have "map (\<lambda>(k, v). (to_lowercase uni k, v)) hs = hs"
    using assms(1) by (auto simp: to_lowercase_def relayed_def intro!: map_idI)
  ultimately show ?thesis by (simp add: regular_headers_def)
qed

lemma to_h1_accepted:
  assumes "bridge_request (create_bridge q Http1) uni req = Ok out" and "q \<noteq> Http1"
    and "\<forall>h \<in> set (regular_headers uni req). relayed h"
  shows "\<exists>auth. last_value '':authority'' (br_headers req) = Some auth \<and> auth \<noteq> []
    \<and> out = req\<lparr>br_method := or_else (last_value '':method'' (br_headers req)) (br_method req),
         br_uri := or_else (last_value '':path'' (br_headers req)) (br_uri req),
         br_headers := (''host'', auth) # regular_headers uni req\<rparr>"
proof (cases q)
  case Http2
  have "\<forall>h \<in> set (regular_headers uni req). \<not> is_host h"
    using assms(3) by (auto simp: is_host_def eq_ignore_ascii_case_def relayed_def)
  then have none: "filter is_host (regular_headers uni req) = []"
    "filter (\<lambda>h. \<not> is_host h) (regular_headers uni req) = regular_headers uni req"
    by (simp_all add: filter_empty_conv)
  from assms(1) Http2 have "h2_to_h1_request uni req = Ok out" by simp
  then obtain auth rest where "last_value '':authority'' (br_headers req) = Some auth" "auth \<noteq> []"
    "remove_first_host auth (regular_headers uni req) = Ok rest"
    "out = req\<lparr>br_method := or_else (last_value '':method'' (br_headers req)) (br_method req),
      br_uri := or_else (last_value '':path'' (br_headers req)) (br_uri req), br_headers := (''host'', auth) # rest\<rparr>"
    unfolding regular_headers_def by (rule h2_to_h1_accepted)
  then show ?thesis using remove_only_host [of auth _ rest] none by simp
next
  case Http3
  with assms(1) show ?thesis
    by (auto simp: h3_to_h1_request_def Let_def and_then_Ok ok_or_Ok split_request_def regular_headers_def
      split_pseudo_regular split_pseudo_fields split: option.splits if_splits)
qed (use assms(2) in simp)

text \<open>C32. Two gateways in a row are transparent: an HTTP/1.1 request with ASCII header names, none with a colon
  in front, that is carried over HTTP/2 or HTTP/3 to a second gateway and bridged back arrives with its
  method, target, scheme, body and trailers, with the value of its first \<open>Host\<close> as its only \<open>Host\<close>, in
  front, and behind it its end-to-end headers, all of them and in order; the request had such a \<open>Host\<close>.\<close>

theorem two_gateways_transparent:
  assumes "and_then (bridge_request (create_bridge Http1 q) uni req) (bridge_request (create_bridge q Http1) uni) = Ok out"
    and "q \<noteq> Http1" and "\<forall>(k, _) \<in> set (br_headers req). is_ascii k \<and> \<not> starts_with_colon k"
  shows "\<exists>k auth. find (\<lambda>(k, _). eq_ignore_ascii_case k ''host'') (br_headers req) = Some (k, auth) \<and> auth \<noteq> []
    \<and> out = req\<lparr>br_headers := (''host'', auth) # filter (\<lambda>(k, _). k \<noteq> ''host'') (forwarded uni (br_headers req))\<rparr>"
proof -
  let ?fs = "filter (\<lambda>(k, _). k \<noteq> ''host'') (forwarded uni (br_headers req))"
  let ?mid = "req\<lparr>br_headers := pseudo_headers req @ ?fs\<rparr>"
  have mid: "bridge_request (create_bridge q Http1) uni ?mid = Ok out"
    using assms(1,2) by (auto simp: and_then_Ok h1_bridge_headers bridged_headers_def split: if_splits)
  have fs: "\<forall>h \<in> set ?fs. relayed h" using assms(3) by (rule forwarded_relayed)
  have "\<forall>(k, _) \<in> set (pseudo_headers req). starts_with_colon k"
    by (auto simp: pseudo_headers_def starts_with_colon_def split: option.splits)
  with fs have reg: "regular_headers uni ?mid = ?fs" by (rule relayed_regular)
  have none: "last_value n ?fs = None" if "starts_with_colon n" for n
    using fs that by (intro last_value_other) (auto simp: relayed_def)
  have vals: "last_value '':method'' (br_headers ?mid) = Some (br_method req)"
    "last_value '':path'' (br_headers ?mid) = Some (br_uri req)"
    "last_value '':authority'' (br_headers ?mid)
      = map_option snd (find (\<lambda>(k, _). eq_ignore_ascii_case k ''host'') (br_headers req))"
    using none by (auto simp: last_value_append pseudo_headers_def starts_with_colon_def split: option.splits)
  from to_h1_accepted [OF mid assms(2)] fs reg obtain auth where
    auth: "last_value '':authority'' (br_headers ?mid) = Some auth" "auth \<noteq> []" and
    out: "out = ?mid\<lparr>br_method := or_else (last_value '':method'' (br_headers ?mid)) (br_method ?mid),
      br_uri := or_else (last_value '':path'' (br_headers ?mid)) (br_uri ?mid), br_headers := (''host'', auth) # ?fs\<rparr>"
    by auto
  show ?thesis using auth out unfolding vals by (auto simp: or_else_def)
qed

theorem two_gateways_transparent_witness:
  "\<exists>out. and_then (bridge_request (create_bridge Http1 Http2) (\<lambda>s. s)
      (bridge_request_default\<lparr>br_headers := [(''Host'', ''a''), (''X'', ''1'')], br_body := [1, 2]\<rparr>))
      (bridge_request (create_bridge Http2 Http1) (\<lambda>s. s)) = Ok out
    \<and> out = bridge_request_default\<lparr>br_headers := [(''host'', ''a''), (''x'', ''1'')], br_body := [1, 2]\<rparr>"
proof -
  let ?req = "bridge_request_default\<lparr>br_headers := [(''Host'', ''a''), (''X'', ''1'')], br_body := [1, 2]\<rparr>"
  let ?run = "and_then (bridge_request (create_bridge Http1 Http2) (\<lambda>s. s) ?req)
      (bridge_request (create_bridge Http2 Http1) (\<lambda>s. s))"
  have "\<not> isl ?run" by code_simp
  then obtain out where run: "?run = Ok out" by (cases ?run) auto
  have names: "\<forall>(k, _) \<in> set (br_headers ?req). is_ascii k \<and> \<not> starts_with_colon k" by code_simp
  have f: "find (\<lambda>(k, _). eq_ignore_ascii_case k ''host'') (br_headers ?req) = Some (''Host'', ''a'')"
    "filter (\<lambda>(k, _). k \<noteq> ''host'') (forwarded (\<lambda>s. s) (br_headers ?req)) = [(''x'', ''1'')]" by code_simp+
  from two_gateways_transparent [OF run _ names] f run show ?thesis by auto
qed

text \<open>Two gaps beside that guarantee. Only the first \<open>Host\<close> of an HTTP/2 request is compared and removed, so a
  second one reaches the upstream next to the first; and the HTTP/3 bridge runs neither check.\<close>

lemma second_host_kept:
  "bridge_request (create_bridge Http2 Http1) (\<lambda>s. s)
     (bridge_request_default\<lparr>br_headers := [('':authority'', ''a.test''), (''host'', ''a.test''), (''host'', ''b.test'')]\<rparr>)
   = Ok (bridge_request_default\<lparr>br_headers := [(''host'', ''a.test''), (''host'', ''b.test'')]\<rparr>)"
  by code_simp

lemma h3_to_h1_unchecked:
  "bridge_request (create_bridge Http3 Http1) (\<lambda>s. s)
     (bridge_request_default\<lparr>br_headers := [('':authority'', ''a.test''), (''host'', ''b.test''), (''content-length'', ''3''),
       (''transfer-encoding'', ''chunked'')]\<rparr>)
   = Ok (bridge_request_default\<lparr>br_headers := [(''host'', ''a.test''), (''host'', ''b.test''), (''content-length'', ''3''),
       (''transfer-encoding'', ''chunked'')]\<rparr>)
   \<and> \<not> unambiguous [(''host'', ''a.test''), (''host'', ''b.test''), (''content-length'', ''3''), (''transfer-encoding'', ''chunked'')]"
proof -
  have "check_all [(''host'', ''a.test''), (''host'', ''b.test''), (''content-length'', ''3''),
    (''transfer-encoding'', ''chunked'')] False \<noteq> Ok ()" by code_simp
  then have "\<not> unambiguous [(''host'', ''a.test''), (''host'', ''b.test''), (''content-length'', ''3''),
    (''transfer-encoding'', ''chunked'')]" by (simp add: check_all_modes check_all_mode_Ok)
  moreover have "bridge_request (create_bridge Http3 Http1) (\<lambda>s. s)
     (bridge_request_default\<lparr>br_headers := [('':authority'', ''a.test''), (''host'', ''b.test''), (''content-length'', ''3''),
       (''transfer-encoding'', ''chunked'')]\<rparr>)
   = Ok (bridge_request_default\<lparr>br_headers := [(''host'', ''a.test''), (''host'', ''b.test''), (''content-length'', ''3''),
       (''transfer-encoding'', ''chunked'')]\<rparr>)" by code_simp
  ultimately show ?thesis by blast
qed

end
