(* ===== verification/H3_Ingress.thy ===== *)
theory H3_Ingress
  imports Bridges
begin

text \<open>
  Admission of HTTP/3 requests (\<open>lb-quic/src/h3_bridge.rs\<close>, called from \<open>poll_h3\<close> in
  \<open>lb-quic/src/conn_actor.rs\<close>): the pseudo-header rules of RFC 9114 and RFC 9220, the request built from an
  accepted field list, and the check of its authority. The step of \<open>poll_h3\<close> before it, which drains a
  connection that has served its number of requests, is not part of the model.
\<close>

section \<open>The code\<close>

record h3_request =
  hq_method :: string
  hq_path :: string
  hq_authority :: string
  hq_extra :: "header list"
  hq_trailers :: "header list"

definition h3_request_default :: h3_request where
  "h3_request_default = \<lparr>hq_method = ''GET'', hq_path = ''/'', hq_authority = [], hq_extra = [], hq_trailers = []\<rparr>"

fun from_headers_loop ::
  "string option \<Rightarrow> string option \<Rightarrow> string option \<Rightarrow> header list \<Rightarrow> header list \<Rightarrow> h3_request" where
  "from_headers_loop m p a extra [] =
     \<lparr>hq_method = or_else m ''GET'', hq_path = or_else p ''/'', hq_authority = or_else a [], hq_extra = extra,
       hq_trailers = []\<rparr>"
| "from_headers_loop m p a extra ((name, v) # hs) =
     (if name = '':method'' then from_headers_loop (Some v) p a extra hs
      else if name = '':path'' then from_headers_loop m (Some v) a extra hs
      else if name = '':authority'' then from_headers_loop m p (Some v) extra hs
      else if name = '':scheme'' then from_headers_loop m p a extra hs
      else from_headers_loop m p a (extra @ [(name, v)]) hs)"

definition from_headers :: "header list \<Rightarrow> h3_request" where
  "from_headers hs = from_headers_loop None None None [] hs"

text \<open>The section sign of the messages, in UTF-8.\<close>

definition sect :: string where
  "sect = [CHR 0xC2, CHR 0xA7]"

record pseudo_state =
  ps_method :: "string option"
  ps_scheme :: "string option"
  seen_path :: bool
  seen_authority :: bool
  seen_host :: bool
  seen_protocol :: bool
  seen_regular :: bool

definition pseudo_field :: "bool \<Rightarrow> pseudo_state \<Rightarrow> header \<Rightarrow> (pseudo_state, string) result" where
  "pseudo_field ws_enabled st = (\<lambda>(name, v).
     if starts_with_colon name then
       if seen_regular st then Err (''h3 pseudo-header after regular field (RFC 9114 '' @ sect @ ''4.3)'')
       else if name = '':method'' then
         if ps_method st \<noteq> None then Err (''h3 duplicate :method pseudo-header (RFC 9114 '' @ sect @ ''4.3.1)'')
         else Ok (st\<lparr>ps_method := Some v\<rparr>)
       else if name = '':scheme'' then
         if ps_scheme st \<noteq> None then Err (''h3 duplicate :scheme pseudo-header (RFC 9114 '' @ sect @ ''4.3.1)'')
         else Ok (st\<lparr>ps_scheme := Some v\<rparr>)
       else if name = '':path'' then
         if seen_path st then Err (''h3 duplicate :path pseudo-header (RFC 9114 '' @ sect @ ''4.3.1)'')
         else Ok (st\<lparr>seen_path := True\<rparr>)
       else if name = '':authority'' then
         if seen_authority st then Err (''h3 duplicate :authority pseudo-header (RFC 9114 '' @ sect @ ''4.3.1)'')
         else Ok (st\<lparr>seen_authority := True\<rparr>)
       else if name = '':protocol'' \<and> ws_enabled then
         if seen_protocol st then Err (''h3 duplicate :protocol pseudo-header (RFC 9114 '' @ sect @ ''4.3.1)'')
         else Ok (st\<lparr>seen_protocol := True\<rparr>)
       else Err (''h3 prohibited/unknown request pseudo-header (RFC 9114 '' @ sect @ ''4.3)'')
     else
       Ok (st\<lparr>seen_regular := True, seen_host := seen_host st \<or> eq_ignore_ascii_case name ''host''\<rparr>))"

fun pseudo_loop :: "bool \<Rightarrow> pseudo_state \<Rightarrow> header list \<Rightarrow> (pseudo_state, string) result" where
  "pseudo_loop ws_enabled st [] = Ok st"
| "pseudo_loop ws_enabled st (h # hs) = and_then (pseudo_field ws_enabled st h) (\<lambda>st'. pseudo_loop ws_enabled st' hs)"

definition mandatory_fields :: "pseudo_state \<Rightarrow> (unit, string) result" where
  "mandatory_fields st =
     (case ps_method st of
        None \<Rightarrow> Err (''h3 missing mandatory :method pseudo-header (RFC 9114 '' @ sect @ ''4.3.1)'')
      | Some m \<Rightarrow>
          if m = ''CONNECT'' \<and> seen_protocol st then
            if ps_scheme st = None then Err (''h3 websocket extended CONNECT missing :scheme (RFC 8441 '' @ sect @ ''4)'')
            else if \<not> seen_path st then Err (''h3 websocket extended CONNECT missing :path (RFC 8441 '' @ sect @ ''4)'')
            else if \<not> seen_authority st
              then Err (''h3 websocket extended CONNECT missing :authority (RFC 8441 '' @ sect @ ''4)'')
            else Ok ()
          else if m = ''CONNECT'' then
            if ps_scheme st \<noteq> None \<or> seen_path st
              then Err (''h3 CONNECT request must omit :scheme/:path (RFC 9114 '' @ sect @ ''4.4)'')
            else if \<not> seen_authority st then Err (''h3 CONNECT request missing :authority (RFC 9114 '' @ sect @ ''4.4)'')
            else Ok ()
          else if seen_protocol st
            then Err (''h3 :protocol pseudo-header requires :method=CONNECT (RFC 8441 '' @ sect @ ''4)'')
          else case ps_scheme st of
            None \<Rightarrow> Err (''h3 missing mandatory :scheme pseudo-header (RFC 9114 '' @ sect @ ''4.3.1)'')
          | Some scheme \<Rightarrow>
              if \<not> seen_path st then Err (''h3 missing mandatory :path pseudo-header (RFC 9114 '' @ sect @ ''4.3.1)'')
              else
                let mandatory_authority = (eq_ignore_ascii_case scheme ''https'' \<or> eq_ignore_ascii_case scheme ''http'')
                in if mandatory_authority \<and> \<not> seen_authority st \<and> \<not> seen_host st
                   then Err (''h3 http/https request missing :authority or Host (RFC 9114 '' @ sect @ ''4.3.1)'')
                   else Ok ())"

definition pseudo_start :: pseudo_state where
  "pseudo_start = \<lparr>ps_method = None, ps_scheme = None, seen_path = False, seen_authority = False, seen_host = False,
     seen_protocol = False, seen_regular = False\<rparr>"

definition validate_request_pseudo_headers :: "header list \<Rightarrow> bool \<Rightarrow> (unit, string) result" where
  "validate_request_pseudo_headers hs ws_enabled =
     and_then (pseudo_loop ws_enabled pseudo_start hs) mandatory_fields"

text \<open>What \<open>poll_h3\<close> does with the field list of a new request before any upstream is chosen: reset the
  stream, answer 400, open a WebSocket tunnel, or start a request.\<close>

datatype admission = ResetStream string | Answer400 authority_error | Tunnel h3_request string | Start h3_request

definition admit_request :: "header list \<Rightarrow> bool \<Rightarrow> admission" where
  "admit_request hs ws_enabled =
     (case validate_request_pseudo_headers hs ws_enabled of
        Inl reason \<Rightarrow> ResetStream reason
      | Inr _ \<Rightarrow>
          let req = from_headers hs in
          case (if hq_authority req = [] then Ok () else validate (hq_authority req)) of
            Inl e \<Rightarrow> Answer400 e
          | Inr _ \<Rightarrow>
              if ws_enabled then
                case find (\<lambda>(n, _). n = '':protocol'') (hq_extra req) of
                  Some (_, protocol) \<Rightarrow> Tunnel req protocol
                | None \<Rightarrow> Start req
              else Start req)"

section \<open>What is accepted\<close>

abbreviation names :: "header list \<Rightarrow> string set" where
  "names hs \<equiv> fst ` set hs"

definition registered :: "bool \<Rightarrow> string set" where
  "registered ws = {'':method'', '':scheme'', '':path'', '':authority''} \<union> (if ws then {'':protocol''} else {})"

text \<open>The rules on which fields there must be, given the pseudo-headers and the regular fields.\<close>

definition fields_present :: "header list \<Rightarrow> header list \<Rightarrow> bool" where
  "fields_present ps rs \<longleftrightarrow>
     (case map_of ps '':method'' of
        None \<Rightarrow> False
      | Some m \<Rightarrow>
          if m = ''CONNECT'' then
            '':authority'' \<in> names ps
            \<and> (if '':protocol'' \<in> names ps then '':scheme'' \<in> names ps \<and> '':path'' \<in> names ps
               else '':scheme'' \<notin> names ps \<and> '':path'' \<notin> names ps)
          else
            '':protocol'' \<notin> names ps \<and> '':path'' \<in> names ps
            \<and> (\<exists>s. map_of ps '':scheme'' = Some s
                 \<and> (eq_ignore_ascii_case s ''https'' \<or> eq_ignore_ascii_case s ''http''
                    \<longrightarrow> '':authority'' \<in> names ps \<or> (\<exists>n \<in> names rs. eq_ignore_ascii_case n ''host''))))"

text \<open>A request head: registered pseudo-headers, each once, then the regular fields.\<close>

definition request_head :: "bool \<Rightarrow> header list \<Rightarrow> header list \<Rightarrow> bool" where
  "request_head ws ps rs \<longleftrightarrow> distinct (map fst ps) \<and> names ps \<subseteq> registered ws
     \<and> (\<forall>n \<in> names rs. \<not> starts_with_colon n) \<and> fields_present ps rs"

text \<open>The state of the loop after the pseudo-headers \<open>ps\<close> and the regular fields \<open>rs\<close>.\<close>

definition state_of :: "header list \<Rightarrow> header list \<Rightarrow> pseudo_state" where
  "state_of ps rs = \<lparr>ps_method = map_of ps '':method'', ps_scheme = map_of ps '':scheme'',
     seen_path = ('':path'' \<in> names ps), seen_authority = ('':authority'' \<in> names ps),
     seen_host = (\<exists>n \<in> names rs. eq_ignore_ascii_case n ''host''), seen_protocol = ('':protocol'' \<in> names ps),
     seen_regular = (rs \<noteq> [])\<rparr>"

lemma registered_colon: "n \<in> registered ws \<Longrightarrow> starts_with_colon n"
  by (auto simp: registered_def starts_with_colon_def split: if_splits)

lemma map_of_snoc: "n \<notin> names ps \<Longrightarrow> map_of (ps @ [(n, v)]) m = (if m = n then Some v else map_of ps m)"
  by (induction ps) auto

lemma registered_cases:
  "n \<in> registered ws \<longleftrightarrow> n = '':method'' \<or> n = '':scheme'' \<or> n = '':path'' \<or> n = '':authority''
     \<or> n = '':protocol'' \<and> ws"
  by (simp add: registered_def)

lemma field_fresh:
  assumes "n \<in> registered ws" "n \<notin> names ps"
  shows "pseudo_field ws (state_of ps []) (n, v) = Ok (state_of (ps @ [(n, v)]) [])"
proof -
  have "map_of ps n = None" using assms(2) by (simp add: map_of_eq_None_iff)
  with assms show ?thesis
    unfolding registered_cases
    by (elim disjE conjE)
      (simp_all add: pseudo_field_def starts_with_colon_def state_of_def map_add_def split: option.split)
qed

lemma field_repeated:
  assumes "starts_with_colon n" "n \<notin> registered ws \<or> n \<in> names ps"
  shows "pseudo_field ws (state_of ps []) (n, v) \<noteq> Ok st"
proof (cases "n \<in> registered ws")
  case True
  with assms obtain w where "map_of ps n = Some w" by (metis map_of_eq_None_iff not_None_eq)
  moreover have "n \<in> names ps" using assms(2) True by blast
  ultimately show ?thesis
    using True unfolding registered_cases
    by (elim disjE conjE) (simp_all add: pseudo_field_def starts_with_colon_def state_of_def)
qed (use assms in \<open>cases ws; simp add: pseudo_field_def registered_cases state_of_def\<close>)

lemma field_pseudo:
  assumes "starts_with_colon n"
  shows "pseudo_field ws (state_of ps []) (n, v) = Ok st
    \<longleftrightarrow> n \<notin> names ps \<and> n \<in> registered ws \<and> st = state_of (ps @ [(n, v)]) []"
  using field_fresh [of n ws ps v] field_repeated [OF assms, of ws ps v st] by fastforce

lemma field_after:
  "pseudo_field ws (state_of ps rs) (n, v) = Ok st \<longleftrightarrow> \<not> starts_with_colon n \<and> st = state_of ps (rs @ [(n, v)])"
  if "rs \<noteq> [] \<or> \<not> starts_with_colon n"
  using that by (auto simp: pseudo_field_def state_of_def)

lemma loop_after:
  "rs \<noteq> [] \<Longrightarrow> pseudo_loop ws (state_of ps rs) hs = Ok st
     \<longleftrightarrow> (\<forall>n \<in> names hs. \<not> starts_with_colon n) \<and> st = state_of ps (rs @ hs)"
proof (induction hs arbitrary: rs)
  case (Cons h hs)
  obtain n v where h: "h = (n, v)" by fastforce
  from Cons.IH [of "rs @ [(n, v)]"] Cons.prems show ?case by (auto simp: h and_then_Ok field_after)
qed auto

definition registered_once :: "bool \<Rightarrow> header list \<Rightarrow> bool" where
  "registered_once ws ps \<longleftrightarrow> distinct (map fst ps) \<and> names ps \<subseteq> registered ws"

definition regular :: "header list \<Rightarrow> bool" where
  "regular rs \<longleftrightarrow> (\<forall>n \<in> names rs. \<not> starts_with_colon n)"

definition splits :: "bool \<Rightarrow> header list \<Rightarrow> header list \<Rightarrow> pseudo_state \<Rightarrow> bool" where
  "splits ws ps hs st \<longleftrightarrow>
     (\<exists>qs rs. hs = qs @ rs \<and> registered_once ws (ps @ qs) \<and> regular rs \<and> st = state_of (ps @ qs) rs)"

lemma splits_pseudo:
  assumes "starts_with_colon n"
  shows "splits ws ps ((n, v) # hs) st \<longleftrightarrow> splits ws (ps @ [(n, v)]) hs st"
proof
  assume "splits ws ps ((n, v) # hs) st"
  then obtain qs rs where r: "(n, v) # hs = qs @ rs" "registered_once ws (ps @ qs)" "regular rs" "st = state_of (ps @ qs) rs"
    by (auto simp: splits_def)
  then obtain qs' where "qs = (n, v) # qs'" "hs = qs' @ rs"
    using assms by (cases qs) (auto simp: regular_def)
  with r show "splits ws (ps @ [(n, v)]) hs st"
    unfolding splits_def by (intro exI [of _ qs'] exI [of _ rs]) simp
next
  assume "splits ws (ps @ [(n, v)]) hs st"
  then obtain qs rs where "hs = qs @ rs" "registered_once ws ((ps @ [(n, v)]) @ qs)" "regular rs"
    "st = state_of ((ps @ [(n, v)]) @ qs) rs" by (auto simp: splits_def)
  then show "splits ws ps ((n, v) # hs) st"
    unfolding splits_def by (intro exI [of _ "(n, v) # qs"] exI [of _ rs]) simp
qed

lemma splits_regular:
  assumes "\<not> starts_with_colon n" "registered_once ws ps"
  shows "splits ws ps ((n, v) # hs) st \<longleftrightarrow> regular hs \<and> st = state_of ps ((n, v) # hs)"
proof
  assume "splits ws ps ((n, v) # hs) st"
  then obtain qs rs where r: "(n, v) # hs = qs @ rs" "registered_once ws (ps @ qs)" "regular rs" "st = state_of (ps @ qs) rs"
    by (auto simp: splits_def)
  then have "qs = []" using assms registered_colon [of n ws] by (cases qs) (auto simp: registered_once_def)
  with r show "regular hs \<and> st = state_of ps ((n, v) # hs)" by (auto simp: regular_def)
next
  assume "regular hs \<and> st = state_of ps ((n, v) # hs)"
  with assms show "splits ws ps ((n, v) # hs) st"
    unfolding splits_def by (intro exI [of _ "[]"] exI [of _ "(n, v) # hs"]) (auto simp: regular_def)
qed

lemma registered_once_snoc:
  "registered_once ws (ps @ [(n, v)]) \<longleftrightarrow> registered_once ws ps \<and> n \<notin> names ps \<and> n \<in> registered ws"
  by (auto simp: registered_once_def)

lemma splits_registered: "splits ws ps hs st \<Longrightarrow> registered_once ws ps"
  by (auto simp: splits_def registered_once_def)

lemma loop_splits: "registered_once ws ps \<Longrightarrow> pseudo_loop ws (state_of ps []) hs = Ok st \<longleftrightarrow> splits ws ps hs st"
proof (induction hs arbitrary: ps)
  case Nil
  then show ?case by (auto simp: splits_def regular_def)
next
  case (Cons h hs)
  obtain n v where h: "h = (n, v)" by fastforce
  show ?case
  proof (cases "starts_with_colon n")
    case True
    have "pseudo_loop ws (state_of ps []) (h # hs) = Ok st
      \<longleftrightarrow> n \<notin> names ps \<and> n \<in> registered ws \<and> pseudo_loop ws (state_of (ps @ [(n, v)]) []) hs = Ok st"
      by (auto simp: h and_then_Ok field_pseudo [OF True])
    then show ?thesis
      using Cons.IH [of "ps @ [(n, v)]"] Cons.prems splits_registered [of ws "ps @ [(n, v)]" hs st]
      unfolding h splits_pseudo [OF True] registered_once_snoc by blast
  next
    case False
    have "pseudo_loop ws (state_of ps []) (h # hs) = Ok st
      \<longleftrightarrow> regular hs \<and> st = state_of ps (h # hs)"
      using False loop_after [of "[h]" ws ps hs st] by (auto simp: h and_then_Ok field_after regular_def)
    then show ?thesis unfolding h splits_regular [OF False Cons.prems] .
  qed
qed

lemma mandatory_iff: "mandatory_fields (state_of ps rs) = Ok () \<longleftrightarrow> fields_present ps rs"
proof -
  have "map_of ps '':scheme'' = None \<longleftrightarrow> '':scheme'' \<notin> names ps" by (simp add: map_of_eq_None_iff)
  then show ?thesis
    by (cases "map_of ps '':scheme''")
      (simp_all add: mandatory_fields_def fields_present_def state_of_def Let_def split: option.split)
qed

lemma state_start: "pseudo_start = state_of [] []"
  by (simp add: pseudo_start_def state_of_def)

lemma validate_pseudo_Ok:
  "validate_request_pseudo_headers hs ws = Ok () \<longleftrightarrow> (\<exists>ps rs. hs = ps @ rs \<and> request_head ws ps rs)"
proof -
  have "validate_request_pseudo_headers hs ws = Ok () \<longleftrightarrow> (\<exists>st. splits ws [] hs st \<and> mandatory_fields st = Ok ())"
    by (simp add: validate_request_pseudo_headers_def state_start and_then_Ok loop_splits registered_once_def)
  also have "\<dots> \<longleftrightarrow> (\<exists>ps rs. hs = ps @ rs \<and> registered_once ws ps \<and> regular rs \<and> mandatory_fields (state_of ps rs) = Ok ())"
    unfolding splits_def append_Nil by blast
  also have "\<dots> \<longleftrightarrow> (\<exists>ps rs. hs = ps @ rs \<and> request_head ws ps rs)"
    unfolding mandatory_iff request_head_def registered_once_def regular_def by (simp only: conj_assoc)
  finally show ?thesis .
qed

section \<open>The request that is built\<close>

definition actionable :: "string set" where
  "actionable = {'':method'', '':path'', '':authority'', '':scheme''}"

lemma actionable_colon: "n \<in> actionable \<Longrightarrow> starts_with_colon n"
  unfolding actionable_def by (elim insertE) (simp_all add: starts_with_colon_def)

lemma registered_actionable: "n \<in> registered ws \<Longrightarrow> n \<notin> actionable \<longleftrightarrow> n = '':protocol''"
  unfolding registered_cases actionable_def by (elim disjE conjE) simp_all

lemma from_headers_loop_eq:
  "from_headers_loop m p a extra hs =
     \<lparr>hq_method = or_else (last_value '':method'' hs) (or_else m ''GET''),
      hq_path = or_else (last_value '':path'' hs) (or_else p ''/''),
      hq_authority = or_else (last_value '':authority'' hs) (or_else a []),
      hq_extra = extra @ filter (\<lambda>(n, _). n \<notin> actionable) hs,
      hq_trailers = []\<rparr>"
  by (induction m p a extra hs rule: from_headers_loop.induct)
    (simp_all add: or_else_def actionable_def split: option.split)

lemma last_value_None: "n \<notin> names hs \<Longrightarrow> last_value n hs = None"
  by (induction n hs rule: last_value.induct) auto

lemma last_value_distinct: "distinct (map fst hs) \<Longrightarrow> last_value n hs = map_of hs n"
  by (induction n hs rule: last_value.induct) (auto simp: last_value_None split: option.splits)

text \<open>The request of a head: its pseudo-headers by name, and the other fields.\<close>

definition request_of :: "header list \<Rightarrow> header list \<Rightarrow> h3_request" where
  "request_of ps rs =
     \<lparr>hq_method = or_else (map_of ps '':method'') ''GET'', hq_path = or_else (map_of ps '':path'') ''/'',
      hq_authority = or_else (map_of ps '':authority'') [],
      hq_extra = filter (\<lambda>(n, _). n = '':protocol'') ps @ rs, hq_trailers = []\<rparr>"

lemma from_headers_head:
  assumes "request_head ws ps rs"
  shows "from_headers (ps @ rs) = request_of ps rs"
proof -
  have reg: "n \<notin> names rs" if "starts_with_colon n" for n using assms that by (auto simp: request_head_def)
  have "last_value n (ps @ rs) = map_of ps n" if "starts_with_colon n" for n
    using assms reg [OF that] by (simp add: last_value_append last_value_None last_value_distinct request_head_def)
  moreover have "filter (\<lambda>(n, _). n \<notin> actionable) rs = rs"
  proof (intro filter_True ballI)
    fix h assume "h \<in> set rs"
    then have "\<not> starts_with_colon (fst h)" using assms by (simp add: request_head_def)
    then show "case h of (n, _) \<Rightarrow> n \<notin> actionable"
      using actionable_colon [of "fst h"] by (cases h) auto
  qed
  moreover have "filter (\<lambda>(n, _). n \<notin> actionable) ps = filter (\<lambda>(n, _). n = '':protocol'') ps"
  proof (intro filter_cong refl)
    fix h assume "h \<in> set ps"
    then have "fst h \<in> registered ws" using assms by (auto simp: request_head_def)
    then show "(case h of (n, _) \<Rightarrow> n \<notin> actionable) = (case h of (n, _) \<Rightarrow> n = '':protocol'')"
      using registered_actionable [of "fst h" ws] by (cases h) simp
  qed
  ultimately show ?thesis
    by (simp add: from_headers_def from_headers_loop_eq request_of_def or_else_def starts_with_colon_def)
qed

lemma head_unique:
  assumes "ps @ rs = ps' @ rs'" "request_head ws ps rs" "request_head ws ps' rs'"
  shows "ps = ps' \<and> rs = rs'"
proof -
  have "takeWhile (\<lambda>h. starts_with_colon (fst h)) (ps @ rs) = ps" if "request_head ws ps rs" for ps rs
  proof -
    have "takeWhile (\<lambda>h. starts_with_colon (fst h)) rs = []"
      using that by (cases rs) (auto simp: request_head_def)
    moreover have "starts_with_colon (fst h)" if "h \<in> set ps" for h
      using that registered_colon [of "fst h" ws] \<open>request_head ws ps rs\<close> by (auto simp: request_head_def)
    ultimately show ?thesis by (simp add: takeWhile_append2)
  qed
  from this [OF assms(2)] this [OF assms(3)] assms(1) show ?thesis by simp
qed

lemma find_protocol:
  assumes "request_head ws ps rs"
  shows "find (\<lambda>(n, _). n = '':protocol'') (hq_extra (request_of ps rs)) = map_option (Pair '':protocol'') (map_of ps '':protocol'')"
proof -
  have "starts_with_colon '':protocol''" by (simp add: starts_with_colon_def)
  then have "'':protocol'' \<notin> names rs" using assms unfolding request_head_def by blast
  then have "find (\<lambda>(n, _). n = '':protocol'') rs = None" by (force simp: find_None_iff)
  then have "find (\<lambda>(n, _). n = '':protocol'') (filter (\<lambda>(n, _). n = '':protocol'') qs @ rs)
      = map_option (Pair '':protocol'') (map_of qs '':protocol'')" for qs
    by (induction qs) auto
  then show ?thesis by (simp add: request_of_def)
qed

definition authority_verdict :: "header list \<Rightarrow> (unit, authority_error) result" where
  "authority_verdict ps = (let a = or_else (map_of ps '':authority'') [] in if a = [] then Ok () else validate a)"

lemma admit_head:
  assumes "request_head ws ps rs"
  shows "admit_request (ps @ rs) ws =
    (case authority_verdict ps of
       Inl e \<Rightarrow> Answer400 e
     | Inr _ \<Rightarrow> (case map_of ps '':protocol'' of Some p \<Rightarrow> Tunnel (request_of ps rs) p | None \<Rightarrow> Start (request_of ps rs)))"
proof -
  have v: "validate_request_pseudo_headers (ps @ rs) ws = Ok ()" using assms validate_pseudo_Ok by blast
  have a: "hq_authority (request_of ps rs) = or_else (map_of ps '':authority'') []" by (simp add: request_of_def)
  have "map_of ps '':protocol'' = None" if "\<not> ws"
  proof -
    have "'':protocol'' \<notin> registered ws" using that by (simp add: registered_cases)
    then have "'':protocol'' \<notin> names ps" using assms unfolding request_head_def by blast
    then show ?thesis by (simp add: map_of_eq_None_iff)
  qed
  then show ?thesis
    unfolding admit_request_def v from_headers_head [OF assms] Let_def find_protocol [OF assms] a authority_verdict_def
    by (cases ws) (simp_all split: sum.split option.split)
qed

lemma admit_no_head:
  assumes "\<nexists>ps rs. hs = ps @ rs \<and> request_head ws ps rs"
  shows "\<exists>reason. admit_request hs ws = ResetStream reason"
proof -
  have "validate_request_pseudo_headers hs ws \<noteq> Ok ()" using assms validate_pseudo_Ok by blast
  then obtain reason where "validate_request_pseudo_headers hs ws = Err reason"
    by (cases "validate_request_pseudo_headers hs ws") auto
  then show ?thesis by (simp add: admit_request_def)
qed


end
