(* ===== verification/H3_To_H1.thy ===== *)
theory H3_To_H1
  imports H3_Ingress H1_Chunked "HOL-Library.Sublist"
begin

text \<open>
  The request half of the HTTP/3 to HTTP/1.1 relay (\<open>lb-quic/src/h3_bridge.rs\<close>): the head written for an
  admitted request and the body forwarded event by event. The upstream socket is the bytes that reached the
  wire and a script of what the following write calls do; the body channel is the list of the events that
  will be received before it closes.
\<close>

section \<open>The upstream socket\<close>

text \<open>Each call of \<open>write_all\<close> or \<open>flush\<close> takes the next entry of the script: \<^const>\<open>None\<close> succeeds,
  \<^term>\<open>Some k\<close> fails after \<open>k\<close> bytes. Past the end of the script calls succeed.\<close>

record upstream =
  wire :: bytes
  script :: "nat option list"

definition write_all :: "upstream \<Rightarrow> bytes \<Rightarrow> (unit, unit) result \<times> upstream" where
  "write_all u data =
     (case script u of
        [] \<Rightarrow> (Ok (), u\<lparr>wire := wire u @ data\<rparr>)
      | None # r \<Rightarrow> (Ok (), u\<lparr>wire := wire u @ data, script := r\<rparr>)
      | Some k # r \<Rightarrow> (Err (), u\<lparr>wire := wire u @ take k data, script := r\<rparr>))"

definition flush :: "upstream \<Rightarrow> (unit, unit) result \<times> upstream" where
  "flush u =
     (case script u of
        [] \<Rightarrow> (Ok (), u)
      | None # r \<Rightarrow> (Ok (), u\<lparr>script := r\<rparr>)
      | Some _ # r \<Rightarrow> (Err (), u\<lparr>script := r\<rparr>))"

definition io_then :: "('a, 'e) result \<times> 's \<Rightarrow> ('s \<Rightarrow> ('b, 'e) result \<times> 's) \<Rightarrow> ('b, 'e) result \<times> 's" where
  "io_then p k = (case p of (Inl e, s) \<Rightarrow> (Err e, s) | (Inr _, s) \<Rightarrow> k s)"

section \<open>The code\<close>

datatype req_body_event = Chunk bytes | End "header list" | Reset

datatype h1_body_framing = NoBody | ContentLength nat | Chunked

definition CRLF :: string where
  "CRLF = [CHR 0x0D, CHR 0x0A]"

definition build_h1_head :: "h3_request \<Rightarrow> h1_body_framing \<Rightarrow> bytes" where
  "build_h1_head req framing =
     bytes_of
       (hq_method req @ '' '' @ hq_path req @ '' HTTP/1.1'' @ CRLF
        @ (if hq_authority req \<noteq> [] then ''Host: '' @ hq_authority req @ CRLF else [])
        @ (case framing of
             NoBody \<Rightarrow> ''Content-Length: 0'' @ CRLF
           | ContentLength n \<Rightarrow> ''Content-Length: '' @ decimal n @ CRLF
           | Chunked \<Rightarrow> ''Transfer-Encoding: chunked'' @ CRLF)
        @ ''Connection: close'' @ CRLF @ CRLF)"

definition write_body_chunk :: "upstream \<Rightarrow> bytes \<Rightarrow> bool \<Rightarrow> (unit, unit) result \<times> upstream" where
  "write_body_chunk u data chunked =
     (if data = [] then (Ok (), u)
      else if chunked then
        io_then (write_all u (bytes_of (lower_hex (length data) @ CRLF))) (\<lambda>u.
        io_then (write_all u data) (\<lambda>u. write_all u (bytes_of CRLF)))
      else write_all u data)"

datatype req_write_outcome = Complete | Aborted nat string

text \<open>The first declared length that parses, and the framing chosen from the first event.\<close>

definition declared_length :: "h3_request \<Rightarrow> nat option" where
  "declared_length req =
     (case List.map_filter (\<lambda>(n, v). if eq_ignore_ascii_case n ''content-length'' then parse_uint (max_of 64) (trim v) else None)
        (hq_extra req) of
        [] \<Rightarrow> None | n # _ \<Rightarrow> Some n)"

text \<open>The loop over the remaining events: how it ended, with \<open>clean_end\<close> as it was on entry.\<close>

fun forward_events :: "bool \<Rightarrow> bool \<Rightarrow> upstream \<Rightarrow> req_body_event list \<Rightarrow> (req_write_outcome option, unit) result \<times> upstream" where
  "forward_events chunked clean_end u [] =
     (Ok (if clean_end then None else Some (Aborted 502 ''bad gateway'')), u)"
| "forward_events chunked clean_end u (Chunk b # evs) =
     io_then (write_body_chunk u b chunked) (\<lambda>u. forward_events chunked clean_end u evs)"
| "forward_events chunked clean_end u (End trailers # evs) = (Ok None, u)"
| "forward_events chunked clean_end u (Reset # evs) = (Ok (Some (Aborted 413 ''payload too large'')), u)"

definition finish_request :: "bool \<Rightarrow> upstream \<Rightarrow> (req_write_outcome, unit) result \<times> upstream" where
  "finish_request chunked u =
     io_then (if chunked then write_all u (bytes_of (''0'' @ CRLF @ CRLF)) else (Ok (), u)) (\<lambda>u.
     io_then (flush u) (\<lambda>u. (Ok Complete, u)))"

definition write_h1_request :: "h3_request \<Rightarrow> upstream \<Rightarrow> req_body_event list \<Rightarrow> (req_write_outcome, unit) result \<times> upstream" where
  "write_h1_request req u body_rx =
     (case body_rx of
        Reset # _ \<Rightarrow> (Ok (Aborted 413 ''payload too large''), u)
      | _ \<Rightarrow>
          let (framing, pending_first) =
                (case body_rx of
                   Chunk b # _ \<Rightarrow>
                     ((case declared_length req of Some n \<Rightarrow> ContentLength n | None \<Rightarrow> Chunked), Some b)
                 | _ \<Rightarrow> (NoBody, None));
              chunked = (framing = Chunked);
              clean_end = (case body_rx of Chunk _ # _ \<Rightarrow> False | _ \<Rightarrow> True)
          in
          io_then (write_all u (build_h1_head req framing)) (\<lambda>u.
          io_then (case pending_first of Some b \<Rightarrow> write_body_chunk u b chunked | None \<Rightarrow> (Ok (), u)) (\<lambda>u.
          case forward_events chunked clean_end u (tl body_rx) of
            (Inl e, u) \<Rightarrow> (Err e, u)
          | (Inr (Some aborted), u) \<Rightarrow> (Ok aborted, u)
          | (Inr None, u) \<Rightarrow> finish_request chunked u)))"

section \<open>What reaches the wire\<close>

text \<open>\<open>emits data u p\<close>: from the socket \<open>u\<close>, the call with result \<open>p\<close> wrote all of \<open>data\<close>, or failed having
  written a prefix of it.\<close>

definition emits :: "bytes \<Rightarrow> upstream \<Rightarrow> ('a, 'e) result \<times> upstream \<Rightarrow> bool" where
  "emits data u p \<longleftrightarrow>
     (\<exists>d. prefix d data \<and> wire (snd p) = wire u @ d \<and> (\<forall>x. fst p = Ok x \<longrightarrow> d = data))"

lemma emits_write_all: "emits data u (write_all u data)"
  by (auto simp: emits_def write_all_def take_is_prefix split: list.split option.split)

lemma emits_flush: "emits [] u (flush u)"
  by (auto simp: emits_def flush_def split: list.split option.split)

lemma emits_return: "emits [] u (Ok x, u)"
  by (simp add: emits_def)

lemma emits_then:
  assumes "emits d1 u p" and "\<And>u'. emits d2 u' (k u')"
  shows "emits (d1 @ d2) u (io_then p k)"
proof (cases "fst p")
  case (Inl e)
  with assms(1) obtain d where "prefix d d1" "wire (snd p) = wire u @ d" by (auto simp: emits_def)
  moreover from this have "prefix d (d1 @ d2)" by (simp add: prefix_prefix)
  ultimately show ?thesis using Inl by (cases p) (auto simp: emits_def io_then_def)
next
  case (Inr x)
  with assms(1) have w: "wire (snd p) = wire u @ d1" by (auto simp: emits_def)
  from assms(2) [of "snd p"] obtain d where "prefix d d2" "wire (snd (k (snd p))) = wire (snd p) @ d"
    "\<forall>x. fst (k (snd p)) = Ok x \<longrightarrow> d = d2" by (auto simp: emits_def)
  with w Inr show ?thesis by (cases p) (auto simp: emits_def io_then_def intro!: exI [of _ "d1 @ d"])
qed

lemma emits_fst: "emits data u p \<Longrightarrow> fst p = Ok x \<Longrightarrow> wire (snd p) = wire u @ data"
  by (auto simp: emits_def)

definition chunk_bytes :: "bool \<Rightarrow> bytes \<Rightarrow> bytes" where
  "chunk_bytes chunked b =
     (if b = [] then [] else if chunked then bytes_of (lower_hex (length b) @ CRLF) @ b @ bytes_of CRLF else b)"

lemma emits_chunk: "emits (chunk_bytes chunked b) u (write_body_chunk u b chunked)"
proof -
  have "emits (h @ b @ c) u (io_then (write_all u h) (\<lambda>u. io_then (write_all u b) (\<lambda>u. write_all u c)))" for h c
    by (intro emits_then emits_write_all)
  then show ?thesis
    by (simp add: chunk_bytes_def write_body_chunk_def emits_return emits_write_all del: bytes_of_simps append_assoc)
qed

text \<open>How the loop of the request body ends, by the first event that is not a chunk.\<close>

definition verdict :: "bool \<Rightarrow> req_body_event list \<Rightarrow> req_write_outcome option" where
  "verdict clean_end rest =
     (case rest of
        [] \<Rightarrow> if clean_end then None else Some (Aborted 502 ''bad gateway'')
      | Reset # _ \<Rightarrow> Some (Aborted 413 ''payload too large'')
      | _ \<Rightarrow> None)"

definition no_chunk :: "req_body_event list \<Rightarrow> bool" where
  "no_chunk rest \<longleftrightarrow> (\<forall>b t. rest \<noteq> Chunk b # t)"

lemma forward_events_emits:
  assumes "no_chunk rest"
  shows "emits (concat (map (chunk_bytes chunked) cs)) u (forward_events chunked clean_end u (map Chunk cs @ rest))
    \<and> (\<forall>o'. fst (forward_events chunked clean_end u (map Chunk cs @ rest)) = Ok o' \<longrightarrow> o' = verdict clean_end rest)"
proof (induction cs arbitrary: u)
  case Nil
  show ?case
  proof (cases rest)
    case (Cons e t)
    then show ?thesis using assms by (cases e) (auto simp: no_chunk_def verdict_def emits_def)
  qed (simp add: verdict_def emits_def)
next
  case (Cons c cs)
  let ?k = "\<lambda>u. forward_events chunked clean_end u (map Chunk cs @ rest)"
  have "emits (chunk_bytes chunked c @ concat (map (chunk_bytes chunked) cs)) u (io_then (write_body_chunk u c chunked) ?k)"
    using Cons by (intro emits_then emits_chunk) simp
  moreover have "o' = verdict clean_end rest" if "fst (io_then (write_body_chunk u c chunked) ?k) = Ok o'" for o'
    using that Cons by (auto simp: io_then_def split: prod.splits sum.splits)
  ultimately show ?case by simp
qed

text \<open>The whole request when the first event is a chunk.\<close>

definition framing_of :: "h3_request \<Rightarrow> h1_body_framing" where
  "framing_of req = (case declared_length req of Some n \<Rightarrow> ContentLength n | None \<Rightarrow> Chunked)"

lemma write_h1_request_body:
  assumes "no_chunk rest" "cs \<noteq> []"
  shows "write_h1_request req u (map Chunk cs @ rest) =
    io_then (write_all u (build_h1_head req (framing_of req))) (\<lambda>u.
      case forward_events (framing_of req = Chunked) False u (map Chunk cs @ rest) of
        (Inl e, u) \<Rightarrow> (Err e, u)
      | (Inr (Some aborted), u) \<Rightarrow> (Ok aborted, u)
      | (Inr None, u) \<Rightarrow> finish_request (framing_of req = Chunked) u)"
proof -
  obtain c cs' where cs: "cs = c # cs'" using assms(2) by (cases cs) auto
  have step: "(case io_then p k of (Inl e, u) \<Rightarrow> (Err e, u) | (Inr (Some a), u) \<Rightarrow> (Ok a, u) | (Inr None, u) \<Rightarrow> f u)
    = io_then p (\<lambda>u. case k u of (Inl e, u) \<Rightarrow> (Err e, u) | (Inr (Some a), u) \<Rightarrow> (Ok a, u) | (Inr None, u) \<Rightarrow> f u)"
    for p :: "(unit, unit) result \<times> upstream" and k f
    by (auto simp: io_then_def split: prod.split sum.split)
  show ?thesis
    by (simp add: write_h1_request_def cs step Let_def flip: framing_of_def)
qed

lemma finish_emits: "emits (if chunked then bytes_of (''0'' @ CRLF @ CRLF) else []) u (finish_request chunked u)"
proof -
  have "emits (d @ [] @ []) u (io_then p (\<lambda>u. io_then (flush u) (\<lambda>u. (Ok Complete, u))))"
    if "emits d u p" for d and p :: "(unit, unit) result \<times> upstream"
    by (intro emits_then emits_flush emits_return that)
  from this [OF emits_write_all] this [OF emits_return] show ?thesis
    by (simp add: finish_request_def del: bytes_of_simps)
qed

lemma finish_result: "fst (finish_request chunked u) = Ok o' \<Longrightarrow> o' = Complete"
  by (auto simp: finish_request_def io_then_def split: prod.splits sum.splits if_splits)

lemma finish_after:
  assumes "emits body u p" and "\<forall>o'. fst p = Ok o' \<longrightarrow> o' = v"
  shows "emits (body @ (if v = None \<and> chunked then bytes_of (''0'' @ CRLF @ CRLF) else [])) u
      (case p of (Inl e, u) \<Rightarrow> (Err e, u) | (Inr (Some a), u) \<Rightarrow> (Ok a, u) | (Inr None, u) \<Rightarrow> finish_request chunked u)"
    (is "emits _ u ?q")
proof (cases "fst p")
  case (Inl e)
  with assms(1) show ?thesis by (cases p) (auto simp: emits_def prefix_prefix)
next
  case (Inr o')
  with assms have v: "o' = v" and w: "wire (snd p) = wire u @ body" by (auto simp: emits_def)
  show ?thesis
  proof (cases v)
    case None
    have "emits (body @ (if chunked then bytes_of (''0'' @ CRLF @ CRLF) else [])) u (io_then p (finish_request chunked))"
      using assms(1) by (intro emits_then finish_emits)
    moreover have "io_then p (finish_request chunked) = ?q" using Inr v None by (cases p) (simp add: io_then_def)
    ultimately show ?thesis using None by simp
  next
    case (Some a)
    with Inr v w show ?thesis by (cases p) (auto simp: emits_def)
  qed
qed

lemma request_emits:
  assumes "no_chunk rest" "cs \<noteq> []" "declared_length req = None"
  shows "emits (build_h1_head req Chunked @ concat (map (chunk_bytes True) cs)
        @ (if verdict False rest = None then bytes_of (''0'' @ CRLF @ CRLF) else [])) u
      (write_h1_request req u (map Chunk cs @ rest))"
proof -
  let ?f = "\<lambda>u. forward_events True False u (map Chunk cs @ rest)"
  have c: "framing_of req = Chunked" by (simp add: framing_of_def assms(3))
  have "emits (concat (map (chunk_bytes True) cs)
        @ (if verdict False rest = None then bytes_of (''0'' @ CRLF @ CRLF) else [])) u'
      (case ?f u' of (Inl e, u) \<Rightarrow> (Err e, u) | (Inr (Some a), u) \<Rightarrow> (Ok a, u) | (Inr None, u) \<Rightarrow> finish_request True u)" for u'
    using forward_events_emits [OF assms(1), of True cs u' False]
      finish_after [of "concat (map (chunk_bytes True) cs)" u' "?f u'" "verdict False rest" True]
    by (simp del: bytes_of_simps)
  then show ?thesis
    unfolding write_h1_request_body [OF assms(1,2)] c by (simp only: simp_thms) (intro emits_then emits_write_all)
qed

lemma chunk_bytes_encode: "chunk_bytes True b = (case chunked_encode chunked_encoder_new b of Inr e \<Rightarrow> e | Inl _ \<Rightarrow> [])"
  by (simp add: chunk_bytes_def chunked_encode_def chunked_encoder_new_def CRLF_def)

lemma chunked_wire_bytes:
  "chunked_wire cs [] = concat (map (chunk_bytes True) cs) @ bytes_of (''0'' @ CRLF @ CRLF)"
proof -
  have "bytes_of (''0'' @ CRLF @ CRLF) = [0x30, CR, LF] @ [CR, LF]" by (simp add: CRLF_def)
  moreover have "map (chunk_bytes True) cs = map (\<lambda>c. case chunked_encode chunked_encoder_new c of Inr e \<Rightarrow> e | Inl _ \<Rightarrow> []) cs"
    by (rule map_cong [OF refl]) (rule chunk_bytes_encode)
  ultimately show ?thesis
    by (simp add: chunked_wire_def chunked_finish_def chunked_encoder_new_def del: bytes_of_simps cong: map_cong)
qed

text \<open>A decoder is done with a complete chunked body only at its last byte.\<close>

lemma prefix_not_done:
  assumes "strict_prefix b (chunked_wire cs [])" "\<forall>c \<in> set cs. length c < 2 ^ 64"
  shows "fst (feed chunked_decoder_new b) \<noteq> Ok True"
proof
  assume ok: "fst (feed chunked_decoder_new b) = Ok True"
  obtain c where c: "chunked_wire cs [] = b @ c" "c \<noteq> []"
    using assms(1) by (auto simp: strict_prefix_def prefix_def)
  obtain d where d: "feed chunked_decoder_new b = (Ok True, d)" using ok by (cases "feed chunked_decoder_new b") auto
  then have "is_done d" using process_done by (auto simp: feed_extend)
  then have "feed_all chunked_decoder_new [b, c] = (Ok True, with_input d c)"
    using d process_idle [of d c] by (simp add: feed_extend is_done_def)
  moreover have "outcome (feed_all chunked_decoder_new [b, c]) = outcome (feed chunked_decoder_new (b @ c))"
    using feed_all_concat [of chunked_decoder_new "[b, c]"] by (simp add: process_new)
  moreover have "outcome (feed chunked_decoder_new (b @ c)) = (Ok True, Done, concat cs, [], [])"
    using process_wire [OF assms(2), of "[]" "[]" "[]"] c(1) by (simp add: feed_def chunked_decoder_new_def)
  ultimately have "dec_buf (with_input d c) = []" by (simp add: outcome_def)
  with c(2) show False by simp
qed

lemma request_result:
  assumes "no_chunk rest" "cs \<noteq> []" "fst (write_h1_request req u (map Chunk cs @ rest)) = Ok o'"
  shows "o' = (case verdict False rest of Some a \<Rightarrow> a | None \<Rightarrow> Complete)"
proof -
  let ?f = "\<lambda>u. forward_events (framing_of req = Chunked) False u (map Chunk cs @ rest)"
  have f: "v = verdict False rest" if "?f u = (Inr v, u')" for v u u'
    using forward_events_emits [OF assms(1), of "framing_of req = Chunked" cs u False] that by simp
  obtain r u1 where w: "write_all u (build_h1_head req (framing_of req)) = (r, u1)" by fastforce
  obtain q u2 where q: "?f u1 = (q, u2)" by fastforce
  show ?thesis
    using assms(3) w q f [of u1] finish_result
    unfolding write_h1_request_body [OF assms(1,2)]
    by (cases r; cases q) (auto simp: io_then_def split: option.splits)
qed

text \<open>C36. A request that the client did not finish never reaches the upstream as a finished one: when the
  channel of a chunked body closes, or reports a reset, before the end of the body, the request is not
  reported complete, and whatever the socket did, the bytes that reached it are a proper part of the head,
  or the head and a body at which the chunked decoder of the gateway is not done.\<close>

theorem unfinished_never_complete:
  assumes "\<forall>c \<in> set cs. length c < 2 ^ 64" and "declared_length req = None"
    and "rest = [] \<and> cs \<noteq> [] \<or> (\<exists>t. rest = Reset # t)"
    and "write_h1_request req \<lparr>wire = [], script = s\<rparr> (map Chunk cs @ rest) = (r, u)"
  shows "r \<noteq> Ok Complete
    \<and> (strict_prefix (wire u) (build_h1_head req Chunked)
       \<or> (\<exists>body. wire u = build_h1_head req Chunked @ body \<and> fst (feed chunked_decoder_new body) \<noteq> Ok True))"
proof (cases "cs = []")
  case True
  then obtain t where "rest = Reset # t" using assms(3) by blast
  with True assms(4) have "r = Ok (Aborted 413 ''payload too large'')" "wire u = []"
    by (auto simp: write_h1_request_def)
  then show ?thesis by (simp add: strict_prefix_def build_h1_head_def)
next
  case False
  have nc: "no_chunk rest" using assms(3) by (auto simp: no_chunk_def)
  have v: "verdict False rest \<noteq> None" "verdict False rest \<noteq> Some Complete" using assms(3) by (auto simp: verdict_def)
  let ?b = "concat (map (chunk_bytes True) cs)"
  have "prefix (wire u) (build_h1_head req Chunked @ ?b)"
    using request_emits [OF nc False assms(2), of "\<lparr>wire = [], script = s\<rparr>"] assms(4) v(1) by (auto simp: emits_def)
  then consider (head) "prefix (wire u) (build_h1_head req Chunked)" "wire u \<noteq> build_h1_head req Chunked"
    | (body) body where "wire u = build_h1_head req Chunked @ body" "prefix body ?b"
    by (cases "wire u = build_h1_head req Chunked") (auto simp: prefix_append)
  moreover have r: "r \<noteq> Ok Complete"
    using request_result [OF nc False, of req "\<lparr>wire = [], script = s\<rparr>" Complete] assms(4) v by (auto split: option.splits)
  ultimately show ?thesis
  proof cases
    case head
    with r show ?thesis by (simp add: strict_prefix_def)
  next
    case body
    then have "strict_prefix body (chunked_wire cs [])"
      by (auto simp: chunked_wire_bytes strict_prefix_def prefix_def CRLF_def)
    with r body(1) prefix_not_done assms(1) show ?thesis by blast
  qed
qed

theorem unfinished_never_complete_witness:
  "fst (write_h1_request h3_request_default \<lparr>wire = [], script = []\<rparr> [Chunk [0x61], Reset])
    = Ok (Aborted 413 ''payload too large'')"
proof -
  let ?p = "write_h1_request h3_request_default \<lparr>wire = [], script = []\<rparr> (map Chunk [[0x61]] @ [Reset])"
  have "fst ?p \<noteq> Ok Complete"
    using unfinished_never_complete [of "[[0x61]]" h3_request_default "[Reset]" "[]" "fst ?p" "snd ?p"]
    by (simp add: declared_length_def h3_request_default_def map_filter_simps)
  moreover have "fst ?p \<in> {Ok Complete, Ok (Aborted 413 ''payload too large'')}" by code_simp
  ultimately show ?thesis by simp
qed

section \<open>What the upstream reads\<close>

text \<open>A socket that accepts every write.\<close>

definition accepted :: "('a, 'e) result \<times> upstream \<Rightarrow> bool" where
  "accepted p \<longleftrightarrow> (\<exists>x. fst p = Ok x) \<and> script (snd p) = []"

lemma accepted_ok: "script u = [] \<Longrightarrow> accepted (Ok x, u)"
  by (simp add: accepted_def)

lemma accepted_write_all: "script u = [] \<Longrightarrow> accepted (write_all u data)"
  by (simp add: accepted_def write_all_def)

lemma accepted_flush: "script u = [] \<Longrightarrow> accepted (flush u)"
  by (simp add: accepted_def flush_def)

lemma accepted_then: "accepted p \<Longrightarrow> (\<And>u. script u = [] \<Longrightarrow> accepted (k u)) \<Longrightarrow> accepted (io_then p k)"
  by (cases p) (auto simp: accepted_def io_then_def)

lemmas accepted_intros = accepted_ok accepted_write_all accepted_flush accepted_then

lemma accepted_chunk: "script u = [] \<Longrightarrow> accepted (write_body_chunk u b chunked)"
  by (auto simp: write_body_chunk_def intro!: accepted_intros)

lemma accepted_forward: "script u = [] \<Longrightarrow> accepted (forward_events chunked clean_end u evs)"
  by (induction chunked clean_end u evs rule: forward_events.induct)
    (auto intro!: accepted_ok accepted_then accepted_chunk)

lemma accepted_finish: "script u = [] \<Longrightarrow> accepted (finish_request chunked u)"
  by (auto simp: finish_request_def intro!: accepted_intros)

lemma accepted_request:
  assumes "no_chunk rest" "cs \<noteq> []" "script u = []"
  shows "accepted (write_h1_request req u (map Chunk cs @ rest))"
proof -
  let ?f = "\<lambda>u. forward_events (framing_of req = Chunked) False u (map Chunk cs @ rest)"
  have "accepted (case ?f u of (Inl e, u) \<Rightarrow> (Err e, u) | (Inr (Some a), u) \<Rightarrow> (Ok a, u)
      | (Inr None, u) \<Rightarrow> finish_request (framing_of req = Chunked) u)" if "script u = []" for u
    using accepted_forward [OF that, of "framing_of req = Chunked" False "map Chunk cs @ rest"]
    by (auto simp: accepted_def [of "?f u"] accepted_ok accepted_finish split: prod.splits sum.splits option.splits)
  then show ?thesis
    unfolding write_h1_request_body [OF assms(1,2)] by (intro accepted_then accepted_write_all assms(3))
qed

lemma request_line_wire:
  assumes "CHR '' '' \<notin> set m" "CHR '' '' \<notin> set p" "is_str m" "is_str p"
    and "CHR 0x0D \<notin> set m" "CHR 0x0D \<notin> set p" and "method_of m = Some a" "uri_of p = Some b"
  shows "parse_request_line method_of uri_of (bytes_of (m @ '' '' @ p @ '' HTTP/1.1'' @ CRLF) @ rest)
    = Ok (a, b, HTTP_11, length m + length p + 12)"
proof -
  let ?l = "m @ '' '' @ p @ '' HTTP/1.1''"
  define L where "L = bytes_of ?l"
  have len: "length L = length m + length p + 10" by (simp add: L_def)
  have "CR \<notin> set L" using assms(5,6) set_bytes_of [of "CHR 0x0D"] by (simp add: L_def)
  then have f: "find_crlf (L @ CR # LF # rest) = Some (length L)" by (rule find_crlf_line)
  have s: "splitn 3 CHR '' '' ?l = [m, p, ''HTTP/1.1'']"
    using find_char_append [OF assms(1), of "p @ '' HTTP/1.1''"] find_char_append [OF assms(2), of "''HTTP/1.1''"]
    by (simp add: numeral_3_eq_3)
  have "is_str ?l" using assms(3,4) by (intro is_str_append) (simp_all add: is_str_ascii)
  then have u: "from_utf8 L = Some ?l" unfolding L_def by (rule from_utf8_bytes_of)
  have w: "bytes_of (m @ '' '' @ p @ '' HTTP/1.1'' @ CRLF) @ rest = L @ CR # LF # rest" by (simp add: L_def CRLF_def)
  show ?thesis
    unfolding parse_request_line_def w f
    using s by (simp add: get_range_def u get_def assms(7,8) parse_version_def len)
qed

lemma head_wire:
  assumes "hq_authority req \<noteq> []"
  shows "build_h1_head req Chunked = bytes_of (hq_method req @ '' '' @ hq_path req @ '' HTTP/1.1'' @ CRLF)
    @ concat (map header_wire [(''Host'', hq_authority req), (''Transfer-Encoding'', ''chunked''), (''Connection'', ''close'')])
    @ [CR, LF]"
  using assms by (simp add: build_h1_head_def header_wire_def CRLF_def)

lemma gateway_headers_wf:
  "wf_header (''Transfer-Encoding'', ''chunked'') \<and> wf_header (''Connection'', ''close'')"
proof -
  have "trim ''chunked'' = ''chunked''" "trim ''close'' = ''close''" by code_simp+
  then show ?thesis by (simp add: wf_header_def is_tchar_def is_str_ascii)
qed

text \<open>C37. Over a socket that accepts every write, a request with a streamed body is delivered: the relay reports
  it complete, and the HTTP/1.1 codec of the gateway reads the bytes on the wire back as the method and the
  path of the client, a header block of exactly \<open>Host\<close> (the client's authority), \<open>Transfer-Encoding: chunked\<close>
  and \<open>Connection: close\<close>, and a chunked body that is the concatenation of the chunks, with nothing left over.
  The other header fields and the trailers of the client are not part of what this relay writes. The method and
  the path are free of blanks and carriage returns and are ones the codec's parsers of them accept, the
  authority is a non-empty, well-formed header value, the request declares no length and has at least one
  chunk.\<close>

theorem request_delivered:
  assumes "CHR '' '' \<notin> set (hq_method req)" "CHR 0x0D \<notin> set (hq_method req)" "is_str (hq_method req)"
    and "CHR '' '' \<notin> set (hq_path req)" "CHR 0x0D \<notin> set (hq_path req)" "is_str (hq_path req)"
    and "method_of (hq_method req) = Some m" "uri_of (hq_path req) = Some p"
    and "wf_header (''Host'', hq_authority req)" "hq_authority req \<noteq> []"
    and "declared_length req = None" "cs \<noteq> []" "\<forall>c \<in> set cs. length c < 2 ^ 64"
  shows "\<exists>u line headers body.
      write_h1_request req \<lparr>wire = [], script = []\<rparr> (map Chunk cs @ [End trailers]) = (Ok Complete, u)
    \<and> wire u = line @ headers @ body
    \<and> parse_request_line method_of uri_of (wire u) = Ok (m, p, HTTP_11, length line)
    \<and> parse_headers_with_limit (headers @ body) (length headers)
      = Ok ([(''Host'', hq_authority req), (''Transfer-Encoding'', ''chunked''), (''Connection'', ''close'')], length headers)
    \<and> outcome (feed chunked_decoder_new body) = (Ok True, Done, concat cs, [], [])"
proof -
  let ?line = "bytes_of (hq_method req @ '' '' @ hq_path req @ '' HTTP/1.1'' @ CRLF)"
  let ?hs = "[(''Host'', hq_authority req), (''Transfer-Encoding'', ''chunked''), (''Connection'', ''close'')]"
  let ?h = "concat (map header_wire ?hs) @ [CR, LF]" and ?b = "chunked_wire cs []"
  obtain r u where w: "write_h1_request req \<lparr>wire = [], script = []\<rparr> (map Chunk cs @ [End trailers]) = (r, u)" by fastforce
  have nc: "no_chunk [End trailers]" and v: "verdict False [End trailers] = None"
    by (simp_all add: no_chunk_def verdict_def)
  obtain x where x: "r = Ok x"
    using accepted_request [OF nc assms(12), of "\<lparr>wire = [], script = []\<rparr>" req] w by (auto simp: accepted_def)
  then have r: "r = Ok Complete"
    using request_result [OF nc assms(12), of req "\<lparr>wire = [], script = []\<rparr>" x] w v by simp
  have wire: "wire u = ?line @ ?h @ ?b"
    using emits_fst [OF request_emits [OF nc assms(12,11), of "\<lparr>wire = [], script = []\<rparr>"], of Complete] w r v
    by (simp add: chunked_wire_bytes head_wire [OF assms(10)] del: bytes_of_simps append_assoc)
  have line: "parse_request_line method_of uri_of (wire u) = Ok (m, p, HTTP_11, length ?line)"
    using request_line_wire [of "hq_method req" "hq_path req" method_of m uri_of p "?h @ ?b", OF assms(1,4,3,6,2,5,7,8)] unfolding wire by (simp add: CRLF_def)
  have "\<forall>h \<in> set ?hs. wf_header h" using assms(9) gateway_headers_wf by simp
  from parse_headers_wire [OF this _ refl, of ?b "length ?h"]
  have headers: "parse_headers_with_limit (?h @ ?b) (length ?h) = Ok (?hs, length ?h)" by simp
  have "outcome (feed chunked_decoder_new ?b) = (Ok True, Done, concat cs, [], [])"
    using process_wire [OF assms(13), of "[]" "[]" "[]"] by (simp add: feed_def chunked_decoder_new_def)
  with w r wire line headers show ?thesis by blast
qed

theorem request_delivered_witness:
  "\<exists>u line headers body.
      write_h1_request \<lparr>hq_method = ''PUT'', hq_path = ''/x'', hq_authority = ''a'', hq_extra = [], hq_trailers = []\<rparr>
        \<lparr>wire = [], script = []\<rparr> [Chunk [0x61, 0x62], Chunk [0x63], End []] = (Ok Complete, u)
    \<and> wire u = line @ headers @ body
    \<and> parse_request_line Some Some (wire u) = Ok (''PUT'', ''/x'', HTTP_11, length line)
    \<and> parse_headers_with_limit (headers @ body) (length headers)
      = Ok ([(''Host'', ''a''), (''Transfer-Encoding'', ''chunked''), (''Connection'', ''close'')], length headers)
    \<and> outcome (feed chunked_decoder_new body) = (Ok True, Done, [0x61, 0x62, 0x63], [], [])"
proof -
  let ?r = "\<lparr>hq_method = ''PUT'', hq_path = ''/x'', hq_authority = ''a'', hq_extra = [], hq_trailers = []\<rparr> :: h3_request"
  have "trim ''a'' = ''a''" by code_simp
  then have "wf_header (''Host'', ''a'')" by (simp add: wf_header_def is_tchar_def is_str_ascii)
  then show ?thesis
    using request_delivered [of ?r Some "''PUT''" Some "''/x''" "[[0x61, 0x62], [0x63]]" "[]"]
    by (simp add: is_str_ascii declared_length_def map_filter_simps)
qed

section \<open>Limits of the request half\<close>

text \<open>The path is admitted and written without a check for control characters: a path with a line break ends
  the request line and adds header lines of the client's choice.\<close>

lemma path_injects_header:
  "\<exists>req. admit_request
        [('':method'', ''GET''), ('':scheme'', ''https''), ('':authority'', ''a''),
         ('':path'', ''/ HTTP/1.1'' @ CRLF @ ''X-Admin: 1'' @ CRLF @ ''X-Rest:'')] False = Start req
    \<and> build_h1_head req NoBody
      = bytes_of (''GET / HTTP/1.1'' @ CRLF @ ''X-Admin: 1'' @ CRLF @ ''X-Rest: HTTP/1.1'' @ CRLF @ ''Host: a'' @ CRLF
          @ ''Content-Length: 0'' @ CRLF @ ''Connection: close'' @ CRLF @ CRLF)"
proof -
  have "admit_request
        [('':method'', ''GET''), ('':scheme'', ''https''), ('':authority'', ''a''),
         ('':path'', ''/ HTTP/1.1'' @ CRLF @ ''X-Admin: 1'' @ CRLF @ ''X-Rest:'')] False
    = Start \<lparr>hq_method = ''GET'', hq_path = ''/ HTTP/1.1'' @ CRLF @ ''X-Admin: 1'' @ CRLF @ ''X-Rest:'',
        hq_authority = ''a'', hq_extra = [], hq_trailers = []\<rparr>"
    by code_simp
  then show ?thesis by (simp add: build_h1_head_def)
qed

text \<open>A declared length is sent on and never compared with the bytes of the body.\<close>

lemma declared_length_unchecked:
  assumes "declared_length req = Some n"
  shows "write_h1_request req \<lparr>wire = [], script = []\<rparr> [Chunk b, End ts]
    = (Ok Complete, \<lparr>wire = build_h1_head req (ContentLength n) @ b, script = []\<rparr>)"
  using assms by (simp add: write_h1_request_def write_all_def write_body_chunk_def io_then_def finish_request_def flush_def)

text \<open>A channel that closes before its first event is taken for the end of a request without a body.\<close>

lemma closed_channel_complete:
  "write_h1_request req \<lparr>wire = [], script = []\<rparr> [] = (Ok Complete, \<lparr>wire = build_h1_head req NoBody, script = []\<rparr>)"
  by (simp add: write_h1_request_def write_all_def io_then_def finish_request_def flush_def)

end
