(* ===== verification/Chunk_Decoder.thy ===== *)
theory Chunk_Decoder
  imports H3_To_H1
begin

text \<open>
  The chunked decoder of upstream responses (\<open>lb-quic/src/h3_bridge.rs\<close>, \<open>ChunkDecoder\<close>): size lines with
  extensions, payload, the trailer section and its limits, fed by reads of any size. A grammar of chunked
  messages is the reference: what the decoder reports as complete is a message of the grammar.
\<close>

section \<open>The code\<close>

datatype resp_abort = UpstreamReset | PrematureEof | ChunkedDecode | OverCap | BadHead | ClientGone

definition h3_RESPONSE_HOP_BY_HOP :: "string list" where
  "h3_RESPONSE_HOP_BY_HOP =
     [''connection'', ''keep-alive'', ''transfer-encoding'', ''upgrade'', ''proxy-connection'', ''proxy-authenticate'',
      ''proxy-authorization'', ''te'']"

definition is_response_hop_by_hop :: "string \<Rightarrow> bool" where
  "is_response_hop_by_hop name_lower \<longleftrightarrow> name_lower \<in> set h3_RESPONSE_HOP_BY_HOP"

definition MAX_CHUNK_SIZE_LINE :: nat where
  "MAX_CHUNK_SIZE_LINE = 256"

definition MAX_TRAILER_SECTION :: nat where
  "MAX_TRAILER_SECTION = 64 * 1024"

text \<open>\<open>usize::from_str_radix (s, 16)\<close>: an optional plus sign, then digits of either case within the type.\<close>

definition hex_digit_of :: "char \<Rightarrow> nat option" where
  "hex_digit_of c =
     (let n = of_char c :: nat in
      if 48 \<le> n \<and> n \<le> 57 then Some (n - 48)
      else if 97 \<le> n \<and> n \<le> 102 then Some (n - 87)
      else if 65 \<le> n \<and> n \<le> 70 then Some (n - 55)
      else None)"

fun parse_hex_digits :: "nat \<Rightarrow> nat \<Rightarrow> string \<Rightarrow> nat option" where
  "parse_hex_digits limit acc [] = Some acc"
| "parse_hex_digits limit acc (c # s) =
     (case hex_digit_of c of
        None \<Rightarrow> None
      | Some d \<Rightarrow> if 16 * acc + d \<le> limit then parse_hex_digits limit (16 * acc + d) s else None)"

definition from_str_radix_16 :: "nat \<Rightarrow> string \<Rightarrow> nat option" where
  "from_str_radix_16 limit s =
     (if s = [] \<or> s = ''+'' then None
      else parse_hex_digits limit 0 (if hd s = CHR ''+'' then tl s else s))"

record chunk_decoder =
  cd_buf :: bytes
  in_chunk :: "nat option"
  cd_done :: bool
  cd_complete :: bool
  cd_trailers :: "header list"
  trailer_buf :: bytes

definition chunk_decoder_new :: chunk_decoder where
  "chunk_decoder_new = \<lparr>cd_buf = [], in_chunk = None, cd_done = False, cd_complete = False, cd_trailers = [], trailer_buf = []\<rparr>"

definition take_trailers :: "chunk_decoder \<Rightarrow> header list \<times> chunk_decoder" where
  "take_trailers d = (cd_trailers d, d\<lparr>cd_trailers := []\<rparr>)"

text \<open>One line of the trailer section, and the size in a size line.\<close>

definition trailer_field :: "bytes \<Rightarrow> header option" where
  "trailer_field line =
     (case from_utf8 line of
        None \<Rightarrow> None
      | Some s \<Rightarrow>
          case split_once CHR '':'' s of
            None \<Rightarrow> None
          | Some (n, v) \<Rightarrow>
              let name = to_ascii_lowercase (trim n) in
              if name = [] then None else if starts_with_colon name then None else Some (name, trim v))"

definition chunk_size :: "bytes \<Rightarrow> nat option" where
  "chunk_size line =
     (case from_utf8 (takeWhile (\<lambda>b. b \<noteq> 0x3B) line) of
        None \<Rightarrow> None
      | Some s \<Rightarrow> let hex = trim s in if hex = [] then None else from_str_radix_16 (max_of 64) hex)"

lemma find_crlf_bound: "find_crlf buf = Some nl \<Longrightarrow> nl + 2 \<le> length buf"
  by (auto simp: find_crlf_def find_Some_iff)

function parse_trailer_section :: "chunk_decoder \<Rightarrow> (unit, resp_abort) result \<times> chunk_decoder" where
  "parse_trailer_section d =
     (if cd_buf d \<noteq> [] \<and> length (trailer_buf d) + length (cd_buf d) > MAX_TRAILER_SECTION then (Err ChunkedDecode, d)
      else
        let d1 = d\<lparr>trailer_buf := trailer_buf d @ cd_buf d, cd_buf := []\<rparr> in
        case find_crlf (trailer_buf d1) of
          None \<Rightarrow> ((if length (trailer_buf d1) > MAX_TRAILER_SECTION then Err ChunkedDecode else Ok ()), d1)
        | Some nl \<Rightarrow>
            if nl = 0 then (Ok (), d1\<lparr>trailer_buf := drop 2 (trailer_buf d1), cd_complete := True\<rparr>)
            else
              case trailer_field (take nl (trailer_buf d1)) of
                None \<Rightarrow> (Err ChunkedDecode, d1)
              | Some h \<Rightarrow>
                  parse_trailer_section
                    (d1\<lparr>cd_trailers := cd_trailers d1 @ [h], trailer_buf := drop (nl + 2) (trailer_buf d1)\<rparr>))"
  by pat_completeness auto
termination
  by (relation "measure (\<lambda>d. length (cd_buf d) + length (trailer_buf d))") (auto dest!: find_crlf_bound)

function chunk_loop :: "chunk_decoder \<Rightarrow> bytes \<Rightarrow> (unit, resp_abort) result \<times> chunk_decoder \<times> bytes" where
  "chunk_loop d out =
     (if cd_complete d then (Ok (), d, out)
      else if cd_done d then (case parse_trailer_section d of (r, d1) \<Rightarrow> (r, d1, out))
      else
        case in_chunk d of
          Some remaining \<Rightarrow>
            if remaining = 0 then
              (case get_range (cd_buf d) 0 2 of
                 None \<Rightarrow> (Ok (), d, out)
               | Some lead \<Rightarrow>
                   if lead \<noteq> [CR, LF] then (Err ChunkedDecode, d, out)
                   else chunk_loop (d\<lparr>cd_buf := drop 2 (cd_buf d), in_chunk := None\<rparr>) out)
            else if cd_buf d = [] then (Ok (), d, out)
            else
              let n = min remaining (length (cd_buf d)) in
              chunk_loop (d\<lparr>cd_buf := drop n (cd_buf d), in_chunk := Some (remaining - n)\<rparr>) (out @ take n (cd_buf d))
        | None \<Rightarrow>
            case find_crlf (cd_buf d) of
              None \<Rightarrow> ((if length (cd_buf d) > MAX_CHUNK_SIZE_LINE then Err ChunkedDecode else Ok ()), d, out)
            | Some nl \<Rightarrow>
                if nl > MAX_CHUNK_SIZE_LINE then (Err ChunkedDecode, d, out)
                else
                  case chunk_size (take nl (cd_buf d)) of
                    None \<Rightarrow> (Err ChunkedDecode, d, out)
                  | Some sz \<Rightarrow>
                      if sz = 0 then chunk_loop (d\<lparr>cd_buf := drop (nl + 2) (cd_buf d), cd_done := True\<rparr>) out
                      else chunk_loop (d\<lparr>cd_buf := drop (nl + 2) (cd_buf d), in_chunk := Some sz\<rparr>) out)"
  by pat_completeness auto
termination
  by (relation "measure (\<lambda>(d, _). length (cd_buf d))")
    (auto simp: get_range_def split: if_splits dest!: find_crlf_bound)

declare parse_trailer_section.simps [simp del] chunk_loop.simps [simp del]

definition decoder_feed :: "chunk_decoder \<Rightarrow> bytes \<Rightarrow> bytes \<Rightarrow> (unit, resp_abort) result \<times> chunk_decoder \<times> bytes" where
  "decoder_feed d input out = chunk_loop (d\<lparr>cd_buf := cd_buf d @ input\<rparr>) out"

section \<open>The grammar of chunked messages\<close>

text \<open>The size lines and trailer lines a well-behaved upstream sends (RFC 9112, section 7.1), stated without the
  decoder: a row of hexadecimal digits, then the end of the line or an extension; and a name, a colon and a value
  of printable ASCII and tabs, blanks around the value apart, whose name is not one of the hop-by-hop fields.\<close>

definition hex_value :: "string \<Rightarrow> nat" where
  "hex_value s = foldl (\<lambda>a c. 16 * a + the (hex_digit_of c)) 0 s"

definition plain_size :: "bytes \<Rightarrow> nat \<Rightarrow> bool" where
  "plain_size l n \<longleftrightarrow> length l < MAX_CHUNK_SIZE_LINE \<and> n < 2 ^ 64
     \<and> (\<exists>hex ext. l = bytes_of hex @ ext \<and> hex \<noteq> [] \<and> (\<forall>c \<in> set hex. hex_digit_of c \<noteq> None) \<and> hex_value hex = n
          \<and> (ext = [] \<or> hd ext = 0x3B))"

definition plain_field :: "bytes \<Rightarrow> header \<Rightarrow> bool" where
  "plain_field l h \<longleftrightarrow>
     (\<exists>name val. l = bytes_of (name @ '':'' @ val) \<and> name \<noteq> []
        \<and> (\<forall>c \<in> set name. 0x20 < (of_char c :: nat) \<and> of_char c < (0x7F :: nat) \<and> c \<noteq> CHR '':'')
        \<and> (\<forall>c \<in> set val. c = CHR 0x09 \<or> 0x20 \<le> (of_char c :: nat) \<and> of_char c < (0x7F :: nat))
        \<and> h = (to_ascii_lowercase name, trim val) \<and> \<not> is_response_hop_by_hop (fst h))"

definition size_line :: "bool \<Rightarrow> bytes \<Rightarrow> nat \<Rightarrow> bool" where
  "size_line strict l n \<longleftrightarrow> (if strict then plain_size l n else chunk_size l = Some n)"

definition field_line :: "bool \<Rightarrow> bytes \<Rightarrow> header \<Rightarrow> bool" where
  "field_line strict l h \<longleftrightarrow> (if strict then plain_field l h else trailer_field l = Some h)"

text \<open>\<open>reads strict at m p ts\<close>: from the position \<open>at\<close> the bytes \<open>m\<close> begin with the rest of a chunked message that
  has the payload \<open>p\<close> and the trailer fields \<open>ts\<close> still to come. When \<open>strict\<close>, the lines are those of a
  well-behaved upstream and the bytes from the trailer section on are within the limit of the decoder;
  otherwise they are whatever lines the decoder understands.\<close>

datatype position = AtSize | InChunk nat | AtTrailers | Finished

definition is_line :: "bytes \<Rightarrow> bool" where
  "is_line l \<longleftrightarrow> find_crlf (l @ [CR, LF]) = Some (length l)"

inductive reads :: "bool \<Rightarrow> position \<Rightarrow> bytes \<Rightarrow> bytes \<Rightarrow> header list \<Rightarrow> bool" for strict where
  finished: "reads strict Finished rest [] []"
| trailer_end: "strict \<longrightarrow> length (CR # LF # m) \<le> MAX_TRAILER_SECTION \<Longrightarrow> reads strict Finished m p ts
    \<Longrightarrow> reads strict AtTrailers (CR # LF # m) p ts"
| field: "is_line l \<Longrightarrow> l \<noteq> [] \<Longrightarrow> field_line strict l h
    \<Longrightarrow> strict \<longrightarrow> length (l @ CR # LF # m) \<le> MAX_TRAILER_SECTION \<Longrightarrow> reads strict AtTrailers m p ts
    \<Longrightarrow> reads strict AtTrailers (l @ CR # LF # m) p (h # ts)"
| last_chunk: "is_line l \<Longrightarrow> size_line strict l 0 \<Longrightarrow> reads strict AtTrailers m p ts
    \<Longrightarrow> reads strict AtSize (l @ CR # LF # m) p ts"
| chunk: "is_line l \<Longrightarrow> size_line strict l n \<Longrightarrow> n \<noteq> 0 \<Longrightarrow> reads strict (InChunk n) m p ts
    \<Longrightarrow> reads strict AtSize (l @ CR # LF # m) p ts"
| data_byte: "reads strict (InChunk n) m p ts \<Longrightarrow> reads strict (InChunk (Suc n)) (x # m) (x # p) ts"
| chunk_end: "reads strict AtSize m p ts \<Longrightarrow> reads strict (InChunk 0) (CR # LF # m) p ts"

inductive_cases reads_FinishedE: "reads lim Finished m p ts"
inductive_cases reads_AtTrailersE: "reads lim AtTrailers m p ts"
inductive_cases reads_AtSizeE: "reads lim AtSize m p ts"
inductive_cases reads_InChunkE: "reads lim (InChunk n) m p ts"

section \<open>The decoder understands the lines of the strict grammar\<close>

lemma white_space_bytes: "w \<in> set WHITE_SPACE \<Longrightarrow> c \<in> set w \<Longrightarrow> \<not> (0x20 < (of_char c :: nat) \<and> of_char c < (0x80 :: nat))"
  by (auto simp: WHITE_SPACE_def)

lemma trim_graphic:
  assumes "\<forall>c \<in> set s. 0x20 < (of_char c :: nat) \<and> of_char c < (0x80 :: nat)"
  shows "trim s = s"
proof -
  have no: "w \<notin> set WHITE_SPACE" if "set w \<subseteq> set s" for w
  proof
    assume w: "w \<in> set WHITE_SPACE"
    then obtain c where "c \<in> set w" using white_space_nonempty [OF w] hd_in_set by blast
    with white_space_bytes [OF w] assms that show False by blast
  qed
  have "find (\<lambda>w. take (length w) s = w) WHITE_SPACE = None"
    unfolding find_None_iff using no set_take_subset by metis
  moreover have "find (\<lambda>w. length w \<le> length s \<and> drop (length s - length w) s = w) WHITE_SPACE = None"
    unfolding find_None_iff using no set_drop_subset by metis
  ultimately show ?thesis by (simp add: trim_def trim_start.simps [of s] trim_end.simps [of s])
qed

lemma hex_digit_graphic: "hex_digit_of c \<noteq> None \<Longrightarrow> 0x20 < (of_char c :: nat) \<and> of_char c < (0x80 :: nat) \<and> c \<noteq> CHR ''+''"
  by (auto simp: hex_digit_of_def Let_def split: if_splits)

lemma hex_value_mono: "a \<le> foldl (\<lambda>a c. 16 * a + the (hex_digit_of c)) a s"
proof (induction s arbitrary: a)
  case (Cons c s)
  show ?case using Cons [of "16 * a + the (hex_digit_of c)"] by simp
qed simp

lemma parse_hex_value:
  assumes "\<forall>c \<in> set s. hex_digit_of c \<noteq> None" "foldl (\<lambda>a c. 16 * a + the (hex_digit_of c)) acc s \<le> limit"
  shows "parse_hex_digits limit acc s = Some (foldl (\<lambda>a c. 16 * a + the (hex_digit_of c)) acc s)"
  using assms
proof (induction s arbitrary: acc)
  case (Cons c s)
  obtain d where d: "hex_digit_of c = Some d" using Cons.prems(1) by auto
  have "16 * acc + d \<le> limit"
    using hex_value_mono [of "16 * acc + d" s] Cons.prems(2) d by simp
  with Cons d show ?case by simp
qed simp

lemma plain_size_read:
  assumes "plain_size l n"
  shows "chunk_size l = Some n" and "length l < MAX_CHUNK_SIZE_LINE"
proof -
  from assms obtain hex ext where l: "l = bytes_of hex @ ext" "hex \<noteq> []" "\<forall>c \<in> set hex. hex_digit_of c \<noteq> None" "hex_value hex = n"
    "ext = [] \<or> hd ext = 0x3B" and n: "n < 2 ^ 64" by (auto simp: plain_size_def)
  have g: "\<forall>c \<in> set hex. 0x20 < (of_char c :: nat) \<and> of_char c < (0x80 :: nat) \<and> c \<noteq> CHR ''+'' \<and> c \<noteq> CHR '';''"
    using l(3) hex_digit_graphic by (auto simp: hex_digit_of_def Let_def split: if_splits)
  have "hd hex \<noteq> CHR ''+''" using g l(2) by (meson hd_in_set)
  moreover have "parse_hex_digits (max_of 64) 0 hex = Some n"
    using parse_hex_value [OF l(3), of 0 "max_of 64"] l(4) n by (simp add: hex_value_def max_of_def)
  ultimately have "from_str_radix_16 (max_of 64) hex = Some n"
    using l(2) by (auto simp: from_str_radix_16_def)
  moreover have t: "takeWhile (\<lambda>b. b \<noteq> 0x3B) l = bytes_of hex"
  proof -
    have "0x3B \<notin> set (bytes_of hex)"
    proof
      assume "0x3B \<in> set (bytes_of hex)"
      then have "CHR '';'' \<in> set hex" using set_bytes_of [of "CHR '';''" hex] by simp
      with g show False by blast
    qed
    then have "takeWhile (\<lambda>b. b \<noteq> 0x3B) l = bytes_of hex @ takeWhile (\<lambda>b. b \<noteq> 0x3B) ext"
      unfolding l(1) by (intro takeWhile_append2) auto
    then show ?thesis using l(5) by (cases ext) simp_all
  qed
  moreover have "is_str hex" using g by (intro is_str_ascii) auto
  moreover have "trim hex = hex" using g by (intro trim_graphic) auto
  ultimately show "chunk_size l = Some n" using l(2) unfolding chunk_size_def t by simp
  show "length l < MAX_CHUNK_SIZE_LINE" using assms by (simp add: plain_size_def)
qed

lemma plain_field_read:
  assumes "plain_field l h"
  shows "trailer_field l = Some h"
proof -
  from assms obtain name val where l: "l = bytes_of (name @ '':'' @ val)" "name \<noteq> []" "h = (to_ascii_lowercase name, trim val)"
    and nm: "\<forall>c \<in> set name. 0x20 < (of_char c :: nat) \<and> of_char c < (0x7F :: nat) \<and> c \<noteq> CHR '':''"
    and vl: "\<forall>c \<in> set val. c = CHR 0x09 \<or> 0x20 \<le> (of_char c :: nat) \<and> of_char c < (0x7F :: nat)"
    by (auto simp: plain_field_def)
  have "of_char c < (128 :: nat)" if "c \<in> set name" for c using bspec [OF nm that] by simp
  moreover have "of_char c < (128 :: nat)" if "c \<in> set val" for c
    using bspec [OF vl that] by (elim disjE) simp_all
  ultimately have "is_str (name @ '':'' @ val)" by (intro is_str_ascii) auto
  moreover have "split_once CHR '':'' (name @ '':'' @ val) = Some (name, val)" 
  proof -
    have "CHR '':'' \<notin> set name" using nm by blast
    from find_char_append [OF this, of val] show ?thesis by (simp add: split_once_def)
  qed
  moreover have "trim name = name"
  proof (rule trim_graphic, rule ballI)
    fix c assume "c \<in> set name"
    with nm show "0x20 < (of_char c :: nat) \<and> of_char c < (0x80 :: nat)" by fastforce
  qed
  moreover have "\<not> starts_with_colon (to_ascii_lowercase name)"
    using nm l(2) by (cases name) (auto simp: starts_with_colon_def to_ascii_lowercase_map lower_char_colon)
  moreover have "to_ascii_lowercase name \<noteq> []" using l(2) by (simp add: to_ascii_lowercase_map)
  ultimately show ?thesis unfolding l(1) trailer_field_def by (simp add: l(3) Let_def del: bytes_of_simps)
qed

lemma size_line_read: "size_line strict l n \<Longrightarrow> chunk_size l = Some n" "size_line True l n \<Longrightarrow> length l < MAX_CHUNK_SIZE_LINE"
  "size_line False l n \<longleftrightarrow> chunk_size l = Some n"
  using plain_size_read by (auto simp: size_line_def split: if_splits)

lemma field_line_read: "field_line strict l h \<Longrightarrow> trailer_field l = Some h" "field_line False l h \<longleftrightarrow> trailer_field l = Some h"
  using plain_field_read by (auto simp: field_line_def split: if_splits)

section \<open>What the decoder completes is a message\<close>

lemma data: "reads lim (InChunk n) m p ts \<Longrightarrow> reads lim (InChunk (length c + n)) (c @ m) (c @ p) ts"
  by (induction c) (auto intro: data_byte)

definition position_of :: "chunk_decoder \<Rightarrow> position" where
  "position_of d =
     (if cd_complete d then Finished else if cd_done d then AtTrailers
      else case in_chunk d of None \<Rightarrow> AtSize | Some n \<Rightarrow> InChunk n)"

definition unread :: "chunk_decoder \<Rightarrow> bytes" where
  "unread d = trailer_buf d @ cd_buf d"

text \<open>\<open>advances d d1 p ts\<close>: the decoder moved on from \<open>d\<close> to \<open>d1\<close>, with \<open>p\<close> and \<open>ts\<close> read in between: any
  message, of any length, that continues from \<open>d1\<close> continues from \<open>d\<close>, with \<open>p\<close> and \<open>ts\<close> in front.\<close>

definition advances :: "chunk_decoder \<Rightarrow> chunk_decoder \<Rightarrow> bytes \<Rightarrow> header list \<Rightarrow> bool" where
  "advances d d1 p ts \<longleftrightarrow>
     cd_trailers d1 = cd_trailers d @ ts
     \<and> (\<forall>m q us. reads False (position_of d1) (unread d1 @ m) q us \<longrightarrow> reads False (position_of d) (unread d @ m) (p @ q) (ts @ us))"

lemma advances_refl: "advances d d [] []"
  by (simp add: advances_def)

lemma advances_trans: "advances d d1 p ts \<Longrightarrow> advances d1 d2 q us \<Longrightarrow> advances d d2 (p @ q) (ts @ us)"
  by (auto simp: advances_def)

text \<open>Before the last chunk nothing is in the buffer of the trailer section.\<close>

definition wf_decoder :: "chunk_decoder \<Rightarrow> bool" where
  "wf_decoder d \<longleftrightarrow> (\<not> cd_done d \<longrightarrow> trailer_buf d = [] \<and> \<not> cd_complete d \<and> cd_trailers d = [])"

lemma split_line:
  assumes "find_crlf buf = Some nl"
  shows "buf = take nl buf @ CR # LF # drop (nl + 2) buf" and "is_line (take nl buf)"
proof -
  have c: "crlf_at buf nl" "\<forall>j < nl. \<not> crlf_at buf j" and l: "nl + 2 \<le> length buf"
    using assms find_crlf_bound by (auto simp: find_crlf_iff)
  have "drop nl buf = buf ! nl # buf ! (nl + 1) # drop (nl + 2) buf"
    using l by (simp add: Cons_nth_drop_Suc)
  then have d: "drop nl buf = CR # LF # drop (nl + 2) buf" using c(1) by (simp add: crlf_at_iff)
  then show b: "buf = take nl buf @ CR # LF # drop (nl + 2) buf" by (metis append_take_drop_id)
  have "crlf_at (take nl buf @ [CR, LF]) j \<longleftrightarrow> crlf_at buf j" if "j \<le> nl" for j
  proof -
    consider "j = nl" | "Suc j = nl" | "Suc j < nl" using \<open>j \<le> nl\<close> by linarith
    then show ?thesis using l c(1) by cases (auto simp: crlf_at_iff nth_append)
  qed
  then show "is_line (take nl buf)" using c l by (auto simp: is_line_def find_crlf_iff)
qed

lemma trailers_advance:
  assumes "cd_done d" "\<not> cd_complete d" "parse_trailer_section d = (Ok (), d1)"
  shows "cd_done d1 \<and> (\<exists>ts. advances d d1 [] ts)"
  using assms
proof (induction d rule: parse_trailer_section.induct)
  case (1 d)
  let ?b = "trailer_buf d @ cd_buf d"
  let ?d = "d\<lparr>trailer_buf := ?b, cd_buf := []\<rparr>"
  have big: "\<not> (cd_buf d \<noteq> [] \<and> length (trailer_buf d) + length (cd_buf d) > MAX_TRAILER_SECTION)"
    using "1.prems"(3) by (auto simp: parse_trailer_section.simps [of d])
  have at: "position_of d = AtTrailers" "unread d = ?b" using "1.prems" by (simp_all add: position_of_def unread_def)
  show ?case
  proof (cases "find_crlf ?b")
    case None
    then have "d1 = ?d" using "1.prems"(3) big by (simp add: parse_trailer_section.simps [of d] split: if_splits)
    then have "cd_done d1" "advances d d1 [] []" using "1.prems" by (simp_all add: advances_def position_of_def unread_def)
    then show ?thesis by blast
  next
    case (Some nl)
    note line = split_line [OF Some]
    show ?thesis
    proof (cases "nl = 0")
      case True
      then have d1: "d1 = ?d\<lparr>trailer_buf := drop 2 ?b, cd_complete := True\<rparr>"
        using "1.prems"(3) big Some by (simp add: parse_trailer_section.simps [of d])
      have "reads False AtTrailers (?b @ m) q us" if "reads False Finished (drop 2 ?b @ m) q us" for m q us
        using trailer_end [OF _ that] line(1) True by (metis append_Cons append_Nil take_0 add_0)
      then have "advances d d1 [] []" unfolding advances_def at by (simp add: d1 position_of_def unread_def)
      with d1 "1.prems"(1) show ?thesis by auto
    next
      case False
      let ?next = "\<lambda>h. ?d\<lparr>cd_trailers := cd_trailers d @ [h], trailer_buf := drop (nl + 2) ?b\<rparr>"
      obtain h where h: "trailer_field (take nl ?b) = Some h" "parse_trailer_section (?next h) = (Ok (), d1)"
        using "1.prems"(3) big Some False
        by (cases "trailer_field (take nl ?b)") (simp_all add: parse_trailer_section.simps [of d] Let_def)
      have "cd_done d1 \<and> (\<exists>ts. advances (?next h) d1 [] ts)"
        using "1.IH" [OF big refl _ False, of h] Some h "1.prems" by simp
      moreover have "reads False AtTrailers (?b @ m) q (h # us)" if "reads False AtTrailers (drop (nl + 2) ?b @ m) q us" for m q us
        using field [OF line(2) _ field_line_read(2) [THEN iffD2, OF h(1)] _ that] line(1) False by (metis append_Cons append_assoc take_eq_Nil find_crlf_bound Some le_zero_eq add_is_0 length_0_conv zero_neq_numeral)
      then have "advances d (?next h) [] [h]"
        using "1.prems" unfolding advances_def at by (simp add: position_of_def unread_def)
      ultimately show ?thesis using advances_trans by fastforce
    qed
  qed
qed

lemma chunk_steps:
  assumes "\<not> cd_done d" "wf_decoder d"
  shows "in_chunk d = Some 0 \<Longrightarrow> cd_buf d = CR # LF # b \<Longrightarrow> advances d (d\<lparr>cd_buf := b, in_chunk := None\<rparr>) [] []"
    and "in_chunk d = Some n \<Longrightarrow> cd_buf d = c @ b \<Longrightarrow> length c \<le> n
      \<Longrightarrow> advances d (d\<lparr>cd_buf := b, in_chunk := Some (n - length c)\<rparr>) c []"
    and "in_chunk d = None \<Longrightarrow> cd_buf d = l @ CR # LF # b \<Longrightarrow> is_line l \<Longrightarrow> chunk_size l = Some 0
      \<Longrightarrow> advances d (d\<lparr>cd_buf := b, cd_done := True\<rparr>) [] []"
    and "in_chunk d = None \<Longrightarrow> cd_buf d = l @ CR # LF # b \<Longrightarrow> is_line l \<Longrightarrow> chunk_size l = Some n \<Longrightarrow> n \<noteq> 0
      \<Longrightarrow> advances d (d\<lparr>cd_buf := b, in_chunk := Some n\<rparr>) [] []"
  using assms last_chunk [of _ False] chunk [of _ False] chunk_end data [of False "n - length c" _ _ _ c]
  by (auto simp: advances_def position_of_def unread_def wf_decoder_def size_line_read(3))

text \<open>What one turn of the loop does: stop where it is, go through the trailer section, or advance.\<close>

definition turns :: "chunk_decoder \<Rightarrow> bytes \<Rightarrow> (unit, resp_abort) result \<times> chunk_decoder \<times> bytes \<Rightarrow> bool" where
  "turns d out r \<longleftrightarrow>
     (\<exists>d' c. advances d d' c [] \<and> wf_decoder d' \<and> length (cd_buf d') < length (cd_buf d) \<and> r = chunk_loop d' (out @ c))"

lemma size_turn:
  assumes "wf_decoder d" "\<not> cd_done d" "in_chunk d = None" "fst (chunk_loop d out) = Ok ()"
  shows "chunk_loop d out = (Ok (), d, out) \<or> turns d out (chunk_loop d out)"
proof (cases "find_crlf (cd_buf d)")
  case None
  then show ?thesis using assms by (simp add: chunk_loop.simps [of d] wf_decoder_def split: if_splits)
next
  case (Some nl)
  let ?b = "drop (nl + 2) (cd_buf d)"
  note line = split_line [OF Some] and steps = chunk_steps [OF assms(2,1)]
  have c: "\<not> cd_complete d" using assms(1,2) by (simp add: wf_decoder_def)
  have nl: "\<not> nl > MAX_CHUNK_SIZE_LINE" using assms c Some by (auto simp: chunk_loop.simps [of d])
  obtain sz where sz: "chunk_size (take nl (cd_buf d)) = Some sz"
    using assms c Some nl by (auto simp: chunk_loop.simps [of d] split: option.splits)
  have l: "length ?b < length (cd_buf d)" using find_crlf_bound [OF Some] by simp
  show ?thesis
  proof (cases "sz = 0")
    case True
    then have "chunk_loop d out = chunk_loop (d\<lparr>cd_buf := ?b, cd_done := True\<rparr>) (out @ [])"
      using assms c Some nl sz by (simp add: chunk_loop.simps [of d])
    then have "turns d out (chunk_loop d out)"
      unfolding turns_def using steps(3) [OF assms(3) line] l True sz assms(1)
      by (intro exI [of _ "d\<lparr>cd_buf := ?b, cd_done := True\<rparr>"] exI [of _ "[]"]) (simp add: wf_decoder_def)
    then show ?thesis ..
  next
    case False
    then have "chunk_loop d out = chunk_loop (d\<lparr>cd_buf := ?b, in_chunk := Some sz\<rparr>) (out @ [])"
      using assms c Some nl sz by (simp add: chunk_loop.simps [of d])
    then have "turns d out (chunk_loop d out)"
      unfolding turns_def using steps(4) [OF assms(3) line sz False] l assms(1)
      by (intro exI [of _ "d\<lparr>cd_buf := ?b, in_chunk := Some sz\<rparr>"] exI [of _ "[]"]) (simp add: wf_decoder_def)
    then show ?thesis ..
  qed
qed

lemma data_turn:
  assumes "wf_decoder d" "\<not> cd_done d" "in_chunk d = Some n" "fst (chunk_loop d out) = Ok ()"
  shows "chunk_loop d out = (Ok (), d, out) \<or> turns d out (chunk_loop d out)"
proof (cases "n = 0")
  case True
  have c: "\<not> cd_complete d" using assms(1,2) by (simp add: wf_decoder_def)
  show ?thesis
  proof (cases "get_range (cd_buf d) 0 2")
    case None
    then show ?thesis using True assms c by (simp add: chunk_loop.simps [of d])
  next
    case (Some lead)
    then have lead: "take 2 (cd_buf d) = [CR, LF]" "2 \<le> length (cd_buf d)"
      using True assms c by (auto simp: chunk_loop.simps [of d] get_range_def split: if_splits)
    then have b: "cd_buf d = CR # LF # drop 2 (cd_buf d)" by (metis append_take_drop_id append_Cons append_Nil)
    have "chunk_loop d out = chunk_loop (d\<lparr>cd_buf := drop 2 (cd_buf d), in_chunk := None\<rparr>) (out @ [])"
      using True assms c Some lead by (simp add: chunk_loop.simps [of d] get_range_def)
    then have "turns d out (chunk_loop d out)"
      unfolding turns_def using chunk_steps(1) [OF assms(2,1) _ b] True assms(1,3) lead(2)
      by (intro exI [of _ "d\<lparr>cd_buf := drop 2 (cd_buf d), in_chunk := None\<rparr>"] exI [of _ "[]"]) (simp add: wf_decoder_def)
    then show ?thesis ..
  qed
next
  case False
  have c: "\<not> cd_complete d" using assms(1,2) by (simp add: wf_decoder_def)
  show ?thesis
  proof (cases "cd_buf d = []")
    case True
    then show ?thesis using False assms c by (simp add: chunk_loop.simps [of d])
  next
    case ne: False
    let ?k = "min n (length (cd_buf d))"
    let ?d = "d\<lparr>cd_buf := drop ?k (cd_buf d), in_chunk := Some (n - ?k)\<rparr>"
    have "chunk_loop d out = chunk_loop ?d (out @ take ?k (cd_buf d))"
      using False ne assms c by (simp add: chunk_loop.simps [of d] Let_def)
    moreover have "advances d ?d (take ?k (cd_buf d)) []"
      using chunk_steps(2) [OF assms(2,1,3), of "take ?k (cd_buf d)" "drop ?k (cd_buf d)"]
      by (simp add: min.absorb2 del: min_less_iff_conj)
    moreover have "length (cd_buf ?d) < length (cd_buf d)" using False ne by (cases "cd_buf d") auto
    ultimately show ?thesis using assms(1,2) unfolding turns_def
      by (intro disjI2 exI [of _ ?d] exI [of _ "take ?k (cd_buf d)"]) (simp add: wf_decoder_def)
  qed
qed

lemma chunk_loop_advances:
  assumes "wf_decoder d" "chunk_loop d out = (Ok (), d1, out1)"
  shows "wf_decoder d1 \<and> (\<exists>p ts. out1 = out @ p \<and> advances d d1 p ts)"
  using assms
proof (induction "length (cd_buf d)" arbitrary: d out rule: less_induct)
  case less
  show ?case
  proof (cases "cd_complete d \<or> cd_done d")
    case True
    then show ?thesis
      using less.prems trailers_advance [of d d1] advances_refl [of d]
      by (fastforce simp: chunk_loop.simps [of d] wf_decoder_def split: if_splits prod.splits)
  next
    case False
    then have "chunk_loop d out = (Ok (), d, out) \<or> turns d out (chunk_loop d out)"
      using size_turn [of d out] data_turn [of d _ out] less.prems by (cases "in_chunk d") auto
    then show ?thesis
    proof
      assume "chunk_loop d out = (Ok (), d, out)"
      then show ?thesis using less.prems advances_refl by fastforce
    next
      assume "turns d out (chunk_loop d out)"
      then obtain d' c where t: "advances d d' c []" "wf_decoder d'" "length (cd_buf d') < length (cd_buf d)"
        "chunk_loop d' (out @ c) = (Ok (), d1, out1)" using less.prems by (auto simp: turns_def)
      with less.hyps [OF t(3,2,4)] show ?thesis using advances_trans [OF t(1)] by fastforce
    qed
  qed
qed

section \<open>Messages within the limits are decoded\<close>

lemma line_split:
  assumes "buf @ m = l @ CR # LF # m'" "is_line l"
  shows "find_crlf buf = None \<and> length buf < length l + 2
    \<or> (\<exists>b. buf = l @ CR # LF # b \<and> m' = b @ m \<and> find_crlf buf = Some (length l))"
proof (cases "length buf < length l + 2")
  case True
  have "\<not> crlf_at buf j" for j
  proof
    assume c: "crlf_at buf j"
    then have j: "j < length l" using True by (simp add: crlf_at_iff)
    have eq: "buf ! i = (l @ [CR, LF]) ! i" if "i < length buf" for i
      using that True arg_cong [OF assms(1), of "\<lambda>xs. xs ! i"] by (auto simp: nth_append nth_Cons' split: if_splits)
    with c have "crlf_at (l @ [CR, LF]) j" using eq [of j] eq [of "Suc j"] j by (simp add: crlf_at_iff)
    with j assms(2) show False by (simp add: is_line_def find_crlf_iff)
  qed
  then show ?thesis using True by (simp add: find_crlf_None)
next
  case False
  then obtain b where b: "buf = l @ CR # LF # b"
    using assms(1) by (auto simp: append_eq_append_conv2 append_eq_Cons_conv Cons_eq_append_conv)
  moreover have "find_crlf (l @ CR # LF # b) = Some (length l)"
  proof -
    have "crlf_at (l @ CR # LF # b) j \<longleftrightarrow> crlf_at (l @ [CR, LF]) j" if "j \<le> length l" for j
      using that by (auto simp: crlf_at_iff nth_append nth_Cons')
    then show ?thesis using assms(2) by (auto simp: is_line_def find_crlf_iff)
  qed
  ultimately show ?thesis using assms(1) by auto
qed

lemma is_line_Nil: "is_line []"
  by (simp add: is_line_def find_crlf_iff crlf_at_iff)

text \<open>\<open>ahead d m p ts\<close>: with the bytes \<open>m\<close> still to be read, the decoder is on its way to a message within the
  limits; \<open>keeps\<close>: a run stays on that way and, once nothing is left to read, is complete.\<close>

definition ahead :: "chunk_decoder \<Rightarrow> bytes \<Rightarrow> bytes \<Rightarrow> header list \<Rightarrow> bool" where
  "ahead d m p ts \<longleftrightarrow> wf_decoder d \<and> reads True (position_of d) (unread d @ m) p ts"

definition keeps :: "bytes \<Rightarrow> chunk_decoder \<Rightarrow> bytes \<Rightarrow> (unit, resp_abort) result \<times> chunk_decoder \<times> bytes
    \<Rightarrow> bytes \<Rightarrow> header list \<Rightarrow> bool" where
  "keeps m d out r p ts \<longleftrightarrow>
     (\<exists>d1 q p1 us ts1. r = (Ok (), d1, out @ q) \<and> p = q @ p1 \<and> ts = us @ ts1 \<and> cd_trailers d1 = cd_trailers d @ us
        \<and> ahead d1 m p1 ts1 \<and> (m = [] \<longrightarrow> cd_complete d1))"

lemma keeps_stop:
  "ahead d1 m p ts \<Longrightarrow> cd_trailers d1 = cd_trailers d \<Longrightarrow> m \<noteq> [] \<or> cd_complete d1 \<Longrightarrow> keeps m d out (Ok (), d1, out) p ts"
  unfolding keeps_def by (intro exI [of _ d1] exI [of _ "[]"] exI [of _ p] exI [of _ ts]) auto

lemma keeps_turn:
  "keeps m d1 (out @ q) r p ts \<Longrightarrow> cd_trailers d1 = cd_trailers d @ us \<Longrightarrow> keeps m d out r (q @ p) (us @ ts)"
  unfolding keeps_def by (metis append_assoc)

lemma reads_trailers_bound: "reads True AtTrailers x p ts \<Longrightarrow> length x \<le> MAX_TRAILER_SECTION"
  by (erule reads_AtTrailersE) auto

lemma trailers_keep:
  assumes "cd_done d" "\<not> cd_complete d" "ahead d m p ts"
  shows "keeps m d out (case parse_trailer_section d of (r, d1) \<Rightarrow> (r, d1, out)) p ts"
  using assms
proof (induction d arbitrary: ts rule: parse_trailer_section.induct)
  case (1 d)
  let ?b = "trailer_buf d @ cd_buf d"
  let ?d = "d\<lparr>trailer_buf := ?b, cd_buf := []\<rparr>"
  have r: "reads True AtTrailers (?b @ m) p ts" using "1.prems" by (simp add: ahead_def position_of_def unread_def)
  have fits: "length (?b @ m) \<le> MAX_TRAILER_SECTION" using r by (rule reads_trailers_bound)
  then have big: "\<not> (cd_buf d \<noteq> [] \<and> length (trailer_buf d) + length (cd_buf d) > MAX_TRAILER_SECTION)" by auto
  have upd: "ahead ?d m p ts" using "1.prems" r by (simp add: ahead_def position_of_def unread_def wf_decoder_def)
  have wait: ?case if "find_crlf ?b = None" "m \<noteq> []"
  proof -
    have "parse_trailer_section d = (Ok (), ?d)"
      using that(1) big fits by (simp add: parse_trailer_section.simps [of d])
    then show ?thesis using keeps_stop [OF upd, of d] that(2) by simp
  qed
  from r consider (final) m' where "?b @ m = CR # LF # m'" "reads True Finished m' p ts"
    | (line) l h m' ts' where "?b @ m = l @ CR # LF # m'" "is_line l" "l \<noteq> []" "trailer_field l = Some h"
        "reads True AtTrailers m' p ts'" "ts = h # ts'"
    by (rule reads_AtTrailersE) (metis, blast dest: field_line_read(1))
  then show ?case
  proof cases
    case final
    from line_split [of ?b m "[]" m'] final is_line_Nil
    consider "find_crlf ?b = None" "m \<noteq> []" | b where "?b = CR # LF # b" "m' = b @ m" "find_crlf ?b = Some 0" by fastforce
    then show ?thesis
    proof cases
      case (2 b)
      let ?e = "?d\<lparr>trailer_buf := b, cd_complete := True\<rparr>"
      have "parse_trailer_section d = (Ok (), ?e)"
        using 2 big by (simp add: parse_trailer_section.simps [of d] Let_def)
      moreover have "ahead ?e m p ts"
        using "1.prems"(1) final 2 by (simp add: ahead_def position_of_def unread_def wf_decoder_def)
      ultimately show ?thesis using keeps_stop [of ?e m p ts d] by simp
    qed (rule wait)
  next
    case line
    from line_split [of ?b m l m'] line
    consider "find_crlf ?b = None" "m \<noteq> []"
      | b where "?b = l @ CR # LF # b" "m' = b @ m" "find_crlf ?b = Some (length l)" by fastforce
    then show ?thesis
    proof cases
      case b: (2 b)
      let ?e = "?d\<lparr>cd_trailers := cd_trailers d @ [h], trailer_buf := b\<rparr>"
      have "parse_trailer_section d = parse_trailer_section ?e"
        using b line by (subst parse_trailer_section.simps, subst if_not_P [OF big]) (simp add: Let_def)
      moreover have "ahead ?e m p ts'"
        using "1.prems"(1,2) line b by (simp add: ahead_def position_of_def unread_def wf_decoder_def)
      moreover have "keeps m ?e out (case parse_trailer_section ?e of (r, d1) \<Rightarrow> (r, d1, out)) p ts'"
        using "1.IH" [OF big refl, of "length l" h ts'] line b "1.prems"(1,2) \<open>ahead ?e m p ts'\<close> by simp
      ultimately show ?thesis using keeps_turn [of m ?e out "[]" _ p ts' d "[h]"] line by simp
    qed (rule wait)
  qed
qed

text \<open>One turn before the last chunk: wait for more bytes, or come closer to the end of the message.\<close>

definition moves :: "chunk_decoder \<Rightarrow> bytes \<Rightarrow> bytes \<Rightarrow> bytes \<Rightarrow> header list \<Rightarrow> bool" where
  "moves d m out p ts \<longleftrightarrow>
     chunk_loop d out = (Ok (), d, out) \<and> m \<noteq> []
     \<or> (\<exists>d1 c p1. chunk_loop d out = chunk_loop d1 (out @ c) \<and> length (cd_buf d1) < length (cd_buf d) \<and> p = c @ p1
          \<and> cd_trailers d1 = cd_trailers d \<and> ahead d1 m p1 ts)"

lemma moves_on:
  assumes "chunk_loop d out = chunk_loop d1 (out @ c)" "length (cd_buf d1) < length (cd_buf d)" "p = c @ p1"
    "cd_trailers d1 = cd_trailers d" "ahead d1 m p1 ts"
  shows "moves d m out p ts"
  using assms unfolding moves_def by blast

lemma strict_size_line:
  assumes "reads True AtSize x p ts"
  shows "\<exists>l m n. x = l @ CR # LF # m \<and> is_line l \<and> length l < MAX_CHUNK_SIZE_LINE \<and> chunk_size l = Some n
    \<and> reads True (if n = 0 then AtTrailers else InChunk n) m p ts"
  using assms
proof (rule reads_AtSizeE)
  fix l m assume "x = l @ CR # LF # m" "is_line l" "size_line True l 0" "reads True AtTrailers m p ts"
  then show ?thesis using size_line_read(1) [of _ l 0] size_line_read(2) [of l 0] by (intro exI [of _ l] exI [of _ m] exI [of _ 0]) simp
next
  fix l n m assume "x = l @ CR # LF # m" "is_line l" "size_line True l n" "0 < n" "reads True (InChunk n) m p ts"
  then show ?thesis using size_line_read(1) [of _ l n] size_line_read(2) [of l n] by (intro exI [of _ l] exI [of _ m] exI [of _ n]) simp
qed

lemma size_moves:
  assumes "ahead d m p ts" "\<not> cd_done d" "in_chunk d = None"
  shows "moves d m out p ts"
proof -
  have wf: "wf_decoder d" "\<not> cd_complete d" "trailer_buf d = []" using assms(1,2) by (simp_all add: ahead_def wf_decoder_def)
  with assms have "reads True AtSize (cd_buf d @ m) p ts" by (simp add: ahead_def position_of_def unread_def)
  then obtain l m' sz where l: "cd_buf d @ m = l @ CR # LF # m'" "is_line l" "length l < MAX_CHUNK_SIZE_LINE" "chunk_size l = Some sz"
    and rest: "reads True (if sz = 0 then AtTrailers else InChunk sz) m' p ts"
    using strict_size_line by blast
  from line_split [OF l(1,2)] show ?thesis
  proof (elim disjE exE conjE)
    assume "find_crlf (cd_buf d) = None" "length (cd_buf d) < length l + 2"
    then show ?thesis using wf assms l by (auto simp: moves_def chunk_loop.simps [of d])
  next
    fix b assume b: "cd_buf d = l @ CR # LF # b" "m' = b @ m" "find_crlf (cd_buf d) = Some (length l)"
    let ?d = "if sz = 0 then d\<lparr>cd_buf := b, cd_done := True\<rparr> else d\<lparr>cd_buf := b, in_chunk := Some sz\<rparr>"
    have "chunk_loop d out = chunk_loop ?d (out @ [])"
      using wf assms l b by (simp add: chunk_loop.simps [of d])
    moreover have "ahead ?d m p ts"
      using wf assms(2) rest b by (cases "sz = 0") (simp_all add: ahead_def position_of_def unread_def wf_decoder_def)
    ultimately show ?thesis using b by (intro moves_on [where c = "[]"]) auto
  qed
qed

lemma take_data:
  "reads lim (InChunk n) (c @ m) p ts \<Longrightarrow> length c \<le> n \<Longrightarrow> \<exists>p1. p = c @ p1 \<and> reads lim (InChunk (n - length c)) m p1 ts"
proof (induction c arbitrary: n p)
  case (Cons x c)
  from Cons.prems obtain k p' where "n = Suc k" "p = x # p'" "reads lim (InChunk k) (c @ m) p' ts"
    by (auto elim: reads_InChunkE)
  with Cons.IH [of k p'] Cons.prems(2) show ?case by simp
qed simp

lemma data_moves:
  assumes "ahead d m p ts" "\<not> cd_done d" "in_chunk d = Some n"
  shows "moves d m out p ts"
proof -
  have wf: "wf_decoder d" "\<not> cd_complete d" "trailer_buf d = []" using assms(1,2) by (simp_all add: ahead_def wf_decoder_def)
  with assms have r: "reads True (InChunk n) (cd_buf d @ m) p ts" by (simp add: ahead_def position_of_def unread_def)
  show ?thesis
  proof (cases "n = 0")
    case True
    with r obtain m' where m': "cd_buf d @ m = CR # LF # m'" "reads True AtSize m' p ts" by (auto elim: reads_InChunkE)
    show ?thesis
    proof (cases "length (cd_buf d) < 2")
      case short: True
      then show ?thesis using m' wf assms True by (auto simp: moves_def chunk_loop.simps [of d] get_range_def)
    next
      case False
      then obtain b where b: "cd_buf d = CR # LF # b" "m' = b @ m" using m'(1)
        by (cases "cd_buf d"; cases "tl (cd_buf d)") auto
      let ?d = "d\<lparr>cd_buf := b, in_chunk := None\<rparr>"
      have "chunk_loop d out = chunk_loop ?d (out @ [])"
        using wf assms True b by (simp add: chunk_loop.simps [of d] get_range_def)
      moreover have "ahead ?d m p ts" using wf assms(2) m'(2) b by (simp add: ahead_def position_of_def unread_def wf_decoder_def)
      ultimately show ?thesis using b by (intro moves_on [where c = "[]"]) auto
    qed
  next
    case False
    let ?k = "min n (length (cd_buf d))"
    let ?d = "d\<lparr>cd_buf := drop ?k (cd_buf d), in_chunk := Some (n - ?k)\<rparr>"
    have "cd_buf d @ m = take ?k (cd_buf d) @ drop ?k (cd_buf d) @ m" by (metis append_assoc append_take_drop_id)
    moreover have "length (take ?k (cd_buf d)) = ?k" by (simp add: min_def)
    ultimately obtain p1
      where p1: "p = take ?k (cd_buf d) @ p1" "reads True (InChunk (n - ?k)) (drop ?k (cd_buf d) @ m) p1 ts"
      using r take_data [of True n "take ?k (cd_buf d)" "drop ?k (cd_buf d) @ m" p ts] by (metis min.cobounded1)
    have "moves d m out p ts" if ne: "cd_buf d \<noteq> []"
    proof (rule moves_on [OF _ _ p1(1)])
      show "chunk_loop d out = chunk_loop ?d (out @ take ?k (cd_buf d))"
        using False ne wf assms by (simp add: chunk_loop.simps [of d] Let_def)
      show "length (cd_buf ?d) < length (cd_buf d)" using False ne by (cases "cd_buf d") auto
      show "ahead ?d m p1 ts" using wf assms(2) p1(2) by (simp add: ahead_def position_of_def unread_def wf_decoder_def)
    qed simp
    moreover have "m \<noteq> []" if "cd_buf d = []" using r that False by (auto elim: reads_InChunkE)
    ultimately show ?thesis using False wf assms by (cases "cd_buf d = []") (auto simp: moves_def chunk_loop.simps [of d])
  qed
qed

lemma chunk_loop_keeps: "ahead d m p ts \<Longrightarrow> keeps m d out (chunk_loop d out) p ts"
proof (induction "length (cd_buf d)" arbitrary: d out p rule: less_induct)
  case less
  show ?case
  proof (cases "cd_complete d \<or> cd_done d")
    case True
    then show ?thesis using less.prems trailers_keep [of d m p ts out] keeps_stop [OF less.prems refl, of out]
      by (auto simp: chunk_loop.simps [of d])
  next
    case False
    then have "moves d m out p ts" using size_moves [OF less.prems] data_moves [OF less.prems] by (cases "in_chunk d") auto
    then consider "chunk_loop d out = (Ok (), d, out)" "m \<noteq> []"
      | d1 c p1 where "chunk_loop d out = chunk_loop d1 (out @ c)" "length (cd_buf d1) < length (cd_buf d)" "p = c @ p1"
          "cd_trailers d1 = cd_trailers d" "ahead d1 m p1 ts"
      unfolding moves_def by blast
    then show ?thesis
    proof cases
      case 1
      then show ?thesis using keeps_stop [OF less.prems refl, of out] by simp
    next
      case (2 d1 c p1)
      then show ?thesis using keeps_turn [OF less.hyps [OF 2(2,5), of "out @ c"], of d "[]"] by simp
    qed
  qed
qed

text \<open>The grammar is unambiguous, and the limits only restrict it.\<close>

lemma reads_unlimited: "reads lim at m p ts \<Longrightarrow> reads False at m p ts"
proof (induction rule: reads.induct)
  case (field l h m p ts)
  then show ?case using reads.field [of l False h m p ts] field_line_read(1) [of _ l h] field_line_read(2) [of l h] by simp
next
  case (last_chunk l m p ts)
  then show ?case using reads.last_chunk [of l False m p ts] size_line_read(1) [of _ l 0] size_line_read(3) [of l 0] by simp
next
  case (chunk l n m p ts)
  then show ?case using reads.chunk [of l False n m p ts] size_line_read(1) [of _ l n] size_line_read(3) [of l n] by simp
qed (auto intro: reads.intros)

lemma line_unique:
  assumes "l @ CR # LF # m = l' @ CR # LF # m'" "is_line l" "is_line l'"
  shows "l = l' \<and> m = m'"
proof -
  have "length l = length l'"
    using line_split [of "l' @ CR # LF # m'" "[]" l m] line_split [of "l @ CR # LF # m" "[]" l' m'] assms
    by (fastforce dest: arg_cong [of _ _ length])
  with assms(1) show ?thesis by simp
qed

lemma reads_trailer_line:
  assumes "reads lim AtTrailers (l @ CR # LF # m) p ts" "is_line l"
  shows "if l = [] then reads lim Finished m p ts
    else \<exists>h us. trailer_field l = Some h \<and> ts = h # us \<and> reads lim AtTrailers m p us"
  using assms(1)
proof (rule reads_AtTrailersE)
  fix m' assume "l @ CR # LF # m = CR # LF # m'" "reads lim Finished m' p ts"
  then show ?thesis using line_unique [of l m "[]" m'] assms(2) is_line_Nil by simp
next
  fix l' h m' us assume "l @ CR # LF # m = l' @ CR # LF # m'" "ts = h # us" "is_line l'" "l' \<noteq> []" "field_line lim l' h"
    "reads lim AtTrailers m' p us"
  then show ?thesis using line_unique [of l m l' m'] assms(2) field_line_read(1) by simp
qed

lemma reads_size_line:
  assumes "reads lim AtSize (l @ CR # LF # m) p ts" "is_line l" "chunk_size l = Some n"
  shows "reads lim (if n = 0 then AtTrailers else InChunk n) m p ts"
  using assms(1)
proof (rule reads_AtSizeE)
  fix l' m' assume "l @ CR # LF # m = l' @ CR # LF # m'" "is_line l'" "size_line lim l' 0" "reads lim AtTrailers m' p ts"
  then show ?thesis using line_unique [of l m l' m'] assms(2,3) size_line_read(1) by fastforce
next
  fix l' k m' assume "l @ CR # LF # m = l' @ CR # LF # m'" "is_line l'" "size_line lim l' k" "0 < k"
    "reads lim (InChunk k) m' p ts"
  then show ?thesis using line_unique [of l m l' m'] assms(2,3) size_line_read(1) by fastforce
qed

lemma reads_unique: "reads lim at m p ts \<Longrightarrow> reads lim' at m p' ts' \<Longrightarrow> p = p' \<and> ts = ts'"
proof (induction arbitrary: p' ts' rule: reads.induct)
  case (trailer_end m p ts)
  then show ?case using reads_trailer_line [of lim' "[]" m p' ts'] is_line_Nil by simp
next
  case (field l h m p ts)
  then show ?case using reads_trailer_line [of lim' l m p' ts'] field_line_read(1) by fastforce
next
  case (last_chunk l m p ts)
  then show ?case using reads_size_line [of lim' l m p' ts' 0] size_line_read(1) by simp
next
  case (chunk l n m p ts)
  then show ?case using reads_size_line [of lim' l m p' ts' n] size_line_read(1) by simp
qed (auto elim: reads_FinishedE reads_InChunkE)

section \<open>A message fed in pieces\<close>

lemma feed_extends: "unread (d\<lparr>cd_buf := cd_buf d @ x\<rparr>) = unread d @ x"
  "position_of (d\<lparr>cd_buf := b\<rparr>) = position_of d" "wf_decoder (d\<lparr>cd_buf := b\<rparr>) = wf_decoder d"
  by (simp_all add: unread_def position_of_def wf_decoder_def)

lemma wf_new: "wf_decoder chunk_decoder_new" and position_new: "position_of chunk_decoder_new = AtSize"
  and unread_new: "unread chunk_decoder_new = []"
  by (simp_all add: wf_decoder_def chunk_decoder_new_def position_of_def unread_def)

text \<open>Soundness of one call: with what it appended to the payload and to the trailers, every continuation of
  the message from the new state is one from the old state.\<close>

lemma feed_sound:
  assumes "wf_decoder d" "decoder_feed d x out = (Ok (), d1, out1)"
  shows "wf_decoder d1 \<and> (\<exists>p ts. out1 = out @ p \<and> cd_trailers d1 = cd_trailers d @ ts
    \<and> (\<forall>m q us. reads False (position_of d1) (unread d1 @ m) q us
        \<longrightarrow> reads False (position_of d) (unread d @ x @ m) (p @ q) (ts @ us)))"
  using chunk_loop_advances [of "d\<lparr>cd_buf := cd_buf d @ x\<rparr>" out d1 out1] assms
  by (auto simp: decoder_feed_def advances_def feed_extends)

lemma feed_keeps:
  assumes "wf_decoder d" "reads True (position_of d) (unread d @ x @ m) p ts"
  shows "\<exists>d1 q p1 us ts1. decoder_feed d x out = (Ok (), d1, out @ q) \<and> p = q @ p1 \<and> ts = us @ ts1
    \<and> cd_trailers d1 = cd_trailers d @ us \<and> wf_decoder d1 \<and> reads True (position_of d1) (unread d1 @ m) p1 ts1
    \<and> (m = [] \<longrightarrow> cd_complete d1)"
  using chunk_loop_keeps [of "d\<lparr>cd_buf := cd_buf d @ x\<rparr>" m p ts out] assms
  by (simp add: decoder_feed_def ahead_def keeps_def feed_extends)

section \<open>Messages of the encoder\<close>

lemma hex_digit_of_digit: "d < 16 \<Longrightarrow> hex_digit_of (hex_digit d) = Some d"
  by (auto simp: hex_digit_of_def hex_digit_def Let_def)

lemma hex_value_lower: "hex_value (lower_hex n) = n"
proof (induction n rule: lower_hex.induct)
  case (1 n)
  show ?case
  proof (cases "n < 16")
    case True
    then show ?thesis using hex_digit_of_digit [of n] by (subst lower_hex.simps) (simp add: hex_value_def)
  next
    case False
    then show ?thesis using 1 hex_digit_of_digit [of "n mod 16"] by (subst lower_hex.simps) (simp add: hex_value_def)
  qed
qed

lemma lower_hex_chars: "c \<in> set (lower_hex n) \<Longrightarrow> hex_digit_of c \<noteq> None"
proof (induction n rule: lower_hex.induct)
  case (1 n)
  then show ?case using hex_digit_of_digit [of n] hex_digit_of_digit [of "n mod 16"]
    by (subst (asm) (2) lower_hex.simps) (auto split: if_splits)
qed

lemma size_line_lower_hex:
  assumes "n < 2 ^ 64"
  shows "size_line True (bytes_of (lower_hex n)) n" and "is_line (bytes_of (lower_hex n))"
proof -
  let ?h = "lower_hex n"
  have "length ?h < MAX_CHUNK_SIZE_LINE" using lower_hex_length [of n 16] assms by (simp add: MAX_CHUNK_SIZE_LINE_def)
  then show "size_line True (bytes_of ?h) n"
    unfolding size_line_def plain_size_def using assms hex_value_lower [of n] lower_hex_chars [of _ n] lower_hex_nonempty [of n]
    by (simp, intro exI [of _ ?h] exI [of _ "[]"]) auto
  have "CR \<notin> set (bytes_of ?h)" using hex_text_bytes [of CR n] by blast
  then show "is_line (bytes_of ?h)" using find_crlf_line [of "bytes_of ?h" "[]"] by (simp add: is_line_def)
qed

lemma reads_wire:
  assumes "\<forall>c \<in> set cs. length c < 2 ^ 64"
  shows "reads True AtSize (chunked_wire cs []) (concat cs) []"
  using assms
proof (induction cs)
  case Nil
  have "lower_hex 0 = ''0''" by code_simp
  then have "reads True AtSize (bytes_of (lower_hex 0) @ CR # LF # [CR, LF]) [] []"
    using size_line_lower_hex [of 0] by (intro last_chunk trailer_end finished) (simp_all add: MAX_TRAILER_SECTION_def)
  then show ?case using \<open>lower_hex 0 = ''0''\<close> by (simp add: chunked_wire_def chunked_finish_def chunked_encoder_new_def)
next
  case (Cons c cs)
  show ?case
  proof (cases "c = []")
    case True
    with Cons show ?thesis by (simp add: chunked_wire_def chunked_encode_def chunked_encoder_new_def)
  next
    case False
    have "reads True (InChunk (length c + 0)) (c @ CR # LF # chunked_wire cs []) (c @ concat cs) []"
      using Cons by (intro data chunk_end) simp
    then have "reads True AtSize (bytes_of (lower_hex (length c)) @ CR # LF # (c @ CR # LF # chunked_wire cs [])) (c @ concat cs) []"
      using size_line_lower_hex [of "length c"] Cons.prems False by (intro chunk) simp_all
    then show ?thesis using False by (simp add: chunked_wire_def chunked_encode_def chunked_encoder_new_def)
  qed
qed

section \<open>Limits of the decoder\<close>

text \<open>The limit of the trailer section bounds what is buffered between two reads, not the section: with one
  field in each read the buffers are empty again after it, while the fields that are kept grow by one.\<close>

lemma trailers_unbounded:
  assumes "cd_done d" "\<not> cd_complete d" "cd_buf d = []" "trailer_buf d = []"
  shows "decoder_feed d (bytes_of (''a:'' @ CRLF)) out = (Ok (), d\<lparr>cd_trailers := cd_trailers d @ [(''a'', [])]\<rparr>, out)"
proof -
  have f: "find_crlf [0x61, 0x3A, CR, LF] = Some 2" "find_crlf [] = None"
    "trailer_field [0x61, 0x3A] = Some (''a'', [])" by code_simp+
  let ?d = "d\<lparr>cd_buf := [], cd_trailers := cd_trailers d @ [(''a'', [])], trailer_buf := []\<rparr>"
  have e: "?d = d\<lparr>cd_trailers := cd_trailers d @ [(''a'', [])]\<rparr>" using assms by (cases d) simp
  have "parse_trailer_section ?d = (Ok (), ?d)"
    using assms f(2) by (subst parse_trailer_section.simps) (simp add: Let_def)
  then have "parse_trailer_section (d\<lparr>cd_buf := [0x61, 0x3A, CR, LF]\<rparr>) = (Ok (), ?d)"
    using assms f by (subst parse_trailer_section.simps) (simp add: Let_def MAX_TRAILER_SECTION_def)
  then show ?thesis using assms e by (simp add: decoder_feed_def chunk_loop.simps CRLF_def)
qed

text \<open>A plus sign is accepted in front of a chunk size.\<close>

lemma signed_size_accepted: "chunk_size (bytes_of ''+5'') = Some 5"
proof -
  have "trim ''+5'' = ''+5''" "from_utf8 [0x2B, 0x35] = Some ''+5''" by code_simp+
  then show ?thesis by (simp add: chunk_size_def from_str_radix_16_def hex_digit_of_def max_of_def)
qed

text \<open>Nor is a hop-by-hop field of the trailer section left out.\<close>

lemma hop_by_hop_trailer_kept:
  "trailer_field (bytes_of ''Connection: close'') = Some (''connection'', ''close'') \<and> is_response_hop_by_hop ''connection''"
  by code_simp

end
