(* ===== verification/H3_Response.thy ===== *)
theory H3_Response
  imports Chunk_Decoder
begin

text \<open>
  The response half of the HTTP/3 to HTTP/1.1 relay (\<open>lb-quic/src/h3_bridge.rs\<close>, \<open>stream_h1_response\<close>): the
  head of the upstream response, its framing, and the body relayed as events over a bounded channel. The
  socket is the list of what the reads will find; the channel records what was sent and may be closed by the
  client after any number of events.
\<close>

section \<open>The socket and the channel\<close>

text \<open>A segment is what one read finds, cut to the buffer of the reader. No more segments, or an empty one, is
  the end of the stream.\<close>

datatype segment = Data bytes | ReadError

fun read :: "nat \<Rightarrow> segment list \<Rightarrow> (bytes, unit) result \<times> segment list" where
  "read w [] = (Ok [], [])"
| "read w (ReadError # r) = (Err (), r)"
| "read w (Data b # r) = (if length b \<le> w then (Ok b, r) else (Ok (take w b), Data (drop w b) # r))"

datatype resp_event = Head nat "header list" | Body bytes | Trailers "header list" | RespEnd | RespReset

record resp_channel =
  sent :: "resp_event list"
  closes :: "nat option"

definition send :: "resp_channel \<Rightarrow> resp_event \<Rightarrow> (unit, resp_abort) result \<times> resp_channel" where
  "send tx ev =
     (if (case closes tx of None \<Rightarrow> True | Some k \<Rightarrow> length (sent tx) < k)
      then (Ok (), tx\<lparr>sent := sent tx @ [ev]\<rparr>) else (Err ClientGone, tx))"

text \<open>Every abort first tries to send a reset.\<close>

definition abort :: "resp_channel \<Rightarrow> resp_abort \<Rightarrow> ('a, resp_abort) result \<times> resp_channel" where
  "abort tx e = (Err e, snd (send tx RespReset))"

definition io_bind :: "('a, 'e) result \<times> 's \<Rightarrow> ('a \<Rightarrow> 's \<Rightarrow> ('b, 'e) result \<times> 's) \<Rightarrow> ('b, 'e) result \<times> 's" where
  "io_bind p k = (case p of (Inl e, s) \<Rightarrow> (Err e, s) | (Inr x, s) \<Rightarrow> k x s)"

lemma io_bind_cong [fundef_cong]:
  "p = q \<Longrightarrow> (\<And>x s. q = (Inr x, s) \<Longrightarrow> k x s = k' x s) \<Longrightarrow> io_bind p k = io_bind q k'"
  by (auto simp: io_bind_def split: prod.split sum.split)

text \<open>How much there is to read, so that the loops end.\<close>

fun backlog :: "segment list \<Rightarrow> nat" where
  "backlog [] = 0"
| "backlog (ReadError # r) = Suc (backlog r)"
| "backlog (Data b # r) = Suc (length b + backlog r)"

lemma read_backlog: "read w segs = (Inr b, s) \<Longrightarrow> b \<noteq> [] \<Longrightarrow> backlog s < backlog segs"
  by (induction w segs rule: read.induct) (auto split: if_splits)

section \<open>The head\<close>

definition HEAD_CAP :: nat where
  "HEAD_CAP = 64 * 1024"

definition H3_RESP_CHUNK_MAX :: nat where
  "H3_RESP_CHUNK_MAX = 8 * 1024"

definition rbuf_len :: nat where
  "rbuf_len = 8 * 1024"

definition find_header_sep :: "bytes \<Rightarrow> nat option" where
  "find_header_sep buf = find (\<lambda>i. get_range buf i (i + 4) = Some [CR, LF, CR, LF]) [0..<length buf]"

function read_head :: "bytes \<Rightarrow> segment list \<Rightarrow> (bytes \<times> bytes, resp_abort) result \<times> segment list" where
  "read_head head segs =
     (case find_header_sep head of
        Some p \<Rightarrow> (Ok (take p head, drop (p + 4) head), segs)
      | None \<Rightarrow>
          if length head > HEAD_CAP then (Err BadHead, segs)
          else
            case read rbuf_len segs of
              (Inl _, s) \<Rightarrow> (Err UpstreamReset, s)
            | (Inr b, s) \<Rightarrow> if b = [] then (Err BadHead, s) else read_head (head @ b) s)"
  by pat_completeness auto
termination
  by (relation "measure (\<lambda>(_, segs). backlog segs)") (auto dest: read_backlog [OF sym])

declare read_head.simps [simp del]

text \<open>\<open>str::split\<close> at CR LF, and \<open>str::contains\<close>.\<close>

fun split_crlf :: "string \<Rightarrow> string list" where
  "split_crlf [] = [[]]"
| "split_crlf (c # s) =
     (if c = CHR 0x0D \<and> s \<noteq> [] \<and> hd s = CHR 0x0A then [] # split_crlf (tl s)
      else case split_crlf s of [] \<Rightarrow> [[c]] | t # ts \<Rightarrow> (c # t) # ts)"

fun contains :: "string \<Rightarrow> string \<Rightarrow> bool" where
  "contains [] p \<longleftrightarrow> p = []"
| "contains (c # s) p \<longleftrightarrow> take (length p) (c # s) = p \<or> contains s p"

definition status_of_line :: "string \<Rightarrow> nat option" where
  "status_of_line line =
     (case get (splitn 3 CHR '' '' line) 1 of None \<Rightarrow> None | Some code \<Rightarrow> parse_uint (max_of 16) code)"

datatype resp_framing = Length nat | ChunkedCoding | UntilEof

record head_state =
  hs_length :: "nat option"
  hs_chunked :: bool
  fwd_headers :: "header list"

fun head_lines :: "head_state \<Rightarrow> string list \<Rightarrow> (head_state, resp_abort) result" where
  "head_lines st [] = Ok st"
| "head_lines st (line # ls) =
     (case split_once CHR '':'' line of
        None \<Rightarrow> head_lines st ls
      | Some (n, v) \<Rightarrow>
          let k = to_ascii_lowercase (trim n) in
          if k = ''content-length'' then
            case parse_uint (max_of 64) (trim v) of
              Some len \<Rightarrow> head_lines (st\<lparr>hs_length := Some len\<rparr>) ls
            | None \<Rightarrow> Err BadHead
          else if k = ''transfer-encoding'' \<and> contains (to_ascii_lowercase v) ''chunked''
            then head_lines (st\<lparr>hs_chunked := True\<rparr>) ls
          else if \<not> is_response_hop_by_hop k then head_lines (st\<lparr>fwd_headers := fwd_headers st @ [(k, trim v)]\<rparr>) ls
          else head_lines st ls)"

definition parse_head :: "bytes \<Rightarrow> (nat \<times> resp_framing \<times> header list, resp_abort) result" where
  "parse_head head =
     and_then (ok_or (from_utf8 head) BadHead) (\<lambda>head_str.
       let lines = split_crlf head_str in
       and_then (ok_or (status_of_line (hd lines)) BadHead) (\<lambda>status.
       and_then (head_lines \<lparr>hs_length = None, hs_chunked = False, fwd_headers = []\<rparr> (tl lines)) (\<lambda>st.
         if hs_chunked st then
           if hs_length st \<noteq> None then Err BadHead else Ok (status, ChunkedCoding, fwd_headers st)
         else
           case hs_length st of
             Some n \<Rightarrow> Ok (status, Length n, fwd_headers st @ [(''content-length'', decimal n)])
           | None \<Rightarrow> Ok (status, UntilEof, fwd_headers st))))"

section \<open>The body\<close>

text \<open>\<open>slice::chunks\<close>.\<close>

function chunks :: "nat \<Rightarrow> 'a list \<Rightarrow> 'a list list" where
  "chunks n xs = (if n = 0 \<or> xs = [] then [] else take n xs # chunks n (drop n xs))"
  by pat_completeness auto
termination
  by (relation "measure (\<lambda>(_, xs). length xs)") auto

declare chunks.simps [simp del]

fun emit_slices :: "nat \<Rightarrow> nat \<Rightarrow> resp_channel \<Rightarrow> bytes list \<Rightarrow> (nat, resp_abort) result \<times> resp_channel" where
  "emit_slices cap tot tx [] = (Ok tot, tx)"
| "emit_slices cap tot tx (piece # pieces) =
     (let tot1 = saturating_add 64 tot (length piece) in
      if tot1 > cap then abort tx OverCap
      else io_bind (send tx (Body piece)) (\<lambda>_ tx. emit_slices cap tot1 tx pieces))"

definition emit_data :: "nat \<Rightarrow> nat \<Rightarrow> resp_channel \<Rightarrow> bytes \<Rightarrow> (nat, resp_abort) result \<times> resp_channel" where
  "emit_data cap tot tx payload = emit_slices cap tot tx (chunks H3_RESP_CHUNK_MAX payload)"

function length_body :: "nat \<Rightarrow> nat \<Rightarrow> nat \<Rightarrow> resp_channel \<Rightarrow> segment list \<Rightarrow> (nat, resp_abort) result \<times> resp_channel" where
  "length_body cap remaining tot tx segs =
     (if remaining = 0 then (Ok tot, tx)
      else
        case read (min remaining rbuf_len) segs of
          (Inl _, s) \<Rightarrow> abort tx UpstreamReset
        | (Inr b, s) \<Rightarrow>
            if b = [] then abort tx PrematureEof
            else io_bind (emit_data cap tot tx b) (\<lambda>tot tx. length_body cap (remaining - length b) tot tx s))"
  by pat_completeness auto
termination
  by (relation "measure (\<lambda>(_, _, _, _, segs). backlog segs)") (auto dest: read_backlog [OF sym])

function chunked_loop :: "nat \<Rightarrow> chunk_decoder \<Rightarrow> nat \<Rightarrow> resp_channel \<Rightarrow> segment list
    \<Rightarrow> (nat \<times> header list, resp_abort) result \<times> resp_channel" where
  "chunked_loop cap dec tot tx segs =
     (if cd_complete dec then (Ok (tot, fst (take_trailers dec)), tx)
      else
        case read rbuf_len segs of
          (Inl _, s) \<Rightarrow> abort tx UpstreamReset
        | (Inr b, s) \<Rightarrow>
            if b = [] then abort tx ChunkedDecode
            else
              case decoder_feed dec b [] of
                (Inl e, _) \<Rightarrow> abort tx e
              | (Inr _, dec1, decoded) \<Rightarrow>
                  io_bind (if decoded \<noteq> [] then emit_data cap tot tx decoded else (Ok tot, tx))
                    (\<lambda>tot tx. chunked_loop cap dec1 tot tx s))"
  by pat_completeness auto
termination
  by (relation "measure (\<lambda>(_, _, _, _, segs). backlog segs)") (auto dest: read_backlog [OF sym])

function eof_body :: "nat \<Rightarrow> nat \<Rightarrow> resp_channel \<Rightarrow> segment list \<Rightarrow> (nat, resp_abort) result \<times> resp_channel" where
  "eof_body cap tot tx segs =
     (case read rbuf_len segs of
        (Inl _, s) \<Rightarrow> abort tx UpstreamReset
      | (Inr b, s) \<Rightarrow>
          if b = [] then (Ok tot, tx)
          else io_bind (emit_data cap tot tx b) (\<lambda>tot tx. eof_body cap tot tx s))"
  by pat_completeness auto
termination
  by (relation "measure (\<lambda>(_, _, _, segs). backlog segs)") (auto dest: read_backlog [OF sym])

declare length_body.simps [simp del] chunked_loop.simps [simp del] eof_body.simps [simp del]

definition header_bytes :: "header list \<Rightarrow> nat" where
  "header_bytes hs = sum_list (map (\<lambda>(n, v). length n + length v) hs)"

definition chunked_prefix :: "nat \<Rightarrow> nat \<Rightarrow> resp_channel \<Rightarrow> bytes \<Rightarrow> (chunk_decoder \<times> nat, resp_abort) result \<times> resp_channel" where
  "chunked_prefix cap tot tx body_prefix =
     (if body_prefix \<noteq> [] then
        case decoder_feed chunk_decoder_new body_prefix [] of
          (Inl e, _) \<Rightarrow> abort tx e
        | (Inr _, dec, decoded) \<Rightarrow>
            io_bind (if decoded \<noteq> [] then emit_data cap tot tx decoded else (Ok tot, tx)) (\<lambda>tot tx. (Ok (dec, tot), tx))
      else (Ok (chunk_decoder_new, tot), tx))"

definition send_trailers :: "nat \<Rightarrow> nat \<Rightarrow> resp_channel \<Rightarrow> header list \<Rightarrow> (unit, resp_abort) result \<times> resp_channel" where
  "send_trailers cap tot tx trailers =
     (if trailers \<noteq> [] then
        if saturating_add 64 tot (header_bytes trailers) > cap then abort tx OverCap else send tx (Trailers trailers)
      else (Ok (), tx))"

definition chunked_body :: "nat \<Rightarrow> nat \<Rightarrow> resp_channel \<Rightarrow> bytes \<Rightarrow> segment list \<Rightarrow> (unit, resp_abort) result \<times> resp_channel" where
  "chunked_body cap tot tx body_prefix segs =
     io_bind (chunked_prefix cap tot tx body_prefix) (\<lambda>(dec, tot) tx.
     io_bind (chunked_loop cap dec tot tx segs) (\<lambda>(tot, trailers) tx. send_trailers cap tot tx trailers))"

definition relay_body ::
  "resp_framing \<Rightarrow> nat \<Rightarrow> nat \<Rightarrow> resp_channel \<Rightarrow> bytes \<Rightarrow> segment list \<Rightarrow> (unit, resp_abort) result \<times> resp_channel"
where
  "relay_body framing cap tot tx body_prefix segs =
     (case framing of
        Length n \<Rightarrow>
          if body_prefix \<noteq> [] then
            if length body_prefix > n then abort tx ChunkedDecode
            else io_bind (emit_data cap tot tx body_prefix) (\<lambda>tot tx.
              io_bind (length_body cap (n - length body_prefix) tot tx segs) (\<lambda>_ tx. (Ok (), tx)))
          else io_bind (length_body cap n tot tx segs) (\<lambda>_ tx. (Ok (), tx))
      | ChunkedCoding \<Rightarrow> chunked_body cap tot tx body_prefix segs
      | UntilEof \<Rightarrow>
          io_bind (if body_prefix \<noteq> [] then emit_data cap tot tx body_prefix else (Ok tot, tx)) (\<lambda>tot tx.
            io_bind (eof_body cap tot tx segs) (\<lambda>_ tx. (Ok (), tx))))"

definition stream_h1_response :: "segment list \<Rightarrow> resp_channel \<Rightarrow> nat \<Rightarrow> (unit, resp_abort) result \<times> resp_channel" where
  "stream_h1_response stream tx cap =
     (case read_head [] stream of
        (Inl e, _) \<Rightarrow> abort tx e
      | (Inr (head, body_prefix), segs) \<Rightarrow>
          case parse_head head of
            Inl e \<Rightarrow> abort tx e
          | Inr (status, framing, headers) \<Rightarrow>
              let tot = saturating_add 64 0 (header_bytes headers) in
              if tot > cap then abort tx OverCap
              else
                io_bind (send tx (Head status headers)) (\<lambda>_ tx.
                io_bind (relay_body framing cap tot tx body_prefix segs) (\<lambda>_ tx. send tx RespEnd)))"

section \<open>What is sent\<close>

text \<open>\<open>posts tx p Q\<close>: the call with result \<open>p\<close> sent events over \<open>tx\<close> that satisfy \<open>Q\<close>, and after them, when it
  aborted, a reset, which only a closed channel can suppress.\<close>

definition posts :: "resp_channel \<Rightarrow> ('a, resp_abort) result \<times> resp_channel
    \<Rightarrow> (('a, resp_abort) result \<Rightarrow> resp_event list \<Rightarrow> bool) \<Rightarrow> bool" where
  "posts tx p Q \<longleftrightarrow>
     closes (snd p) = closes tx
     \<and> (\<exists>evs. Q (fst p) evs
          \<and> (case fst p of
               Inr _ \<Rightarrow> sent (snd p) = sent tx @ evs
             | Inl _ \<Rightarrow> sent (snd p) = sent tx @ evs @ [RespReset] \<or> closes tx \<noteq> None \<and> sent (snd p) = sent tx @ evs))"

lemma posts_mono: "posts tx p Q \<Longrightarrow> (\<And>r evs. Q r evs \<Longrightarrow> R r evs) \<Longrightarrow> posts tx p R"
  unfolding posts_def by blast

lemma posts_return: "Q (Ok x) [] \<Longrightarrow> posts tx (Ok x, tx) Q"
  by (simp add: posts_def)

lemma posts_abort: "Q (Err e) [] \<Longrightarrow> posts tx (abort tx e) Q"
  by (auto simp: posts_def abort_def send_def split: option.splits intro!: exI [of _ "[]"])

lemma posts_send: "Q (Ok ()) [ev] \<Longrightarrow> Q (Err ClientGone) [] \<Longrightarrow> posts tx (send tx ev) Q"
  by (auto simp: posts_def send_def split: option.splits intro!: exI [of _ "[]"])

lemma posts_bind:
  assumes "posts tx p Q" and "\<And>e evs. Q (Err e) evs \<Longrightarrow> S (Err e) evs"
    and "\<And>x evs tx. p = (Ok x, tx) \<Longrightarrow> Q (Ok x) evs \<Longrightarrow> posts tx (k x tx) (\<lambda>r evs'. S r (evs @ evs'))"
  shows "posts tx (io_bind p k) S"
proof (cases "fst p")
  case (Inl e)
  then show ?thesis using assms(1,2) by (cases p) (auto simp: posts_def io_bind_def)
next
  case (Inr x)
  then obtain evs where e: "Q (Ok x) evs" "sent (snd p) = sent tx @ evs" "closes (snd p) = closes tx"
    using assms(1) by (auto simp: posts_def)
  have p: "p = (Ok x, snd p)" using Inr by (cases p) simp
  then have "io_bind p k = k x (snd p)" by (cases p) (simp add: io_bind_def)
  with assms(3) [OF p e(1)] e(2,3) show ?thesis
    by (cases "fst (k x (snd p))") (auto simp: posts_def)
qed

text \<open>Body events within the chunk limit and, with what was counted before, within the cap.\<close>

definition body_part :: "nat \<Rightarrow> nat \<Rightarrow> resp_event list \<Rightarrow> bytes \<Rightarrow> bool" where
  "body_part cap tot evs p \<longleftrightarrow>
     (\<exists>bs. evs = map Body bs \<and> (\<forall>b \<in> set bs. b \<noteq> [] \<and> length b \<le> H3_RESP_CHUNK_MAX) \<and> p = concat bs)
     \<and> saturating_add 64 tot (length p) \<le> cap"

definition body_run :: "nat \<Rightarrow> nat \<Rightarrow> (bytes \<Rightarrow> 'a \<Rightarrow> bool) \<Rightarrow> ('a, resp_abort) result \<Rightarrow> resp_event list \<Rightarrow> bool" where
  "body_run cap tot P r evs \<longleftrightarrow> (\<exists>p. body_part cap tot evs p \<and> (\<forall>x. r = Ok x \<longrightarrow> P p x))"

lemma saturating_twice: "saturating_add w (saturating_add w a b) c = saturating_add w a (b + c)"
  by (simp add: saturating_add_def min_def)

lemma body_part_Nil: "tot \<le> cap \<Longrightarrow> body_part cap tot [] []"
  by (simp add: body_part_def saturating_add_def)

lemma body_part_append:
  assumes "body_part cap tot e p" "body_part cap (saturating_add 64 tot (length p)) e' q"
  shows "body_part cap tot (e @ e') (p @ q)"
proof -
  obtain bs cs where "e = map Body bs" "p = concat bs" "\<forall>b \<in> set bs. b \<noteq> [] \<and> length b \<le> H3_RESP_CHUNK_MAX"
    "e' = map Body cs" "q = concat cs" "\<forall>b \<in> set cs. b \<noteq> [] \<and> length b \<le> H3_RESP_CHUNK_MAX"
    using assms by (auto simp: body_part_def)
  moreover have "saturating_add 64 tot (length (p @ q)) \<le> cap" using assms(2) by (simp add: body_part_def saturating_twice)
  ultimately show ?thesis unfolding body_part_def by (intro conjI exI [of _ "bs @ cs"]) auto
qed

lemma body_run_then:
  assumes "body_part cap tot e p" "body_run cap (saturating_add 64 tot (length p)) P r e'"
    and "\<And>q x. P q x \<Longrightarrow> P' (p @ q) x"
  shows "body_run cap tot P' r (e @ e')"
proof -
  obtain q where q: "body_part cap (saturating_add 64 tot (length p)) e' q" "\<forall>x. r = Ok x \<longrightarrow> P q x"
    using assms(2) by (auto simp: body_run_def)
  with body_part_append [OF assms(1) q(1)] assms(3) show ?thesis unfolding body_run_def by (intro exI [of _ "p @ q"]) simp
qed

lemma body_run_Err: "body_run cap tot P (Err e) evs \<Longrightarrow> body_run cap tot P' (Err e) evs"
  by (simp add: body_run_def)

lemma body_run_abort: "tot \<le> cap \<Longrightarrow> body_run cap tot P (Err e) []"
  using body_part_Nil by (auto simp: body_run_def)

lemma chunks_pieces: "0 < n \<Longrightarrow> concat (chunks n xs) = xs \<and> (\<forall>c \<in> set (chunks n xs). c \<noteq> [] \<and> length c \<le> n)"
  by (induction n xs rule: chunks.induct) (subst (1 2) chunks.simps, auto)

lemma emit_slices_posts:
  assumes "tot \<le> cap" "tot \<le> max_of 64" "\<forall>b \<in> set bs. b \<noteq> [] \<and> length b \<le> H3_RESP_CHUNK_MAX"
  shows "posts tx (emit_slices cap tot tx bs) (body_run cap tot (\<lambda>p t. p = concat bs \<and> t = saturating_add 64 tot (length p)))"
  using assms
proof (induction bs arbitrary: tot tx)
  case Nil
  then show ?case using body_part_Nil by (auto simp: body_run_def saturating_add_def intro!: posts_return)
next
  case (Cons b bs)
  let ?t = "saturating_add 64 tot (length b)"
  show ?case
  proof (cases "?t > cap")
    case True
    then show ?thesis using Cons.prems by (auto intro: posts_abort body_run_abort)
  next
    case False
    have one: "body_part cap tot [Body b] b" using Cons.prems False by (auto simp: body_part_def intro!: exI [of _ "[b]"])
    have "posts tx (io_bind (send tx (Body b)) (\<lambda>_ tx. emit_slices cap ?t tx bs)) (body_run cap tot (\<lambda>p t. p = concat (b # bs) \<and> t = saturating_add 64 tot (length p)))"
    proof (rule posts_bind [where Q = "\<lambda>r evs. case r of Inr _ \<Rightarrow> evs = [Body b] | Inl _ \<Rightarrow> evs = []"])
      show "posts tx (send tx (Body b)) (\<lambda>r evs. case r of Inr _ \<Rightarrow> evs = [Body b] | Inl _ \<Rightarrow> evs = [])"
        by (rule posts_send) simp_all
      fix u evs tx' assume "case Ok u :: (unit, resp_abort) result of Inr _ \<Rightarrow> evs = [Body b] | Inl _ \<Rightarrow> evs = []"
      then have ev: "evs = [Body b]" by simp
      have "posts tx' (emit_slices cap ?t tx' bs) (body_run cap ?t (\<lambda>p t. p = concat bs \<and> t = saturating_add 64 ?t (length p)))"
        using Cons False by (intro Cons.IH) (auto simp: saturating_add_def)
      then show "posts tx' (emit_slices cap ?t tx' bs)
          (\<lambda>r evs'. body_run cap tot (\<lambda>p t. p = concat (b # bs) \<and> t = saturating_add 64 tot (length p)) r (evs @ evs'))"
        unfolding ev by (rule posts_mono) (erule body_run_then [OF one], simp add: saturating_twice)
    qed (use Cons.prems in \<open>auto intro: body_run_abort\<close>)
    then show ?thesis using False by simp
  qed
qed

section \<open>What can be read\<close>

text \<open>The bytes before the end of the stream or the first error, and whether it is the end that comes first.\<close>

fun avail :: "segment list \<Rightarrow> bytes" where
  "avail [] = []"
| "avail (ReadError # r) = []"
| "avail (Data b # r) = (if b = [] then [] else b @ avail r)"

fun clean :: "segment list \<Rightarrow> bool" where
  "clean [] \<longleftrightarrow> True"
| "clean (ReadError # r) \<longleftrightarrow> False"
| "clean (Data b # r) \<longleftrightarrow> b = [] \<or> clean r"

lemma read_avail:
  assumes "0 < w"
  shows "read w segs = (Inr b, s) \<Longrightarrow> b \<noteq> [] \<Longrightarrow> avail segs = b @ avail s \<and> (clean segs \<longleftrightarrow> clean s) \<and> length b \<le> w"
    and "read w segs = (Inr [], s) \<Longrightarrow> avail segs = [] \<and> clean segs"
    and "read w segs = (Inl e, s) \<Longrightarrow> avail segs = [] \<and> \<not> clean segs"
  using assms by (induction w segs rule: read.induct) (auto split: if_splits)

lemma read_cases [case_names fail eof more]:
  obtains s where "read w segs = (Inl (), s)" | s where "read w segs = (Inr [], s)"
    | b s where "read w segs = (Inr b, s)" "b \<noteq> []"
  by (cases "read w segs"; cases "fst (read w segs)"; cases "fst (read w segs) = Inr []") auto

section \<open>What a complete response is\<close>

lemma emit_data_posts:
  assumes "tot \<le> cap" "tot \<le> max_of 64"
  shows "posts tx (emit_data cap tot tx payload) (body_run cap tot (\<lambda>p t. p = payload \<and> t = saturating_add 64 tot (length p)))"
proof -
  have "0 < H3_RESP_CHUNK_MAX" by (simp add: H3_RESP_CHUNK_MAX_def)
  note pieces = chunks_pieces [OF this, of payload]
  from emit_slices_posts [OF assms, of "chunks H3_RESP_CHUNK_MAX payload" tx] pieces
  show ?thesis by (simp add: emit_data_def)
qed

text \<open>The body loops have one shape: emit a payload, then go on with what was counted so far.\<close>

lemma emit_then_posts:
  assumes "tot \<le> cap" "tot \<le> max_of 64"
    and "\<And>tx' t. emit_data cap tot tx payload = (Ok t, tx') \<Longrightarrow> t = saturating_add 64 tot (length payload)
      \<Longrightarrow> t \<le> cap \<Longrightarrow> t \<le> max_of 64 \<Longrightarrow> posts tx' (k t tx') (body_run cap t P)"
    and "\<And>q x. P q x \<Longrightarrow> P' (payload @ q) x"
  shows "posts tx (io_bind (emit_data cap tot tx payload) k) (body_run cap tot P')"
proof (rule posts_bind [OF emit_data_posts [OF assms(1,2)]])
  fix t evs tx'
  assume e: "emit_data cap tot tx payload = (Ok t, tx')" and "body_run cap tot (\<lambda>p t. p = payload \<and> t = saturating_add 64 tot (length p)) (Ok t) evs"
  then have b: "body_part cap tot evs payload" "t = saturating_add 64 tot (length payload)" by (auto simp: body_run_def)
  then have "t \<le> cap" "t \<le> max_of 64" by (simp_all add: body_part_def)
  from assms(3) [OF e b(2) this] show "posts tx' (k t tx') (\<lambda>r evs'. body_run cap tot P' r (evs @ evs'))"
    by (rule posts_mono) (use b body_run_then [OF b(1)] assms(4) in blast)
qed (rule body_run_Err)

lemma length_body_posts:
  assumes "tot \<le> cap" "tot \<le> max_of 64"
  shows "posts tx (length_body cap n tot tx segs) (body_run cap tot (\<lambda>p _. n \<le> length (avail segs) \<and> p = take n (avail segs)))"
  using assms
proof (induction cap n tot tx segs rule: length_body.induct)
  case (1 cap n tot tx segs)
  have w: "n \<noteq> 0 \<Longrightarrow> 0 < min n rbuf_len" by (simp add: rbuf_len_def)
  show ?case
  proof (cases "n = 0")
    case True
    then show ?thesis
      using body_part_Nil [OF "1.prems"(1)] "1.prems"(2)
      by (subst length_body.simps) (auto intro!: posts_return simp: body_run_def saturating_add_def)
  next
    case False
    show ?thesis
    proof (cases rule: read_cases [of "min n rbuf_len" segs])
      case (more b s)
      note a = read_avail(1) [OF w [OF False] more]
      have "posts tx (io_bind (emit_data cap tot tx b) (\<lambda>t tx. length_body cap (n - length b) t tx s))
          (body_run cap tot (\<lambda>p _. n \<le> length (avail segs) \<and> p = take n (avail segs)))"
        using "1.prems" a more False
        by (intro emit_then_posts [where P = "\<lambda>p _. n - length b \<le> length (avail s) \<and> p = take (n - length b) (avail s)"]
            "1.IH" [OF False more(1) [symmetric] refl more(2)]) auto
      then show ?thesis using False more by (subst length_body.simps) simp
    qed (use False "1.prems" in \<open>subst length_body.simps, auto intro!: posts_abort body_run_abort\<close>)+
  qed
qed

lemma eof_body_posts:
  assumes "tot \<le> cap" "tot \<le> max_of 64"
  shows "posts tx (eof_body cap tot tx segs) (body_run cap tot (\<lambda>p _. clean segs \<and> p = avail segs))"
  using assms
proof (induction cap tot tx segs rule: eof_body.induct)
  case (1 cap tot tx segs)
  have w: "0 < rbuf_len" by (simp add: rbuf_len_def)
  show ?case
  proof (cases rule: read_cases [of rbuf_len segs])
    case fail
    then show ?thesis using "1.prems" by (subst eof_body.simps) (auto intro!: posts_abort body_run_abort)
  next
    case eof
    then show ?thesis
      using body_part_Nil [OF "1.prems"(1)] "1.prems"(2) read_avail(2) [OF w eof]
      by (subst eof_body.simps) (auto intro!: posts_return simp: body_run_def saturating_add_def)
  next
    case (more b s)
    note a = read_avail(1) [OF w more]
    have "posts tx (io_bind (emit_data cap tot tx b) (\<lambda>t tx. eof_body cap t tx s))
        (body_run cap tot (\<lambda>p _. clean segs \<and> p = avail segs))"
      using "1.prems" a
      by (intro emit_then_posts [where P = "\<lambda>p _. clean s \<and> p = avail s"] "1.IH" [OF more(1) [symmetric] refl more(2)]) auto
    then show ?thesis using more by (subst eof_body.simps) simp
  qed
qed

lemma emit_nothing: "(if d \<noteq> [] then emit_data cap tot tx d else (Ok tot, tx)) = emit_data cap tot tx d"
  by (simp add: emit_data_def chunks.simps)

text \<open>What the decoder still has to find, and what the loop reports: the payload and all the trailers.\<close>

definition decodes :: "chunk_decoder \<Rightarrow> bytes \<Rightarrow> bytes \<Rightarrow> header list \<Rightarrow> bool" where
  "decodes dec m p ts \<longleftrightarrow> (\<exists>us. ts = cd_trailers dec @ us \<and> reads False (position_of dec) (unread dec @ m) p us)"

lemma decodes_feed:
  assumes "wf_decoder dec" "decoder_feed dec x [] = (Ok (), dec1, d)"
  shows "wf_decoder dec1 \<and> (decodes dec1 m q ts \<longrightarrow> decodes dec (x @ m) (d @ q) ts)"
  using feed_sound [OF assms] unfolding decodes_def by fastforce

lemma decodes_complete: "cd_complete dec \<Longrightarrow> decodes dec m [] (cd_trailers dec)"
  by (simp add: decodes_def position_of_def finished)

lemma chunked_loop_posts:
  assumes "tot \<le> cap" "tot \<le> max_of 64" "wf_decoder dec"
  shows "posts tx (chunked_loop cap dec tot tx segs)
    (body_run cap tot (\<lambda>p (t, ts). t = saturating_add 64 tot (length p) \<and> decodes dec (avail segs) p ts))"
  using assms
proof (induction cap dec tot tx segs rule: chunked_loop.induct)
  case (1 cap dec tot tx segs)
  let ?Q = "\<lambda>p (t, ts). t = saturating_add 64 tot (length p) \<and> decodes dec (avail segs) p ts"
  have w: "0 < rbuf_len" by (simp add: rbuf_len_def)
  show ?case
  proof (cases "cd_complete dec")
    case True
    then show ?thesis
      using body_part_Nil [OF "1.prems"(1)] "1.prems"(2) decodes_complete [OF True]
      by (subst chunked_loop.simps) (auto intro!: posts_return exI [of _ "[]"] simp: body_run_def saturating_add_def take_trailers_def)
  next
    case False
    show ?thesis
    proof (cases rule: read_cases [of rbuf_len segs])
      case (more b s)
      note a = read_avail(1) [OF w more]
      obtain r dec1 d where f: "decoder_feed dec b [] = (r, dec1, d)" by (metis prod_cases3)
      show ?thesis
      proof (cases r)
        case (Inl e)
        then show ?thesis
          using False more f "1.prems" by (subst chunked_loop.simps) (auto intro!: posts_abort body_run_abort)
      next
        case (Inr u)
        then have f: "decoder_feed dec b [] = (Ok (), dec1, d)" using f by simp
        note fed = decodes_feed [OF "1.prems"(3) f]
        have "posts tx (io_bind (emit_data cap tot tx d) (\<lambda>t tx. chunked_loop cap dec1 t tx s)) (body_run cap tot ?Q)"
        proof (rule emit_then_posts [OF "1.prems"(1,2)])
          fix tx' t assume t: "emit_data cap tot tx d = (Ok t, tx')" "t \<le> cap" "t \<le> max_of 64"
            "t = saturating_add 64 tot (length d)"
          show "posts tx' (chunked_loop cap dec1 t tx' s)
              (body_run cap t (\<lambda>q (t', ts). t' = saturating_add 64 tot (length d + length q) \<and> decodes dec1 (avail s) q ts))"
            using "1.IH" [OF False more(1) [symmetric] refl more(2) f [symmetric] refl refl] t fed
            by (simp add: emit_nothing saturating_twice)
        qed (use fed a in auto)
        then show ?thesis using False more f by (subst chunked_loop.simps) (simp add: emit_nothing)
      qed
    qed (use False "1.prems" in \<open>subst chunked_loop.simps, auto intro!: posts_abort body_run_abort\<close>)+
  qed
qed

text \<open>What each framing makes of the bytes after the head: the payload and the trailers.\<close>

fun message :: "resp_framing \<Rightarrow> bool \<Rightarrow> bytes \<Rightarrow> bytes \<Rightarrow> header list \<Rightarrow> bool" where
  "message (Length n) eof m p ts \<longleftrightarrow> n \<le> length m \<and> p = take n m \<and> ts = []"
| "message ChunkedCoding eof m p ts \<longleftrightarrow> reads False AtSize m p ts"
| "message UntilEof eof m p ts \<longleftrightarrow> eof \<and> p = m \<and> ts = []"

definition trailer_events :: "header list \<Rightarrow> resp_event list" where
  "trailer_events ts = (if ts = [] then [] else [Trailers ts])"

definition relay_run :: "nat \<Rightarrow> nat \<Rightarrow> (bytes \<Rightarrow> header list \<Rightarrow> bool) \<Rightarrow> (unit, resp_abort) result \<Rightarrow> resp_event list \<Rightarrow> bool" where
  "relay_run cap tot P r evs \<longleftrightarrow>
     (\<exists>e p ts. body_part cap tot e p \<and> evs = e @ trailer_events ts
        \<and> saturating_add 64 tot (length p + header_bytes ts) \<le> cap \<and> (r = Ok () \<longrightarrow> P p ts))"

lemma relay_run_trailers:
  "body_part cap tot e p \<Longrightarrow> saturating_add 64 (saturating_add 64 tot (length p)) (header_bytes ts) \<le> cap
    \<Longrightarrow> (r = Ok () \<Longrightarrow> P p ts) \<Longrightarrow> relay_run cap tot P r (e @ trailer_events ts)"
  unfolding relay_run_def saturating_twice by blast

lemma relay_run_part: "body_part cap tot e p \<Longrightarrow> (r = Ok () \<Longrightarrow> P p []) \<Longrightarrow> relay_run cap tot P r e"
  using relay_run_trailers [of cap tot e p "[]" r P]
  by (simp add: trailer_events_def header_bytes_def body_part_def saturating_twice)

lemma relay_run_Err: "body_run cap tot P (Err e) evs \<Longrightarrow> relay_run cap tot P' (Err e) evs"
  by (auto simp: body_run_def intro: relay_run_part)

lemma io_bind_assoc: "io_bind p (\<lambda>x s. io_bind (f x s) k) = io_bind (io_bind p f) k"
  by (auto simp: io_bind_def split: prod.split sum.split)

lemma posts_done:
  assumes "posts tx p (body_run cap tot (\<lambda>p _. P p []))"
  shows "posts tx (io_bind p (\<lambda>_ tx. (Ok (), tx))) (relay_run cap tot P)"
  by (rule posts_bind [OF assms]) (auto intro!: posts_return intro: relay_run_part simp: body_run_def)

lemma decodes_new: "decodes chunk_decoder_new m p ts \<longleftrightarrow> reads False AtSize m p ts"
  by (simp add: decodes_def position_new unread_new) (simp add: chunk_decoder_new_def)

lemma chunked_prefix_posts:
  assumes "tot \<le> cap" "tot \<le> max_of 64"
  shows "posts tx (chunked_prefix cap tot tx pre)
    (body_run cap tot (\<lambda>q (dec, t). wf_decoder dec \<and> t = saturating_add 64 tot (length q)
      \<and> (\<forall>m p ts. decodes dec m p ts \<longrightarrow> reads False AtSize (pre @ m) (q @ p) ts)))"
    (is "posts tx _ ?F")
proof (cases "pre = []")
  case True
  then show ?thesis
    using body_part_Nil [OF assms(1)] assms(2) wf_new
    by (auto intro!: posts_return exI [of _ "[]"] simp: chunked_prefix_def body_run_def saturating_add_def decodes_new)
next
  case False
  obtain r dec d where f: "decoder_feed chunk_decoder_new pre [] = (r, dec, d)" by (metis prod_cases3)
  show ?thesis
  proof (cases r)
    case (Inl e)
    with False f assms show ?thesis by (auto intro!: posts_abort body_run_abort simp: chunked_prefix_def)
  next
    case (Inr u)
    with f have f: "decoder_feed chunk_decoder_new pre [] = (Ok (), dec, d)" by simp
    have "posts tx (io_bind (emit_data cap tot tx d) (\<lambda>t tx. (Ok (dec, t), tx))) ?F"
    proof (rule emit_then_posts [OF assms])
      fix tx' t assume t: "t = saturating_add 64 tot (length d)" "t \<le> cap" "t \<le> max_of 64"
      show "posts tx' (Ok (dec, t), tx') (body_run cap t (\<lambda>q x. q = [] \<and> x = (dec, saturating_add 64 tot (length d))))"
        using body_part_Nil [OF t(2)] t(1) by (auto intro!: posts_return simp: body_run_def)
    qed (use decodes_feed [OF wf_new f] decodes_new in auto)
    then show ?thesis using False f by (simp add: emit_nothing chunked_prefix_def)
  qed
qed

lemma send_trailers_posts:
  assumes "t \<le> cap"
  shows "posts tx (send_trailers cap t tx ts)
    (\<lambda>r evs. evs = [] \<and> (r = Ok () \<longrightarrow> ts = []) \<or> evs = trailer_events ts \<and> saturating_add 64 t (header_bytes ts) \<le> cap)"
  using assms by (auto simp: send_trailers_def trailer_events_def intro!: posts_abort posts_send posts_return)

lemma chunked_rest_posts:
  assumes "body_part cap tot evs q" "wf_decoder dec" "t = saturating_add 64 tot (length q)"
    and "\<And>p ts. decodes dec (avail segs) p ts \<Longrightarrow> R (q @ p) ts"
  shows "posts tx (io_bind (chunked_loop cap dec t tx segs) (\<lambda>(t, ts) tx. send_trailers cap t tx ts))
    (\<lambda>r e. relay_run cap tot R r (evs @ e))"
proof -
  have t: "t \<le> cap" "t \<le> max_of 64" using assms(1,3) by (simp_all add: body_part_def)
  let ?L = "body_run cap t (\<lambda>p (t', ts). t' = saturating_add 64 t (length p) \<and> decodes dec (avail segs) p ts)"
  have part: "body_part cap tot (evs @ e) (q @ p)" if "body_part cap t e p" for e p
    using body_part_append [OF assms(1)] that assms(3) by simp
  show ?thesis
  proof (rule posts_bind [OF chunked_loop_posts [OF t assms(2)]])
    fix e evs' assume "?L (Err e) evs'"
    then show "relay_run cap tot R (Err e) (evs @ evs')" by (auto simp: body_run_def intro: relay_run_part part)
  next
    fix y evs' tx assume "?L (Ok y) evs'"
    then obtain p ts where y: "y = (saturating_add 64 t (length p), ts)" "body_part cap t evs' p" "decodes dec (avail segs) p ts"
      by (auto simp: body_run_def)
    have "saturating_add 64 t (length p) \<le> cap" using y(2) by (simp add: body_part_def)
    from send_trailers_posts [OF this, of tx ts]
    show "posts tx ((case y of (t, ts) \<Rightarrow> \<lambda>tx. send_trailers cap t tx ts) tx) (\<lambda>r e. relay_run cap tot R r (evs @ evs' @ e))"
      unfolding y(1) prod.case
    proof (rule posts_mono)
      fix r :: "(unit, resp_abort) result" and e assume "e = [] \<and> (r = Ok () \<longrightarrow> ts = [])
        \<or> e = trailer_events ts \<and> saturating_add 64 (saturating_add 64 t (length p)) (header_bytes ts) \<le> cap"
      then show "relay_run cap tot R r (evs @ evs' @ e)"
        using relay_run_part [OF part [OF y(2)], of r R] relay_run_trailers [OF part [OF y(2)], of ts r R] assms(3,4) y(3)
        by (auto simp: saturating_twice add.assoc)
    qed
  qed
qed

lemma chunked_body_posts:
  assumes "tot \<le> cap" "tot \<le> max_of 64"
  shows "posts tx (chunked_body cap tot tx pre segs) (relay_run cap tot (reads False AtSize (pre @ avail segs)))"
  unfolding chunked_body_def
  by (rule posts_bind [OF chunked_prefix_posts [OF assms]])
    (auto simp: body_run_def intro: relay_run_part intro!: chunked_rest_posts)

lemma relay_body_posts:
  assumes "tot \<le> cap" "tot \<le> max_of 64"
  shows "posts tx (relay_body framing cap tot tx pre segs) (relay_run cap tot (message framing (clean segs) (pre @ avail segs)))"
proof (cases framing)
  case (Length n)
  have direct: "posts tx (io_bind (length_body cap n tot tx segs) (\<lambda>_ tx. (Ok (), tx)))
      (relay_run cap tot (message (Length n) (clean segs) (avail segs)))"
    by (rule posts_done, rule posts_mono [OF length_body_posts [OF assms]]) (auto simp: body_run_def)
  have after: "posts tx (io_bind (emit_data cap tot tx pre) (\<lambda>t tx.
        io_bind (length_body cap (n - length pre) t tx segs) (\<lambda>_ tx. (Ok (), tx))))
      (relay_run cap tot (message (Length n) (clean segs) (pre @ avail segs)))" if "length pre \<le> n"
    unfolding io_bind_assoc
    by (rule posts_done, rule emit_then_posts [OF assms length_body_posts]) (use that in auto)
  show ?thesis
    using direct after assms by (cases "pre = []") (auto simp: relay_body_def Length not_less intro!: posts_abort relay_run_part body_part_Nil)
next
  case ChunkedCoding
  moreover have "message ChunkedCoding e m = reads False AtSize m" for e m by (intro ext) simp
  ultimately show ?thesis using chunked_body_posts [OF assms] by (simp add: relay_body_def)
next
  case UntilEof
  have "posts tx (io_bind (emit_data cap tot tx pre) (\<lambda>t tx. io_bind (eof_body cap t tx segs) (\<lambda>_ tx. (Ok (), tx))))
      (relay_run cap tot (message UntilEof (clean segs) (pre @ avail segs)))"
    unfolding io_bind_assoc by (rule posts_done, rule emit_then_posts [OF assms eof_body_posts]) auto
  then show ?thesis using UntilEof by (simp add: relay_body_def emit_nothing)
qed

text \<open>The head: what is split off is what was read, up to the first blank line.\<close>

lemma header_sep_split:
  assumes "find_header_sep buf = Some p"
  shows "buf = take p buf @ [CR, LF, CR, LF] @ drop (p + 4) buf"
proof -
  have "get_range buf p (p + 4) = Some [CR, LF, CR, LF]" using assms by (auto simp: find_header_sep_def find_Some_iff)
  then have "take 4 (drop p buf) = [CR, LF, CR, LF]" by (auto simp: get_range_def split: if_splits)
  moreover have "drop p buf = take 4 (drop p buf) @ drop (p + 4) buf" by (metis append_take_drop_id drop_drop add.commute)
  ultimately show ?thesis by (metis append_take_drop_id)
qed

lemma read_head_avail:
  assumes "read_head h segs = (Inr (head, pre), s)"
  shows "h @ avail segs = head @ [CR, LF, CR, LF] @ pre @ avail s \<and> (clean segs \<longleftrightarrow> clean s)
    \<and> find_header_sep (head @ [CR, LF, CR, LF] @ pre) = Some (length head)"
  using assms
proof (induction h segs rule: read_head.induct)
  case (1 h segs)
  have w: "0 < rbuf_len" by (simp add: rbuf_len_def)
  show ?case
  proof (cases "find_header_sep h")
    case (Some p)
    then have "head = take p h" "pre = drop (p + 4) h" "s = segs" using "1.prems" by (simp_all add: read_head.simps [of h])
    moreover have "p < length h" using Some by (auto simp: find_header_sep_def find_Some_iff)
    ultimately show ?thesis using header_sep_split [OF Some] Some by simp
  next
    case None
    then have cap: "\<not> length h > HEAD_CAP" using "1.prems" by (auto simp: read_head.simps [of h])
    show ?thesis
    proof (cases rule: read_cases [of rbuf_len segs])
      case (more b s')
      then have "read_head (h @ b) s' = (Inr (head, pre), s)" using None cap "1.prems" by (simp add: read_head.simps [of h])
      with "1.IH" [OF None cap more(1) [symmetric] refl more(2)] read_avail(1) [OF w more] show ?thesis by simp
    qed (use None cap "1.prems" in \<open>simp_all add: read_head.simps [of h]\<close>)
  qed
qed

text \<open>The whole response: the head event, then the body.\<close>

definition response_run :: "segment list \<Rightarrow> nat \<Rightarrow> (unit, resp_abort) result \<Rightarrow> resp_event list \<Rightarrow> bool" where
  "response_run segs cap r evs \<longleftrightarrow>
     r \<noteq> Ok () \<and> evs = []
     \<or> (\<exists>head pre s status framing hs bs ts.
          avail segs = head @ [CR, LF, CR, LF] @ pre @ avail s \<and> (clean segs \<longleftrightarrow> clean s)
          \<and> find_header_sep (head @ [CR, LF, CR, LF] @ pre) = Some (length head)
          \<and> parse_head head = Ok (status, framing, hs)
          \<and> (\<forall>b \<in> set bs. b \<noteq> [] \<and> length b \<le> H3_RESP_CHUNK_MAX)
          \<and> saturating_add 64 0 (header_bytes hs + length (concat bs) + header_bytes ts) \<le> cap
          \<and> evs = Head status hs # map Body bs @ trailer_events ts @ (if r = Ok () then [RespEnd] else [])
          \<and> (r = Ok () \<longrightarrow> message framing (clean segs) (pre @ avail s) (concat bs) ts))"

lemma relay_response:
  assumes "avail segs = head @ [CR, LF, CR, LF] @ pre @ avail s \<and> (clean segs \<longleftrightarrow> clean s)
      \<and> find_header_sep (head @ [CR, LF, CR, LF] @ pre) = Some (length head)"
    and "parse_head head = Ok (status, framing, hs)"
    and "relay_run cap (saturating_add 64 0 (header_bytes hs)) (message framing (clean s) (pre @ avail s)) r evs"
    and "r' = Ok () \<Longrightarrow> r = Ok ()"
  shows "response_run segs cap r' (Head status hs # evs @ (if r' = Ok () then [RespEnd] else []))"
proof -
  from assms(3) obtain bs ts where b: "\<forall>b \<in> set bs. b \<noteq> [] \<and> length b \<le> H3_RESP_CHUNK_MAX" "evs = map Body bs @ trailer_events ts"
    and t: "saturating_add 64 0 (header_bytes hs + length (concat bs) + header_bytes ts) \<le> cap"
    and m: "r = Ok () \<longrightarrow> message framing (clean s) (pre @ avail s) (concat bs) ts"
    by (auto simp: relay_run_def body_part_def saturating_twice add.assoc)
  show ?thesis
    unfolding response_run_def
    by (rule disjI2, rule exI [of _ head], rule exI [of _ pre], rule exI [of _ s], rule exI [of _ status],
        rule exI [of _ framing], rule exI [of _ hs], rule exI [of _ bs], rule exI [of _ ts])
      (use assms(1,2,4) b t m in simp)
qed

lemma after_head_posts:
  assumes "avail segs = head @ [CR, LF, CR, LF] @ pre @ avail s \<and> (clean segs \<longleftrightarrow> clean s)
      \<and> find_header_sep (head @ [CR, LF, CR, LF] @ pre) = Some (length head)"
    and "parse_head head = Ok (status, framing, hs)" and "saturating_add 64 0 (header_bytes hs) \<le> cap"
  shows "posts tx (io_bind (send tx (Head status hs)) (\<lambda>_ tx.
      io_bind (relay_body framing cap (saturating_add 64 0 (header_bytes hs)) tx pre s) (\<lambda>_ tx. send tx RespEnd)))
    (response_run segs cap)"
proof (rule posts_bind [where Q = "\<lambda>r evs. case r of Inr _ \<Rightarrow> evs = [Head status hs] | Inl _ \<Rightarrow> evs = []"])
  show "posts tx (send tx (Head status hs)) (\<lambda>r evs. case r of Inr _ \<Rightarrow> evs = [Head status hs] | Inl _ \<Rightarrow> evs = [])"
    by (rule posts_send) simp_all
  fix u evs tx assume "case Ok u :: (unit, resp_abort) result of Inr _ \<Rightarrow> evs = [Head status hs] | Inl _ \<Rightarrow> evs = []"
  then have ev: "evs = [Head status hs]" by simp
  note run = relay_response [OF assms(1,2)]
  show "posts tx (io_bind (relay_body framing cap (saturating_add 64 0 (header_bytes hs)) tx pre s) (\<lambda>_ tx. send tx RespEnd))
      (\<lambda>r evs'. response_run segs cap r (evs @ evs'))"
    unfolding ev
    by (rule posts_bind [OF relay_body_posts [OF assms(3) saturating_add_le]])
      (use run [where r' = "Err _"] run [where r' = "Ok ()"] in \<open>fastforce intro!: posts_send\<close>)+
qed (simp_all add: response_run_def)

lemma response_posts: "posts tx (stream_h1_response segs tx cap) (response_run segs cap)"
proof -
  obtain r s where rh: "read_head [] segs = (r, s)" by fastforce
  have stop: "posts tx (abort tx e) (response_run segs cap)" for e
    by (rule posts_abort) (simp add: response_run_def)
  show ?thesis
  proof (cases r)
    case (Inl e)
    then show ?thesis using rh stop by (simp add: stream_h1_response_def)
  next
    case (Inr hp)
    then obtain head pre where hp: "read_head [] segs = (Inr (head, pre), s)" using rh by (cases hp) auto
    note a = read_head_avail [OF hp]
    show ?thesis
    proof (cases "parse_head head")
      case (Inl e)
      then show ?thesis using hp stop by (simp add: stream_h1_response_def)
    next
      case ph: (Inr x)
      then obtain status framing hs where x: "parse_head head = Inr (status, framing, hs)" by (cases x) auto
      let ?t = "saturating_add 64 0 (header_bytes hs)"
      show ?thesis
      proof (cases "?t > cap")
        case True
        then show ?thesis using hp x stop by (simp add: stream_h1_response_def)
      next
        case False
        have "posts tx (io_bind (send tx (Head status hs)) (\<lambda>_ tx.
            io_bind (relay_body framing cap ?t tx pre s) (\<lambda>_ tx. send tx RespEnd))) (response_run segs cap)"
          using after_head_posts [OF a [unfolded append_Nil] x] False by simp
        then show ?thesis using hp x False by (simp add: stream_h1_response_def Let_def)
      qed
    qed
  qed
qed

section \<open>The order of events\<close>

text \<open>The documented order, as a recogniser: one head, body chunks within the limit, at most one trailer event
  that is not empty, and the end exactly when \<open>fin\<close> holds.\<close>

fun after_head :: "bool \<Rightarrow> resp_event list \<Rightarrow> bool" where
  "after_head fin [] \<longleftrightarrow> \<not> fin"
| "after_head fin (Body b # evs) \<longleftrightarrow> b \<noteq> [] \<and> length b \<le> H3_RESP_CHUNK_MAX \<and> after_head fin evs"
| "after_head fin (Trailers ts # evs) \<longleftrightarrow> ts \<noteq> [] \<and> evs = (if fin then [RespEnd] else [])"
| "after_head fin (RespEnd # evs) \<longleftrightarrow> fin \<and> evs = []"
| "after_head fin (ev # evs) \<longleftrightarrow> False"

fun response_shape :: "bool \<Rightarrow> resp_event list \<Rightarrow> bool" where
  "response_shape fin (Head status hs # evs) \<longleftrightarrow> after_head fin evs"
| "response_shape fin evs \<longleftrightarrow> \<not> fin \<and> evs = []"

lemma after_head_shape:
  "\<forall>b \<in> set bs. b \<noteq> [] \<and> length b \<le> H3_RESP_CHUNK_MAX
    \<Longrightarrow> after_head fin (map Body bs @ trailer_events ts @ (if fin then [RespEnd] else []))"
  by (induction bs) (auto simp: trailer_events_def)

lemma response_run_shape:
  assumes "response_run segs cap r evs"
  shows "response_shape (r = Ok ()) evs"
  using assms after_head_shape [of _ "r = Ok ()"] by (auto simp: response_run_def)

text \<open>C38. The events of a response always have the documented order, whatever the upstream sends, however its
  bytes are cut, and wherever the client closes the channel: when the relay succeeds, exactly one head, chunks
  that are not empty and have at most 8 KiB, at most one trailer event, and the end; when it aborts, a start of
  such a sequence without the end, followed by a reset that only a closed channel can suppress.\<close>

theorem response_protocol:
  "case stream_h1_response segs \<lparr>sent = [], closes = c\<rparr> cap of
     (Inr _, tx) \<Rightarrow> response_shape True (sent tx)
   | (Inl _, tx) \<Rightarrow>
       (\<exists>evs. response_shape False evs \<and> (sent tx = evs @ [RespReset] \<or> (\<exists>k. c = Some k \<and> sent tx = evs)))"
proof -
  let ?tx = "\<lparr>sent = [], closes = c\<rparr>"
  obtain r tx where r: "stream_h1_response segs ?tx cap = (r, tx)" by fastforce
  from response_posts [of ?tx segs cap] r obtain evs where e: "response_run segs cap r evs"
    "case r of Inr _ \<Rightarrow> sent tx = evs | Inl _ \<Rightarrow> sent tx = evs @ [RespReset] \<or> c \<noteq> None \<and> sent tx = evs"
    by (cases r) (auto simp: posts_def)
  from response_run_shape [OF e(1)] e(2) r show ?thesis by (cases r) auto
qed

section \<open>Complete responses\<close>

lemma header_sep_append:
  assumes "find_header_sep x = Some p"
  shows "find_header_sep (x @ y) = Some p"
proof -
  have p: "p < length x" "get_range x p (p + 4) = Some [CR, LF, CR, LF]"
    "\<forall>j < p. get_range x j (j + 4) \<noteq> Some [CR, LF, CR, LF]"
    using assms by (auto simp: find_header_sep_def find_upt)
  have eq: "get_range (x @ y) j (j + 4) = get_range x j (j + 4)" if "j \<le> p" for j
    using that p(2) by (auto simp: get_range_def split: if_splits)
  show ?thesis using p eq by (auto simp: find_header_sep_def find_upt)
qed

text \<open>The messages of a well-behaved upstream, and the byte strings from which the decoder can read no other: if the
  head says that the message is chunked, then its sizes are plain hexadecimal numbers, its trailers are printable
  end-to-end fields, and what follows the last chunk fits the limit of the trailer section.\<close>

fun conforming :: "resp_framing \<Rightarrow> bool \<Rightarrow> bytes \<Rightarrow> bytes \<Rightarrow> header list \<Rightarrow> bool" where
  "conforming (Length n) eof m p ts \<longleftrightarrow> n \<le> length m \<and> p = take n m \<and> ts = []"
| "conforming ChunkedCoding eof m p ts \<longleftrightarrow> reads True AtSize m p ts"
| "conforming UntilEof eof m p ts \<longleftrightarrow> eof \<and> p = m \<and> ts = []"

definition regular_response :: "bytes \<Rightarrow> bool" where
  "regular_response x \<longleftrightarrow>
     (\<forall>n status hs p ts. find_header_sep x = Some n \<longrightarrow> parse_head (take n x) = Ok (status, ChunkedCoding, hs)
        \<longrightarrow> reads False AtSize (drop (n + 4) x) p ts \<longrightarrow> reads True AtSize (drop (n + 4) x) p ts)"

lemma regular_conforming:
  assumes "regular_response (head @ [CR, LF, CR, LF] @ rest)"
    and "find_header_sep (head @ [CR, LF, CR, LF] @ rest) = Some (length head)"
    and "parse_head head = Ok (status, framing, hs)" and "message framing eof rest p ts"
  shows "conforming framing eof rest p ts"
proof (cases framing)
  case ChunkedCoding
  with assms show ?thesis unfolding regular_response_def by simp
qed (use assms(4) in simp_all)

text \<open>C39. A response is reported complete only when it is: after a success the bytes of a regular upstream (one whose
  chunked messages, if it sends any, have plain sizes, no hop-by-hop trailers and a trailer section within the
  limit) are a head that ends at the first blank line, is well-formed and decides the framing, followed by the
  whole message of that framing (as many bytes as declared, or a chunked message of RFC 9112 up to its last line,
  or everything before an orderly end of the stream), and what the client received is that head, that payload,
  those trailers and the end, within the cap.\<close>

theorem response_exact:
  assumes "stream_h1_response segs \<lparr>sent = [], closes = c\<rparr> cap = (Ok (), tx)" and "cap < max_of 64"
    and "regular_response (avail segs)"
  shows "\<exists>head rest status framing hs bs ts.
      avail segs = head @ [CR, LF, CR, LF] @ rest \<and> find_header_sep (avail segs) = Some (length head)
    \<and> parse_head head = Ok (status, framing, hs) \<and> conforming framing (clean segs) rest (concat bs) ts
    \<and> sent tx = Head status hs # map Body bs @ trailer_events ts @ [RespEnd]
    \<and> header_bytes hs + length (concat bs) + header_bytes ts \<le> cap"
proof -
  from response_posts [of "\<lparr>sent = [], closes = c\<rparr>" segs cap] assms(1) have "response_run segs cap (Ok ()) (sent tx)"
    by (auto simp: posts_def)
  then obtain head pre s status framing hs bs ts where
    a: "avail segs = head @ [CR, LF, CR, LF] @ pre @ avail s" "find_header_sep (head @ [CR, LF, CR, LF] @ pre) = Some (length head)"
    and h: "parse_head head = Ok (status, framing, hs)" and m: "message framing (clean segs) (pre @ avail s) (concat bs) ts"
    and "sent tx = Head status hs # map Body bs @ trailer_events ts @ [RespEnd]"
    and t: "saturating_add 64 0 (header_bytes hs + length (concat bs) + header_bytes ts) \<le> cap"
    by (auto simp: response_run_def)
  moreover have sep: "find_header_sep (avail segs) = Some (length head)"
    using header_sep_append [OF a(2), of "avail s"] a(1) by simp
  moreover have "conforming framing (clean segs) (pre @ avail s) (concat bs) ts"
    by (rule regular_conforming [OF assms(3) [unfolded a(1)] sep [unfolded a(1)] h m])
  moreover have "header_bytes hs + length (concat bs) + header_bytes ts \<le> cap"
    using saturating_add_bound [OF t assms(2)] by simp
  ultimately show ?thesis by blast
qed

section \<open>Complete responses are delivered\<close>

text \<open>Over an open channel, and within the cap, every step succeeds.\<close>

definition succeeds :: "('a, resp_abort) result \<times> resp_channel \<Rightarrow> 'a \<Rightarrow> bool" where
  "succeeds q x \<longleftrightarrow> fst q = Ok x \<and> closes (snd q) = None"

lemma succeeds_return: "closes tx = None \<Longrightarrow> succeeds (Ok x, tx) x"
  by (simp add: succeeds_def)

lemma succeeds_send: "closes tx = None \<Longrightarrow> succeeds (send tx ev) ()"
  by (simp add: succeeds_def send_def)

lemma succeeds_bind: "succeeds q x \<Longrightarrow> (\<And>tx. q = (Ok x, tx) \<Longrightarrow> closes tx = None \<Longrightarrow> succeeds (k x tx) y) \<Longrightarrow> succeeds (io_bind q k) y"
  by (cases q) (auto simp: succeeds_def io_bind_def)

lemma emit_slices_succeeds:
  "closes tx = None \<Longrightarrow> tot + length (concat bs) \<le> cap \<Longrightarrow> cap < max_of 64
    \<Longrightarrow> succeeds (emit_slices cap tot tx bs) (tot + length (concat bs))"
proof (induction bs arbitrary: tot tx)
  case (Cons b bs)
  then have "saturating_add 64 tot (length b) = tot + length b" by (simp add: saturating_add_def)
  moreover have "succeeds (io_bind (send tx (Body b)) (\<lambda>_ tx. emit_slices cap (tot + length b) tx bs)) (tot + length (concat (b # bs)))"
    using Cons.prems Cons.IH [of _ "tot + length b"] by (intro succeeds_bind [OF succeeds_send]) (auto simp: add.assoc)
  ultimately show ?case using Cons.prems by simp
qed (simp add: succeeds_return)

lemma emit_data_succeeds:
  assumes "closes tx = None" "tot + length payload \<le> cap" "cap < max_of 64"
  shows "succeeds (emit_data cap tot tx payload) (tot + length payload)"
proof -
  have "concat (chunks H3_RESP_CHUNK_MAX payload) = payload"
    using chunks_pieces [of H3_RESP_CHUNK_MAX payload] by (simp add: H3_RESP_CHUNK_MAX_def)
  with emit_slices_succeeds [OF assms(1) _ assms(3), of tot "chunks H3_RESP_CHUNK_MAX payload"] assms(2)
  show ?thesis by (simp add: emit_data_def)
qed

lemma length_body_succeeds:
  "closes tx = None \<Longrightarrow> n \<le> length (avail segs) \<Longrightarrow> tot + n \<le> cap \<Longrightarrow> cap < max_of 64
    \<Longrightarrow> succeeds (length_body cap n tot tx segs) (tot + n)"
proof (induction cap n tot tx segs rule: length_body.induct)
  case (1 cap n tot tx segs)
  show ?case
  proof (cases "n = 0")
    case True
    then show ?thesis using "1.prems" by (subst length_body.simps) (simp add: succeeds_return)
  next
    case False
    then have w: "0 < min n rbuf_len" by (simp add: rbuf_len_def)
    then obtain b s where more: "read (min n rbuf_len) segs = (Inr b, s)" "b \<noteq> []"
      using "1.prems"(2) False read_avail(2,3) [OF w, of segs] by (cases rule: read_cases [of "min n rbuf_len" segs]) fastforce+
    note a = read_avail(1) [OF w more]
    have "succeeds (io_bind (emit_data cap tot tx b) (\<lambda>t tx. length_body cap (n - length b) t tx s)) (tot + n)"
    proof (rule succeeds_bind [OF emit_data_succeeds])
      fix tx' assume "emit_data cap tot tx b = (Ok (tot + length b), tx')" "closes tx' = None"
      then show "succeeds (length_body cap (n - length b) (tot + length b) tx' s) (tot + n)"
        using "1.IH" [OF False more(1) [symmetric] refl more(2), of "tot + length b" tx'] a "1.prems" by simp
    qed (use "1.prems" a in auto)
    then show ?thesis using False more by (subst length_body.simps) simp
  qed
qed

lemma eof_body_succeeds:
  "closes tx = None \<Longrightarrow> clean segs \<Longrightarrow> tot + length (avail segs) \<le> cap \<Longrightarrow> cap < max_of 64
    \<Longrightarrow> succeeds (eof_body cap tot tx segs) (tot + length (avail segs))"
proof (induction cap tot tx segs rule: eof_body.induct)
  case (1 cap tot tx segs)
  have w: "0 < rbuf_len" by (simp add: rbuf_len_def)
  show ?case
  proof (cases rule: read_cases [of rbuf_len segs])
    case fail
    then show ?thesis using read_avail(3) [OF w fail] "1.prems" by simp
  next
    case eof
    then show ?thesis using read_avail(2) [OF w eof] "1.prems" by (subst eof_body.simps) (simp add: succeeds_return)
  next
    case (more b s)
    note a = read_avail(1) [OF w more]
    have "succeeds (io_bind (emit_data cap tot tx b) (\<lambda>t tx. eof_body cap t tx s)) (tot + length (avail segs))"
    proof (rule succeeds_bind [OF emit_data_succeeds])
      fix tx' assume "emit_data cap tot tx b = (Ok (tot + length b), tx')" "closes tx' = None"
      then show "succeeds (eof_body cap (tot + length b) tx' s) (tot + length (avail segs))"
        using "1.IH" [OF more(1) [symmetric] refl more(2), of "tot + length b" tx'] a "1.prems" by (simp add: add.assoc)
    qed (use "1.prems" a in auto)
    then show ?thesis using more by (subst eof_body.simps) simp
  qed
qed

lemma chunked_loop_succeeds:
  "closes tx = None \<Longrightarrow> wf_decoder dec \<Longrightarrow> reads True (position_of dec) (unread dec @ avail segs) p us
    \<Longrightarrow> (avail segs = [] \<longrightarrow> cd_complete dec) \<Longrightarrow> tot + length p \<le> cap \<Longrightarrow> cap < max_of 64
    \<Longrightarrow> succeeds (chunked_loop cap dec tot tx segs) (tot + length p, cd_trailers dec @ us)"
proof (induction cap dec tot tx segs arbitrary: p us rule: chunked_loop.induct)
  case (1 cap dec tot tx segs)
  have w: "0 < rbuf_len" by (simp add: rbuf_len_def)
  show ?case
  proof (cases "cd_complete dec")
    case True
    then have "p = []" "us = []" using "1.prems"(3) by (auto simp: position_of_def elim: reads_FinishedE)
    then show ?thesis using True "1.prems" by (subst chunked_loop.simps) (simp add: succeeds_return take_trailers_def)
  next
    case False
    then obtain b s where more: "read rbuf_len segs = (Inr b, s)" "b \<noteq> []"
      using "1.prems"(4) read_avail(2,3) [OF w, of segs] by (cases rule: read_cases [of rbuf_len segs]) fastforce+
    note a = read_avail(1) [OF w more]
    obtain dec1 d p1 vs us1 where f: "decoder_feed dec b [] = (Ok (), dec1, d)" "p = d @ p1" "us = vs @ us1"
      "cd_trailers dec1 = cd_trailers dec @ vs" "wf_decoder dec1" "reads True (position_of dec1) (unread dec1 @ avail s) p1 us1"
      "avail s = [] \<longrightarrow> cd_complete dec1"
      using feed_keeps [OF "1.prems"(2), of b "avail s" p us "[]"] "1.prems"(3) a by auto
    have "succeeds (io_bind (emit_data cap tot tx d) (\<lambda>t tx. chunked_loop cap dec1 t tx s)) (tot + length p, cd_trailers dec @ us)"
    proof (rule succeeds_bind [OF emit_data_succeeds])
      fix tx' assume "emit_data cap tot tx d = (Ok (tot + length d), tx')" "closes tx' = None"
      then show "succeeds (chunked_loop cap dec1 (tot + length d) tx' s) (tot + length p, cd_trailers dec @ us)"
        using "1.IH" [OF False more(1) [symmetric] refl more(2) f(1) [symmetric] refl refl, of "tot + length d" tx' p1 us1] f "1.prems"
        by (simp add: emit_nothing add.assoc)
    qed (use "1.prems" f in auto)
    then show ?thesis using False more f(1) by (subst chunked_loop.simps) (simp add: emit_nothing)
  qed
qed

lemma chunked_prefix_succeeds:
  assumes "closes tx = None" "reads True AtSize (pre @ m) p ts" "tot + length p \<le> cap" "cap < max_of 64"
  shows "\<exists>dec q p1 us. succeeds (chunked_prefix cap tot tx pre) (dec, tot + length q) \<and> p = q @ p1 \<and> ts = cd_trailers dec @ us
    \<and> wf_decoder dec \<and> reads True (position_of dec) (unread dec @ m) p1 us \<and> (m = [] \<longrightarrow> cd_complete dec)"
proof (cases "pre = []")
  case True
  then have "m \<noteq> []" using assms(2) by (auto elim: reads_AtSizeE)
  then show ?thesis
    using True assms wf_new position_new unread_new succeeds_return [OF assms(1), of "(chunk_decoder_new, tot)"]
    by (intro exI [of _ chunk_decoder_new] exI [of _ "[]"] exI [of _ p] exI [of _ ts])
      (simp add: chunked_prefix_def, simp add: chunk_decoder_new_def)
next
  case False
  obtain dec d p1 us ts1 where f: "decoder_feed chunk_decoder_new pre [] = (Ok (), dec, d)" "p = d @ p1" "ts = us @ ts1"
    "cd_trailers dec = us" "wf_decoder dec" "reads True (position_of dec) (unread dec @ m) p1 ts1" "m = [] \<longrightarrow> cd_complete dec"
    using feed_keeps [OF wf_new, of pre m p ts "[]"] assms(2) by (auto simp: position_new unread_new) (auto simp: chunk_decoder_new_def)
  have "succeeds (io_bind (emit_data cap tot tx d) (\<lambda>t tx. (Ok (dec, t), tx))) (dec, tot + length d)"
    using assms f(2) by (intro succeeds_bind [OF emit_data_succeeds] succeeds_return) auto
  then have "succeeds (chunked_prefix cap tot tx pre) (dec, tot + length d)"
    using False f(1) by (simp add: chunked_prefix_def emit_nothing)
  with f show ?thesis by blast
qed

lemma chunked_body_succeeds:
  assumes "closes tx = None" "reads True AtSize (pre @ avail segs) p ts" "tot + length p + header_bytes ts \<le> cap" "cap < max_of 64"
  shows "succeeds (chunked_body cap tot tx pre segs) ()"
proof -
  obtain dec q p1 us where q: "succeeds (chunked_prefix cap tot tx pre) (dec, tot + length q)" "p = q @ p1" "ts = cd_trailers dec @ us"
    "wf_decoder dec" "reads True (position_of dec) (unread dec @ avail segs) p1 us" "avail segs = [] \<longrightarrow> cd_complete dec"
    using chunked_prefix_succeeds [OF assms(1,2) _ assms(4), of tot] assms(3) by auto
  have loop: "succeeds (chunked_loop cap dec (tot + length q) tx segs) (tot + length p, ts)" if "closes tx = None" for tx
    using chunked_loop_succeeds [OF that q(4,5,6), of "tot + length q" cap] assms(3,4) q(2,3) by (simp add: add.assoc)
  have "succeeds (send_trailers cap (tot + length p) tx ts) ()" if "closes tx = None" for tx
    using that assms(3,4) by (auto simp: send_trailers_def saturating_add_def intro: succeeds_send succeeds_return)
  then show ?thesis
    unfolding chunked_body_def by (intro succeeds_bind [OF q(1)]) (auto intro!: succeeds_bind [OF loop])
qed

text \<open>Messages that end where the stream does, and stay within the limits of the decoder.\<close>

fun deliverable :: "resp_framing \<Rightarrow> bool \<Rightarrow> bytes \<Rightarrow> bytes \<Rightarrow> header list \<Rightarrow> bool" where
  "deliverable (Length n) eof m p ts \<longleftrightarrow> length m = n \<and> p = m \<and> ts = []"
| "deliverable ChunkedCoding eof m p ts \<longleftrightarrow> reads True AtSize m p ts"
| "deliverable UntilEof eof m p ts \<longleftrightarrow> eof \<and> p = m \<and> ts = []"

lemma deliverable_message: "deliverable f e m p ts \<Longrightarrow> message f e m q us \<Longrightarrow> q = p \<and> us = ts"
  by (cases f) (auto dest: reads_unique)

lemma relay_body_succeeds:
  assumes "closes tx = None" "deliverable framing (clean segs) (pre @ avail segs) p ts"
    "tot + length p + header_bytes ts \<le> cap" "cap < max_of 64"
  shows "succeeds (relay_body framing cap tot tx pre segs) ()"
proof (cases framing)
  case (Length n)
  then have n: "n = length pre + length (avail segs)" "p = pre @ avail segs" using assms(2) by auto
  have body: "succeeds (io_bind (length_body cap (length (avail segs)) t tx segs) (\<lambda>_ tx. (Ok (), tx))) ()"
    if "closes tx = None" "t + length (avail segs) \<le> cap" for t tx
    using that assms(4) by (intro succeeds_bind [OF length_body_succeeds] succeeds_return) auto
  show ?thesis
    using n assms body by (auto simp: relay_body_def Length add.assoc intro!: succeeds_bind [OF emit_data_succeeds])
next
  case ChunkedCoding
  then show ?thesis using chunked_body_succeeds [OF assms(1) _ assms(3,4)] assms(2) by (simp add: relay_body_def)
next
  case UntilEof
  then have p: "clean segs" "p = pre @ avail segs" using assms(2) by auto
  have "succeeds (io_bind (emit_data cap tot tx pre) (\<lambda>t tx. io_bind (eof_body cap t tx segs) (\<lambda>_ tx. (Ok (), tx)))) ()"
    using p assms by (intro succeeds_bind [OF emit_data_succeeds] succeeds_bind [OF eof_body_succeeds] succeeds_return) auto
  then show ?thesis using UntilEof by (simp add: relay_body_def emit_nothing)
qed

lemma header_sep_bound: "find_header_sep x = Some n \<Longrightarrow> n + 4 \<le> length x"
  by (auto simp: find_header_sep_def find_upt get_range_def split: if_splits)

lemma header_sep_take:
  assumes "find_header_sep (x @ y) = Some n" "n + 4 \<le> length x"
  shows "find_header_sep x = Some n"
proof -
  have eq: "get_range (x @ y) j (j + 4) = get_range x j (j + 4)" if "j \<le> n" for j
    using that assms(2) by (auto simp: get_range_def)
  then show ?thesis using assms by (auto simp: find_header_sep_def find_upt)
qed

lemma read_head_succeeds:
  "find_header_sep (h @ avail segs) = Some n \<Longrightarrow> n + 4 \<le> HEAD_CAP
    \<Longrightarrow> \<exists>pre s. read_head h segs = (Inr (take n (h @ avail segs), pre), s)"
proof (induction h segs rule: read_head.induct)
  case (1 h segs)
  have w: "0 < rbuf_len" by (simp add: rbuf_len_def)
  show ?case
  proof (cases "find_header_sep h")
    case (Some q)
    then have "q = n" using header_sep_append [OF Some] "1.prems"(1) by auto
    then show ?thesis using Some header_sep_bound [OF Some] by (simp add: read_head.simps [of h])
  next
    case None
    then have short: "length h < n + 4" using header_sep_take [OF "1.prems"(1)] by fastforce
    then have cap: "\<not> length h > HEAD_CAP" using "1.prems"(2) by simp
    have "avail segs \<noteq> []" using "1.prems"(1) None by auto
    then obtain b s where more: "read rbuf_len segs = (Inr b, s)" "b \<noteq> []"
      using read_avail(2,3) [OF w, of segs] by (cases rule: read_cases [of rbuf_len segs]) fastforce+
    with "1.IH" [OF None cap more(1) [symmetric] refl more(2)] "1.prems" read_avail(1) [OF w more] None cap
    show ?thesis by (simp add: read_head.simps [of h])
  qed
qed

lemma response_delivers:
  assumes "find_header_sep (avail segs) = Some n" "n + 4 \<le> HEAD_CAP"
    and "parse_head (take n (avail segs)) = Ok (status, framing, hs)"
    and "deliverable framing (clean segs) (drop (n + 4) (avail segs)) p ts"
    and "header_bytes hs + length p + header_bytes ts \<le> cap" "cap < max_of 64"
  shows "\<exists>bs. concat bs = p \<and> stream_h1_response segs \<lparr>sent = [], closes = None\<rparr> cap
    = (Ok (), \<lparr>sent = Head status hs # map Body bs @ trailer_events ts @ [RespEnd], closes = None\<rparr>)"
proof -
  let ?tx = "\<lparr>sent = [], closes = None\<rparr>"
  obtain pre s where rh: "read_head [] segs = (Inr (take n (avail segs), pre), s)"
    using read_head_succeeds [of "[]" segs n] assms(1,2) by auto
  have len: "length (take n (avail segs)) = n" using header_sep_bound [OF assms(1)] by simp
  have a: "pre @ avail s = drop (n + 4) (avail segs)" "clean s = clean segs"
    using read_head_avail [OF rh] len by (auto dest: arg_cong [of _ _ "drop (n + 4)"])
  have t: "saturating_add 64 0 (header_bytes hs) = header_bytes hs" using assms(5,6) by (simp add: saturating_add_def)
  have "succeeds (relay_body framing cap (header_bytes hs) tx pre s) ()" if "closes tx = None" for tx
    using relay_body_succeeds [OF that _ assms(5,6)] assms(4) a by simp
  then have "succeeds (stream_h1_response segs ?tx cap) ()"
    using rh assms(3,5) t
    by (auto simp: stream_h1_response_def Let_def intro!: succeeds_bind [OF succeeds_send] succeeds_bind succeeds_send)
  then obtain tx where run: "stream_h1_response segs ?tx cap = (Ok (), tx)" "closes tx = None"
    by (cases "stream_h1_response segs ?tx cap") (auto simp: succeeds_def)
  from response_posts [of ?tx segs cap] run have "response_run segs cap (Ok ()) (sent tx)" by (auto simp: posts_def)
  then obtain head pre' s' st fr hs' bs us where
    r: "avail segs = head @ [CR, LF, CR, LF] @ pre' @ avail s'" "find_header_sep (head @ [CR, LF, CR, LF] @ pre') = Some (length head)"
    "parse_head head = Ok (st, fr, hs')" "message fr (clean segs) (pre' @ avail s') (concat bs) us"
    "sent tx = Head st hs' # map Body bs @ trailer_events us @ [RespEnd]"
    by (auto simp: response_run_def)
  have "length head = n" using header_sep_append [OF r(2), of "avail s'"] r(1) assms(1) by simp
  then have "head = take n (avail segs)" "pre' @ avail s' = drop (n + 4) (avail segs)" using r(1) by auto
  then have "concat bs = p" "us = ts" "st = status" "hs' = hs"
    using r(3,4) assms(3) deliverable_message [OF assms(4)] by auto
  with run r(5) show ?thesis by (intro exI [of _ bs]) (cases tx, simp)
qed

lemma status_200: "parse_uint (max_of 16) ''200'' = Some 200"
  by (simp add: parse_uint_def digit_of_def max_of_def)

lemma parse_head_chunked:
  "parse_head (bytes_of (''HTTP/1.1 200 OK'' @ CRLF @ ''Transfer-Encoding: chunked'')) = Ok (200, ChunkedCoding, [])"
proof -
  let ?h = "''HTTP/1.1 200 OK'' @ CRLF @ ''Transfer-Encoding: chunked''"
  have "from_utf8 (bytes_of ?h) = Some ?h"
    "split_crlf ?h = [''HTTP/1.1 200 OK'', ''Transfer-Encoding: chunked'']" "get (splitn 3 CHR '' '' ''HTTP/1.1 200 OK'') 1 = Some ''200''"
    "split_once CHR '':'' ''Transfer-Encoding: chunked'' = Some (''Transfer-Encoding'', '' chunked'')"
    "to_ascii_lowercase (trim ''Transfer-Encoding'') = ''transfer-encoding''"
    "contains (to_ascii_lowercase '' chunked'') ''chunked''"
    by code_simp+
  then show ?thesis using status_200 by (simp add: parse_head_def status_of_line_def del: bytes_of_simps)
qed

text \<open>C40. A complete response is delivered however its bytes are cut: when the upstream sends a well-formed head of at
  most 64 KiB and a message of its framing that fits the cap (and that, if it is chunked, has the plain sizes,
  the end-to-end trailer fields and the limits of the strict grammar), the relay succeeds over an open channel, and the client receives the head, the payload, the trailers
  and the end.\<close>

theorem response_delivered:
  assumes "find_header_sep (avail segs) = Some n" and "n + 4 \<le> HEAD_CAP"
    and "parse_head (take n (avail segs)) = Ok (status, framing, hs)"
    and "deliverable framing (clean segs) (drop (n + 4) (avail segs)) p ts"
    and "header_bytes hs + length p + header_bytes ts \<le> cap" and "cap < max_of 64"
  shows "\<exists>bs. concat bs = p \<and> stream_h1_response segs \<lparr>sent = [], closes = None\<rparr> cap
    = (Ok (), \<lparr>sent = Head status hs # map Body bs @ trailer_events ts @ [RespEnd], closes = None\<rparr>)"
  by (rule response_delivers [OF assms])

theorem response_delivered_witness:
  "\<exists>bs. concat bs = [0x61, 0x62] \<and> stream_h1_response
      [Data (bytes_of (''HTTP/1.1 200 OK'' @ CRLF @ ''Transfer-'')), Data (bytes_of (''Encoding: chunked'' @ CRLF @ CRLF @ ''1'')),
       Data (bytes_of (CRLF @ ''a'' @ CRLF @ ''1'' @ CRLF @ ''b'')), Data (bytes_of (CRLF @ ''0'' @ CRLF @ CRLF))]
      \<lparr>sent = [], closes = None\<rparr> 10
    = (Ok (), \<lparr>sent = Head 200 [] # map Body bs @ [RespEnd], closes = None\<rparr>)"
proof -
  let ?segs = "[Data (bytes_of (''HTTP/1.1 200 OK'' @ CRLF @ ''Transfer-'')),
     Data (bytes_of (''Encoding: chunked'' @ CRLF @ CRLF @ ''1'')),
     Data (bytes_of (CRLF @ ''a'' @ CRLF @ ''1'' @ CRLF @ ''b'')), Data (bytes_of (CRLF @ ''0'' @ CRLF @ CRLF))]"
  let ?h = "bytes_of (''HTTP/1.1 200 OK'' @ CRLF @ ''Transfer-Encoding: chunked'')"
  have f: "find_header_sep (avail ?segs) = Some 43" "take 43 (avail ?segs) = ?h" by code_simp+
  have m: "drop (43 + 4) (avail ?segs) = chunked_wire [[0x61], [0x62]] []" by code_simp
  have "deliverable ChunkedCoding (clean ?segs) (drop (43 + 4) (avail ?segs)) (concat [[0x61], [0x62]]) []"
    unfolding m deliverable.simps by (rule reads_wire) simp
  from response_delivered [OF f(1) _ _ this, of 200 "[]" 10] f(2) parse_head_chunked
  show ?thesis by (simp add: HEAD_CAP_def header_bytes_def max_of_def trailer_events_def del: bytes_of_simps avail.simps)
qed

theorem response_exact_witness:
  "\<exists>tx head rest status framing hs bs ts.
      stream_h1_response [Data (bytes_of (''HTTP/1.1 200 OK'' @ CRLF @ ''Transfer-Encoding: chunked'' @ CRLF @ CRLF)),
          Data (chunked_wire [[0x61], [0x62]] [])] \<lparr>sent = [], closes = None\<rparr> 10 = (Ok (), tx)
    \<and> parse_head head = Ok (status, framing, hs) \<and> conforming framing True rest (concat bs) ts
    \<and> sent tx = Head status hs # map Body bs @ trailer_events ts @ [RespEnd]"
proof -
  let ?segs = "[Data (bytes_of (''HTTP/1.1 200 OK'' @ CRLF @ ''Transfer-Encoding: chunked'' @ CRLF @ CRLF)),
    Data (chunked_wire [[0x61], [0x62]] [])]"
  let ?h = "bytes_of (''HTTP/1.1 200 OK'' @ CRLF @ ''Transfer-Encoding: chunked'')"
  have f: "find_header_sep (avail ?segs) = Some 43" "take 43 (avail ?segs) = ?h"
    "drop (43 + 4) (avail ?segs) = chunked_wire [[0x61], [0x62]] []" "clean ?segs" by code_simp+
  have r: "reads True AtSize (drop (43 + 4) (avail ?segs)) (concat [[0x61], [0x62]]) []"
    unfolding f(3) by (rule reads_wire) simp
  then have d: "deliverable ChunkedCoding (clean ?segs) (drop (43 + 4) (avail ?segs)) (concat [[0x61], [0x62]]) []"
    by (simp only: deliverable.simps)
  have p: "parse_head (take 43 (avail ?segs)) = Ok (200, ChunkedCoding, [])" using f(2) parse_head_chunked by (simp only:)
  have c: "43 + 4 \<le> HEAD_CAP" "header_bytes [] + length (concat [[0x61 :: u8], [0x62]]) + header_bytes [] \<le> 10" "(10 :: nat) < max_of 64"
    by (simp_all add: HEAD_CAP_def header_bytes_def max_of_def)
  have reg: "regular_response (avail ?segs)"
    unfolding regular_response_def using reads_unique [OF r] r f(1) by (metis option.inject)
  obtain tx where run: "stream_h1_response ?segs \<lparr>sent = [], closes = None\<rparr> 10 = (Ok (), tx)"
    using response_delivers [OF f(1) c(1) p d c(2,3)] by blast
  from response_exact [OF run c(3) reg] run f(4) show ?thesis by metis
qed

section \<open>Limits of the response half\<close>

text \<open>An interim response is taken for the final one: its head has no length, so the final response that
  follows it is relayed as its body.\<close>

lemma interim_taken_final: "parse_head (bytes_of ''HTTP/1.1 100 Continue'') = Ok (100, UntilEof, [])"
proof -
  have "from_utf8 (bytes_of ''HTTP/1.1 100 Continue'') = Some ''HTTP/1.1 100 Continue''"
    "split_crlf ''HTTP/1.1 100 Continue'' = [''HTTP/1.1 100 Continue'']"
    "get (splitn 3 CHR '' '' ''HTTP/1.1 100 Continue'') 1 = Some ''100''"
    by code_simp+
  moreover have "parse_uint (max_of 16) ''100'' = Some 100" by (simp add: parse_uint_def digit_of_def max_of_def)
  ultimately show ?thesis by (simp add: parse_head_def status_of_line_def del: bytes_of_simps)
qed

text \<open>A declared length is always followed by a body: the response to a HEAD request, which declares the length
  and ends after its head, is reset.\<close>

lemma head_response_reset: "0 < n \<Longrightarrow> relay_body (Length n) cap tot tx [] [] = abort tx PrematureEof"
  by (simp add: relay_body_def length_body.simps [of cap n tot tx "[]"] abort_def io_bind_def)

text \<open>Of several lengths the last one counts, and any coding whose name contains \<open>chunked\<close> is taken for it.\<close>

lemma last_length_counts:
  "head_lines st [''Content-Length: 1'', ''Content-Length: 2''] = Ok (st\<lparr>hs_length := Some 2\<rparr>)"
proof -
  have "split_once CHR '':'' ''Content-Length: 1'' = Some (''Content-Length'', '' 1'')"
    "split_once CHR '':'' ''Content-Length: 2'' = Some (''Content-Length'', '' 2'')"
    "to_ascii_lowercase (trim ''Content-Length'') = ''content-length''" "trim '' 1'' = ''1''" "trim '' 2'' = ''2''"
    by code_simp+
  then show ?thesis by (simp add: parse_uint_def digit_of_def max_of_def)
qed

lemma coding_by_substring:
  "head_lines st [''Transfer-Encoding: xchunked''] = Ok (st\<lparr>hs_chunked := True\<rparr>)"
proof -
  have "split_once CHR '':'' ''Transfer-Encoding: xchunked'' = Some (''Transfer-Encoding'', '' xchunked'')"
    "to_ascii_lowercase (trim ''Transfer-Encoding'') = ''transfer-encoding''" "contains (to_ascii_lowercase '' xchunked'') ''chunked''"
    by code_simp+
  then show ?thesis by simp
qed

end
