(* ===== verification/Spec2Isabelle.thy ===== *)
theory Spec2Isabelle
  imports Weighted_RR Maglev Ring_Hash Hpack H2_Security H1_Chunked Grpc Qpack Conn_Gate Zero_Rtt Smuggle Retry Xdp Quic_Header H3_Response
begin

text \<open>
  \<^bold>\<open>ExpressGateway\<close>, a layer 4 and layer 7 load balancer in Rust (the crates under \<open>src/crates\<close>).

  \<^bold>\<open>The program.\<close> A listener admits a connection through the guards of \<open>lb-security\<close>, decodes its protocol
  with one of the codecs (\<open>lb-h1\<close>, \<open>lb-h2\<close>, \<open>lb-h3-testcodec\<close>, \<open>lb-grpc\<close>, the QUIC headers of \<open>lb-quic\<close>), checks
  the authority of the request (\<open>lb-core\<close>, \<open>lb-l7\<close>), picks a backend with a balancer (\<open>lb-balancer\<close>) and
  translates the request to the protocol of the backend (\<open>lb-l7\<close>, and the relay of \<open>lb-quic/src/h3_bridge.rs\<close> for
  HTTP/3 clients). Below that an XDP program (\<open>lb-l4-xdp/ebpf\<close>) filters and rewrites packets in the kernel.

  \<^bold>\<open>Conventions.\<close> A struct is a record, an enum a datatype, a \<open>Result\<close> the sum type with \<open>Ok\<close> and \<open>Err\<close>; an
  operation takes its state and returns it updated. Integers of a fixed width are words, or naturals with the
  wrapping, saturating and checked operations of \<open>Prelude\<close> written out at their width; a \<open>usize\<close> has 64 bits and
  arithmetic wraps as in a release build. A \<open>String\<close> is the list of its UTF-8 bytes as characters, binary data a
  list of bytes. Clocks, random sources, keys, hash and cipher functions and the parsers of the \<open>http\<close> crate are
  arguments of the definitions that use them, with what is needed of them as hypotheses or as the assumptions of
  a locale.

  \<^bold>\<open>Shared theories.\<close>
  \<^item> \<open>Prelude\<close>: machine integers, \<open>Result\<close> and \<open>Option\<close> combinators, slices.
  \<^item> \<open>Byte_Codec\<close>: big-endian integers and the locale \<open>frame_codec\<close>: a codec that inverts its encoder on one
    frame does so on a stream of frames. It is interpreted for HTTP/2, HTTP/3 and gRPC.
  \<^item> \<open>Rust_Str\<close>: \<open>str::from_utf8\<close>, trimming, splitting, decimal and hexadecimal integers.
  \<^item> \<open>Rate_Window\<close>: the locale \<open>window_limiter\<close> and the rate a fixed-window limiter enforces, interpreted for
    the SETTINGS, PING and rapid-reset detectors.

  \<^bold>\<open>Balancing.\<close>
  \<^item> \<open>Backend\<close> (\<open>lb-core/src/backend.rs\<close>): the counters of a backend.
  \<^item> \<open>Balancer\<close> (\<open>lb-balancer/src\<close>): round robin, random, weighted random, power of two choices, least
    connections, least request, EWMA and session affinity. Locales \<open>load_balancer\<close> and \<open>keyed_load_balancer\<close> hold
    the contract of a pick, \<open>min_scan\<close> the scans for a minimum, \<open>rng\<close> the random source. Round robin is fair.
  \<^item> \<open>Weighted_RR\<close>: smooth weighted round robin gives every backend exactly its share per cycle and stays less
    than one pick ahead of it in between.
  \<^item> \<open>Maglev\<close>: the table is filled, balanced to within one slot; the permutations and the primality test behind them.
  \<^item> \<open>Ring_Hash\<close>: a key goes to the next point clockwise; as long as no
    points of different backends collide, a backend that is added takes keys and moves no others.

  \<^bold>\<open>Codecs.\<close>
  \<^item> \<open>H2_Frame\<close>, \<open>Hpack\<close>, \<open>H2_Security\<close> (\<open>lb-h2/src\<close>): frames, header compression with its dynamic table, and the
    abuse detectors. Streams of frames and of header blocks are read back; the table stays within its size;
    accepted control frames have a bounded rate, and accepted resets one without a double burst at the edge of a window.
  \<^item> \<open>H1_Parse\<close>, \<open>H1_Chunked\<close> (\<open>lb-h1/src\<close>): heads and chunked bodies are read back, and where the input is cut
    does not matter.
  \<^item> \<open>H3_Frame\<close>, \<open>Qpack\<close> (\<open>lb-h3-testcodec/src\<close>), \<open>Grpc\<close> (\<open>lb-grpc/src\<close>): round trips of frames, field
    sections and messages.
  \<^item> \<open>Quic_Header\<close> (\<open>lb-quic/src/public_header.rs\<close>): exactly the packets of the wire format
    are parsed, to the header they carry.

  \<^bold>\<open>Guards.\<close>
  \<^item> \<open>Conn_Gate\<close> (\<open>lb-security/src/conn_gate.rs\<close>): the counters of the gate under every interleaving of its
    compare-exchange loops; the caps hold and permits are released.
  \<^item> \<open>Zero_Rtt\<close>: the replay guard refines a bounded least-recently-used set; a replay within it is caught.
  \<^item> \<open>Abuse_Guards\<close>: slowloris, slow POST, glitch counter and watchdog; the locale \<open>rate_floor\<close> bounds how slow
    a client can be at any time, whatever it sent before.
  \<^item> \<open>Smuggle\<close>, \<open>Retry\<close>: exactly which requests the smuggling checks refuse and which retry tokens are accepted.

  \<^bold>\<open>Layer 4.\<close> \<open>Checksum\<close> and \<open>Xdp\<close> (\<open>lb-l4-xdp/ebpf/src/main.rs\<close>): the packet path over the raw bytes of a packet;
  what is transmitted is the rewritten packet with valid checksums, a UDP checksum that comes out as zero apart.

  \<^bold>\<open>Layer 7.\<close>
  \<^item> \<open>Authority\<close>: the authority predicate, its agreement with \<open>Host\<close> and its binding to the SNI of the connection.
  \<^item> \<open>Bridges\<close>: the nine protocol bridges; the locale \<open>bridge_contract\<close> holds what a bridge keeps, \<open>bridge_chain\<close>
    composes two of them. The downgrade from HTTP/2 passes the smuggling detector of \<open>Smuggle\<close>, and two gateways in
    a row deliver the request of the first.
  \<^item> \<open>H3_Ingress\<close>: the pseudo-header rules and the admission step of \<open>poll_h3\<close> (\<open>lb-quic/src/conn_actor.rs\<close>).
  \<^item> \<open>H3_To_H1\<close>: the request half of the relay, over a socket that may fail at any write. A request the client did
    not finish is never readable as complete; a finished one is read back by the codec of \<open>H1_Parse\<close> and
    \<open>H1_Chunked\<close>.
  \<^item> \<open>Chunk_Decoder\<close>, \<open>H3_Response\<close>: the response half, over any segmentation of the reads and any closing of the
    channel to the client. A grammar of chunked messages is the reference of the decoder, in a strict form (the lines
    of RFC 9112, end-to-end trailers, the limits) and in the wider one the decoder understands. The events keep their
    documented order; for an upstream that keeps to the strict form, a response reported complete is complete; and a
    complete one within the limits is delivered.

  \<^bold>\<open>Loops and fuel.\<close> Loops over data are recursive functions with a termination proof by the input still to be
  read. The primality test and the filling loop of Maglev, whose end depends on numbers and permutations, are partial
  functions with the result \<open>None\<close> when they do not return; that they return is part of what is proved about
  them. No definition uses fuel.

  \<^bold>\<open>Not modelled.\<close> The binary (\<open>lb\<close>), the listeners and connection actors of \<open>lb-quic\<close>, and the proxies of \<open>lb-l7\<close>
  are glue around tokio, hyper, quiche and rustls, whose sources are not part of the repository; the relays from
  HTTP/3 to HTTP/2 and HTTP/3 upstreams depend on the same libraries at every step. Tickets, keys and the bearer
  token of \<open>lb-security\<close> wrap rustls and ring. The loader and netlink code of \<open>lb-l4-xdp\<close> talks to the kernel.
  \<open>lb-soak\<close> is test tooling. \<open>lb-config\<close>, \<open>lb-controlplane\<close>, \<open>lb-cp-client\<close>, \<open>lb-health\<close>, \<open>lb-io\<close> and
  \<open>lb-observability\<close> have pure parts (configuration rules, version history, health thresholds, the DNS cache, the
  trace-context codec) that this development does not cover, as it does not cover the connection table, the hot
  swap manager and the ACL trie of \<open>lb-l4-xdp/src\<close>.
\<close>

end
